(* ===== verification/Prelude.thy ===== *)
theory Prelude
  imports Main "HOL-Library.Word" "HOL-Library.Monad_Syntax"
begin

text \<open>
  Shared vocabulary of the development: the machine types of the C programs, the reading
  of \<open>option\<close> as the outcome of a C computation, and generic lemmas on options, lists and words.

  A C computation that may hit undefined behaviour (an access outside the mapped memory, an
  index outside an array) or that may not return has a result of type \<open>'a option\<close>:
  \<open>Some r\<close> when it returns \<open>r\<close>, \<open>None\<close> otherwise.
\<close>

type_synonym byte = "8 word"
type_synonym addr = "64 word"
type_synonym size_t = "64 word"
type_synonym u32 = "32 word"

lemma bind_eq_SomeE:
  assumes "Option.bind x f = Some y"
  obtains a where "x = Some a" "f a = Some y"
  using assms by (cases x) auto

lemma bind_Some_iff: "Option.bind x f = Some y \<longleftrightarrow> (\<exists>a. x = Some a \<and> f a = Some y)"
  by (cases x) auto

text \<open>Addition on words that does not wrap around, read in the natural numbers.\<close>

lemma unat_add_no_wrap:
  fixes a b :: addr
  assumes "unat a + unat b < 2 ^ 64"
  shows "unat (a + b) = unat a + unat b"
  using assms by (simp add: unat_word_ariths)

lemma unat_add_numeral_no_wrap:
  fixes a :: addr
  assumes "unat a + k < 2 ^ 64"
  shows "unat (a + of_nat k) = unat a + k"
  using assms by (simp add: unat_word_ariths unat_of_nat)

lemma unat_sub_no_wrap:
  fixes a b :: addr
  assumes "unat b \<le> unat a"
  shows "unat (a - b) = unat a - unat b"
  using assms by (simp add: unat_sub_if')

lemma unat_lt64: "unat (a :: addr) < 2 ^ 64"
  using unsigned_less[of a] by simp

lemma find_append':
  "find P (xs @ ys) = (case find P xs of None \<Rightarrow> find P ys | Some x \<Rightarrow> Some x)"
  by (induction xs) auto

text \<open>Disjoint intervals of addresses, in the two forms the frame lemmas ask for.\<close>

lemma interval_subset_compl [simp]:
  "{a ..< b} \<subseteq> - {c ..< d} \<longleftrightarrow> b \<le> a \<or> d \<le> c \<or> b \<le> c \<or> d \<le> (a :: nat)"
proof
  assume s: "{a ..< b} \<subseteq> - {c ..< d}"
  show "b \<le> a \<or> d \<le> c \<or> b \<le> c \<or> d \<le> a"
  proof (rule ccontr)
    assume "\<not> ?thesis"
    then have "max a c \<in> {a ..< b}" "max a c \<in> {c ..< d}" by auto
    with s show False by blast
  qed
qed auto

lemma interval_disjoint [simp]:
  "{a ..< b} \<inter> {c ..< d} = {} \<longleftrightarrow> b \<le> a \<or> d \<le> c \<or> b \<le> c \<or> d \<le> (a :: nat)"
  using interval_subset_compl[of a b c d] by blast

end
