(* ===== verification/ByteMemory.thy ===== *)
theory ByteMemory
  imports Prelude
begin

text \<open>
  The memory of a process as the C code of \<^verbatim>\<open>sharedMalloc\<close> sees it: bytes at 64-bit
  addresses, and the regions that are mapped. A load or a store outside the mapped regions is
  a fault (\<open>None\<close>). Multi-byte values are little endian. The laws at the end (a read after a
  write of the same field, of a disjoint field) are all that the allocator's proofs use.
\<close>

section \<open>Bytes of an integer\<close>

fun to_bytes :: "nat \<Rightarrow> int \<Rightarrow> byte list" where
  "to_bytes 0 v = []"
| "to_bytes (Suc n) v = word_of_int v # to_bytes n (v div 256)"

fun from_bytes :: "byte list \<Rightarrow> int" where
  "from_bytes [] = 0"
| "from_bytes (b # bs) = uint b + 256 * from_bytes bs"

lemma length_to_bytes [simp]: "length (to_bytes n v) = n"
  by (induction n arbitrary: v) auto

lemma from_to_bytes: "from_bytes (to_bytes n v) = v mod 256 ^ n"
proof (induction n arbitrary: v)
  case (Suc n)
  have "uint (word_of_int v :: byte) = v mod 256"
    by (simp add: uint_word_of_int)
  then show ?case
    by (simp add: Suc zmod_zmult2_eq)
qed simp

section \<open>Memory\<close>

record memory =
  content :: "addr \<Rightarrow> byte"
  mapped :: "(addr \<times> nat) list"

definition valid :: "memory \<Rightarrow> addr \<Rightarrow> nat \<Rightarrow> bool" where
  "valid m a n \<longleftrightarrow>
     list_ex (\<lambda>(s, l). unat s \<le> unat a \<and> unat a + n \<le> unat s + l) (mapped m)"

definition get_bytes :: "(addr \<Rightarrow> byte) \<Rightarrow> addr \<Rightarrow> nat \<Rightarrow> byte list" where
  "get_bytes c a n = map (\<lambda>i. c (a + of_nat i)) [0..<n]"

definition put_bytes :: "(addr \<Rightarrow> byte) \<Rightarrow> addr \<Rightarrow> byte list \<Rightarrow> addr \<Rightarrow> byte" where
  "put_bytes c a bs = (\<lambda>x. if unat (x - a) < length bs then bs ! unat (x - a) else c x)"

definition apart :: "addr \<Rightarrow> nat \<Rightarrow> addr \<Rightarrow> nat \<Rightarrow> bool" where
  "apart a n b k \<longleftrightarrow> n \<le> unat (b - a) \<and> k \<le> unat (a - b)"

lemma unat_add_of_nat_small:
  fixes d :: addr
  assumes "unat d + i < 2 ^ 64"
  shows "unat (d + of_nat i) = unat d + i"
  using assms by (rule unat_add_numeral_no_wrap)

lemma length_get_bytes [simp]: "length (get_bytes c a n) = n"
  by (simp add: get_bytes_def)

lemma get_put_same:
  assumes "length bs = n" "n < 2 ^ 64"
  shows "get_bytes (put_bytes c a bs) a n = bs"
proof (rule nth_equalityI)
  fix i assume "i < length (get_bytes (put_bytes c a bs) a n)"
  then have "i < n" by simp
  moreover from this assms have "unat (of_nat i :: addr) = i"
    by (simp add: unat_of_nat)
  ultimately show "get_bytes (put_bytes c a bs) a n ! i = bs ! i"
    using assms by (simp add: get_bytes_def put_bytes_def)
qed (simp add: assms)

lemma put_bytes_apart:
  assumes "apart a (length bs) b k" "i < k"
  shows "put_bytes c a bs (b + of_nat i) = c (b + of_nat i)"
proof -
  have "unat (b - a) + unat (a - b) = 2 ^ 64 \<or> (b - a = 0 \<and> a - b = 0)"
  proof (cases "b = a")
    case False
    have "unat (a - b) = 2 ^ 64 - unat (b - a)"
      using False unat_lt64[of a] unat_lt64[of b] by (auto simp: unat_sub_if' word_unat_eq_iff)
    then show ?thesis
      using unat_lt64[of "b - a"] by simp
  qed simp
  then have "unat (b - a) + i < 2 ^ 64 \<or> length bs = 0"
    using assms by (auto simp: apart_def)
  then have "unat (b - a + of_nat i) = unat (b - a) + i \<or> length bs = 0"
    using unat_add_of_nat_small by blast
  then have "\<not> unat (b - a + of_nat i) < length bs"
    using assms by (auto simp: apart_def)
  then show ?thesis
    by (simp add: put_bytes_def algebra_simps)
qed

lemma get_put_apart:
  assumes "apart a (length bs) b k"
  shows "get_bytes (put_bytes c a bs) b k = get_bytes c b k"
  using put_bytes_apart[OF assms] by (simp add: get_bytes_def)


section \<open>Typed loads and stores\<close>

definition get_int :: "nat \<Rightarrow> (addr \<Rightarrow> byte) \<Rightarrow> addr \<Rightarrow> int" where
  "get_int n c a = from_bytes (get_bytes c a n)"

definition load_u64 :: "memory \<Rightarrow> addr \<Rightarrow> 64 word option" where
  "load_u64 m a = (if valid m a 8 then Some (word_of_int (get_int 8 (content m) a)) else None)"

definition load_u32 :: "memory \<Rightarrow> addr \<Rightarrow> u32 option" where
  "load_u32 m a = (if valid m a 4 then Some (word_of_int (get_int 4 (content m) a)) else None)"

definition store_u64 :: "memory \<Rightarrow> addr \<Rightarrow> 64 word \<Rightarrow> memory option" where
  "store_u64 m a v =
     (if valid m a 8 then Some (m\<lparr>content := put_bytes (content m) a (to_bytes 8 (uint v))\<rparr>)
      else None)"

definition store_u32 :: "memory \<Rightarrow> addr \<Rightarrow> u32 \<Rightarrow> memory option" where
  "store_u32 m a v =
     (if valid m a 4 then Some (m\<lparr>content := put_bytes (content m) a (to_bytes 4 (uint v))\<rparr>)
      else None)"

section \<open>Address ranges and the frame of a store\<close>

text \<open>
  \<open>rng a n\<close> is the set of the \<open>n\<close> byte addresses from \<open>a\<close> on, in the natural numbers;
  \<open>same_on A m m'\<close> says that the two memories have the same mapping and the same bytes at
  the addresses of \<open>A\<close>.
\<close>

definition rng :: "addr \<Rightarrow> nat \<Rightarrow> nat set" where
  "rng a n = {unat a ..< unat a + n}"

definition same_on :: "nat set \<Rightarrow> memory \<Rightarrow> memory \<Rightarrow> bool" where
  "same_on A m m' \<longleftrightarrow>
     mapped m' = mapped m \<and> (\<forall>x. unat x \<in> A \<longrightarrow> content m' x = content m x)"

text \<open>Every mapped region ends below the end of the address space and none reaches the page at \<open>NULL\<close>.\<close>

definition wf_memory :: "memory \<Rightarrow> bool" where
  "wf_memory m \<longleftrightarrow> list_all (\<lambda>(s, l). 4096 \<le> unat s \<and> unat s + l < 2 ^ 64) (mapped m)"

lemma same_on_refl [simp]: "same_on A m m"
  by (simp add: same_on_def)

lemma same_on_mono: "same_on A m m' \<Longrightarrow> B \<subseteq> A \<Longrightarrow> same_on B m m'"
  by (auto simp: same_on_def)

lemma same_on_trans: "same_on A m m' \<Longrightarrow> same_on B m' m'' \<Longrightarrow> same_on (A \<inter> B) m m''"
  by (auto simp: same_on_def)

lemma same_on_sym: "same_on A m m' \<Longrightarrow> same_on A m' m"
  by (auto simp: same_on_def)

lemma same_on_valid: "same_on A m m' \<Longrightarrow> valid m' a n = valid m a n"
  by (simp add: same_on_def valid_def)

lemma same_on_wf: "same_on A m m' \<Longrightarrow> wf_memory m' = wf_memory m"
  by (simp add: same_on_def wf_memory_def)

lemma valid_bound:
  assumes "wf_memory m" "valid m a n"
  shows "unat a + n \<le> 2 ^ 64" and "0 < unat a" and "4096 \<le> unat a" and "unat a + n < 2 ^ 64"
proof -
  obtain s l where sl: "(s, l) \<in> set (mapped m)" "unat s \<le> unat a" "unat a + n \<le> unat s + l"
    using assms(2) by (auto simp: valid_def list_ex_iff)
  moreover have "4096 \<le> unat s" "unat s + l < 2 ^ 64"
    using assms(1) sl(1) by (auto simp: wf_memory_def list_all_iff)
  ultimately show "unat a + n \<le> 2 ^ 64" "0 < unat a" "4096 \<le> unat a" "unat a + n < 2 ^ 64" by linarith+
qed

lemma valid_sub:
  assumes "valid m a n" "unat a \<le> unat b" "unat b + k \<le> unat a + n"
  shows "valid m b k"
proof -
  obtain s l where "(s, l) \<in> set (mapped m)" "unat s \<le> unat a" "unat a + n \<le> unat s + l"
    using assms(1) by (auto simp: valid_def list_ex_iff)
  with assms(2,3) show ?thesis
    by (auto simp: valid_def list_ex_iff intro!: bexI[of _ "(s, l)"])
qed

lemma unat_add_of_nat_in:
  fixes a :: addr
  assumes "unat a + n \<le> 2 ^ 64" "i < n"
  shows "unat (a + of_nat i) = unat a + i"
  using assms by (intro unat_add_numeral_no_wrap) simp

lemma get_bytes_same_on:
  assumes "same_on A m m'" "rng a n \<subseteq> A" "unat a + n \<le> 2 ^ 64"
  shows "get_bytes (content m') a n = get_bytes (content m) a n"
  using assms by (auto simp: get_bytes_def same_on_def rng_def unat_add_of_nat_in subset_iff)

lemma load_u64_same_on:
  assumes "same_on A m m'" "wf_memory m" "rng a 8 \<subseteq> A"
  shows "load_u64 m' a = load_u64 m a"
  using get_bytes_same_on[OF assms(1,3)] valid_bound(1)[OF assms(2), of a 8] same_on_valid[OF assms(1)]
  by (auto simp: load_u64_def get_int_def)

lemma load_u32_same_on:
  assumes "same_on A m m'" "wf_memory m" "rng a 4 \<subseteq> A"
  shows "load_u32 m' a = load_u32 m a"
  using get_bytes_same_on[OF assms(1,3)] valid_bound(1)[OF assms(2), of a 4] same_on_valid[OF assms(1)]
  by (auto simp: load_u32_def get_int_def)

lemma put_bytes_same_on:
  assumes "unat a + length bs \<le> 2 ^ 64"
  shows "same_on (- rng a (length bs)) m (m\<lparr>content := put_bytes (content m) a bs\<rparr>)"
proof -
  have "unat x \<in> rng a (length bs)" if "unat (x - a) < length bs" for x
  proof (cases "unat a \<le> unat x")
    case True
    with that show ?thesis by (auto simp: rng_def unat_sub_no_wrap)
  next
    case False
    then have "unat (x - a) = 2 ^ 64 + unat x - unat a"
      using unat_lt64[of a] by (simp add: unat_sub_if')
    with that assms show ?thesis by simp
  qed
  then show ?thesis
    by (auto simp: same_on_def put_bytes_def)
qed

text \<open>What one store does: it writes its field and leaves every other byte alone.\<close>

lemma store_u64_ok:
  assumes "wf_memory m" "valid m a 8"
  obtains m' where "store_u64 m a v = Some m'" "load_u64 m' a = Some v"
    "same_on (- rng a 8) m m'"
proof
  let ?m' = "m\<lparr>content := put_bytes (content m) a (to_bytes 8 (uint v))\<rparr>"
  show "store_u64 m a v = Some ?m'"
    using assms by (simp add: store_u64_def)
  have "valid ?m' a 8" using assms(2) by (simp add: valid_def)
  moreover have "get_int 8 (content ?m') a = uint v"
    using uint_bounded[of v] by (simp add: get_int_def get_put_same from_to_bytes mod_pos_pos_trivial)
  ultimately show "load_u64 ?m' a = Some v"
    by (simp add: load_u64_def)
  show "same_on (- rng a 8) m ?m'"
    using put_bytes_same_on[of a "to_bytes 8 (uint v)" m] valid_bound[OF assms] by simp
qed

lemma store_u32_ok:
  assumes "wf_memory m" "valid m a 4"
  obtains m' where "store_u32 m a v = Some m'" "load_u32 m' a = Some v"
    "same_on (- rng a 4) m m'"
proof
  let ?m' = "m\<lparr>content := put_bytes (content m) a (to_bytes 4 (uint v))\<rparr>"
  show "store_u32 m a v = Some ?m'"
    using assms by (simp add: store_u32_def)
  have "valid ?m' a 4" using assms(2) by (simp add: valid_def)
  moreover have "get_int 4 (content ?m') a = uint v"
    using uint_bounded[of v] by (simp add: get_int_def get_put_same from_to_bytes mod_pos_pos_trivial)
  ultimately show "load_u32 ?m' a = Some v"
    by (simp add: load_u32_def)
  show "same_on (- rng a 4) m ?m'"
    using put_bytes_same_on[of a "to_bytes 4 (uint v)" m] valid_bound[OF assms] by simp
qed

lemma load_u64_valid: "load_u64 m a = Some v \<Longrightarrow> valid m a 8"
  by (simp add: load_u64_def split: if_splits)

lemma load_u32_valid: "load_u32 m a = Some v \<Longrightarrow> valid m a 4"
  by (simp add: load_u32_def split: if_splits)

lemma valid_load_u64: "valid m a 8 \<Longrightarrow> \<exists>v. load_u64 m a = Some v"
  by (simp add: load_u64_def)

lemma valid_load_u32: "valid m a 4 \<Longrightarrow> \<exists>v. load_u32 m a = Some v"
  by (simp add: load_u32_def)

end
