(* ===== verification/BlockSpec.thy ===== *)
theory BlockSpec
  imports ByteMemory "HOL-Library.Multiset"
begin

text \<open>
  The abstract view of the heap of \<^verbatim>\<open>sharedMalloc\<close>: a block is the address of its header and the
  size of its payload, the free list is a list of blocks in link order. This theory says which
  bytes a block occupies, when a list of blocks tiles a region, which block each placement
  strategy chooses, and what allocating and freeing do to the list. The pointer programs of
  \<open>FreeList\<close> and \<open>HeapAllocator\<close> are proved to compute these functions.
\<close>

datatype block = Block (baddr: addr) (bsize: size_t)

text \<open>\<^verbatim>\<open>sizeof(Node)\<close>: two 8-byte fields and two 4-byte fields.\<close>

abbreviation SIZEOF_NODE :: "64 word" where "SIZEOF_NODE \<equiv> 24"

section \<open>Extents and tilings\<close>

definition extent :: "block \<Rightarrow> nat set" where
  "extent b = {unat (baddr b) ..< unat (baddr b) + 24 + unat (bsize b)}"

definition block_ok :: "block \<Rightarrow> bool" where
  "block_ok b \<longleftrightarrow> 0 < unat (baddr b) \<and> unat (baddr b) + 24 + unat (bsize b) \<le> 2 ^ 64"

text \<open>\<open>tile A bs\<close>: the blocks are pairwise disjoint and together are exactly \<open>A\<close>.\<close>

definition tile :: "nat set \<Rightarrow> block list \<Rightarrow> bool" where
  "tile A bs \<longleftrightarrow> (\<forall>b \<in> set bs. block_ok b) \<and> distinct bs
     \<and> pairwise (\<lambda>a b. disjnt (extent a) (extent b)) (set bs)
     \<and> \<Union> (extent ` set bs) = A"

lemma extent_nonempty [simp]: "extent b \<noteq> {}"
  by (simp add: extent_def)

lemma fst_in_extent [simp]: "unat (baddr b) \<in> extent b"
  by (simp add: extent_def)

lemma rng_header_extent: "rng (baddr b) 24 \<subseteq> extent b"
  by (auto simp: rng_def extent_def)

lemma tile_mset: "mset xs = mset ys \<Longrightarrow> tile A xs = tile A ys"
  using mset_eq_setD[of xs ys] mset_eq_imp_distinct_iff[of xs ys] by (simp add: tile_def)

lemma tile_Nil [simp]: "tile A [] \<longleftrightarrow> A = {}"
  by (auto simp: tile_def)

lemma tile_Cons:
  "tile A (b # bs) \<longleftrightarrow> block_ok b \<and> extent b \<subseteq> A \<and> tile (A - extent b) bs"
proof
  assume t: "tile A (b # bs)"
  then have "disjnt (extent b) (extent c)" if "c \<in> set bs" for c
    using that t by (cases "c = b") (auto simp: tile_def pairwise_insert)
  with t show "block_ok b \<and> extent b \<subseteq> A \<and> tile (A - extent b) bs"
    by (auto simp: tile_def pairwise_insert disjnt_iff)
next
  assume t: "block_ok b \<and> extent b \<subseteq> A \<and> tile (A - extent b) bs"
  then have "\<forall>c \<in> set bs. disjnt (extent b) (extent c)"
    by (auto simp: tile_def disjnt_iff)
  moreover have "b \<notin> set bs"
  proof
    assume "b \<in> set bs"
    with t have "extent b \<subseteq> A - extent b" by (auto simp: tile_def)
    then show False using extent_nonempty[of b] by blast
  qed
  ultimately show "tile A (b # bs)"
    using t by (auto simp: tile_def pairwise_insert disjnt_sym)
qed

lemma tile_block_ok: "tile A bs \<Longrightarrow> b \<in> set bs \<Longrightarrow> block_ok b"
  by (simp add: tile_def)

lemma tile_sub: "tile A bs \<Longrightarrow> b \<in> set bs \<Longrightarrow> extent b \<subseteq> A"
  by (auto simp: tile_def)

lemma tile_disjoint:
  "tile A bs \<Longrightarrow> b \<in> set bs \<Longrightarrow> c \<in> set bs \<Longrightarrow> b \<noteq> c \<Longrightarrow> extent b \<inter> extent c = {}"
  by (auto simp: tile_def pairwise_def disjnt_def)

lemma tile_fst_inj:
  assumes "tile A bs" "b \<in> set bs" "c \<in> set bs" "baddr b = baddr c"
  shows "b = c"
proof (rule ccontr)
  assume "b \<noteq> c"
  then have "extent b \<inter> extent c = {}" using tile_disjoint assms(1-3) by blast
  moreover have "unat (baddr b) \<in> extent b \<inter> extent c"
    using assms(4) by (simp add: extent_def)
  ultimately show False by blast
qed

lemma tile_distinct_fst: "tile A bs \<Longrightarrow> distinct (map baddr bs)"
  using tile_fst_inj by (auto simp: distinct_map tile_def inj_on_def)

text \<open>Splitting a block in two, and joining two adjacent ones.\<close>

lemma extent_split:
  assumes "block_ok (Block p s)" "n \<le> s" "n + SIZEOF_NODE < s"
  shows "extent (Block p s) = extent (Block p n) \<union> extent (Block (p + SIZEOF_NODE + n) (s - n - SIZEOF_NODE))"
    and "extent (Block p n) \<inter> extent (Block (p + SIZEOF_NODE + n) (s - n - SIZEOF_NODE)) = {}"
    and "block_ok (Block p n)" and "block_ok (Block (p + SIZEOF_NODE + n) (s - n - SIZEOF_NODE))"
    and "unat (p + SIZEOF_NODE + n) = unat p + 24 + unat n"
    and "unat (s - n - SIZEOF_NODE) + unat n + 24 = unat s"
proof -
  have b: "0 < unat p" "unat p + 24 + unat s \<le> 2 ^ 64"
    using assms(1) by (auto simp: block_ok_def)
  have le: "unat n \<le> unat s" using assms(2) by (simp add: word_le_nat_alt)
  have n24: "unat (n + SIZEOF_NODE) = unat n + 24"
    using b le by (subst unat_add_no_wrap) auto
  then have lt: "unat n + 24 < unat s"
    using assms(3) by (simp add: word_less_nat_alt)
  have p24: "unat (p + SIZEOF_NODE) = unat p + 24"
    using b lt by (subst unat_add_no_wrap) auto
  show pn: "unat (p + SIZEOF_NODE + n) = unat p + 24 + unat n"
    using b lt p24 by (subst unat_add_no_wrap) auto
  have "unat (s - n) = unat s - unat n"
    using le by (rule unat_sub_no_wrap)
  then show sn: "unat (s - n - SIZEOF_NODE) + unat n + 24 = unat s"
    using lt by (subst unat_sub_no_wrap) auto
  show "extent (Block p s) = extent (Block p n) \<union> extent (Block (p + SIZEOF_NODE + n) (s - n - SIZEOF_NODE))"
    "extent (Block p n) \<inter> extent (Block (p + SIZEOF_NODE + n) (s - n - SIZEOF_NODE)) = {}"
    "block_ok (Block p n)" "block_ok (Block (p + SIZEOF_NODE + n) (s - n - SIZEOF_NODE))"
    using b lt pn sn by (auto simp: extent_def block_ok_def)
qed

definition adjacent :: "block \<Rightarrow> block \<Rightarrow> bool" where
  "adjacent a b \<longleftrightarrow> baddr a + bsize a + SIZEOF_NODE = baddr b"

definition merge :: "block \<Rightarrow> block \<Rightarrow> block" where
  "merge a b = Block (baddr a) (bsize a + (bsize b + SIZEOF_NODE))"

lemma merge_fst [simp]: "baddr (merge a b) = baddr a"
  by (simp add: merge_def)

lemma adjacent_unat:
  assumes "block_ok a" "block_ok b" "adjacent a b"
  shows "unat (baddr b) = unat (baddr a) + unat (bsize a) + 24"
proof -
  have a: "unat (baddr a) + 24 + unat (bsize a) \<le> 2 ^ 64" "0 < unat (baddr a)"
    using assms(1) by (auto simp: block_ok_def)
  have s: "unat (baddr a + bsize a) = unat (baddr a) + unat (bsize a)"
    using a by (intro unat_add_no_wrap) simp
  have "unat (baddr a) + unat (bsize a) + 24 < 2 ^ 64"
  proof (rule ccontr)
    assume "\<not> ?thesis"
    then have "unat (baddr a + bsize a) + 24 = 2 ^ 64" using a s by simp
    then have "baddr a + bsize a + SIZEOF_NODE = 0"
      by (simp add: word_unat_eq_iff unat_word_ariths)
    then show False using assms(2,3) by (simp add: adjacent_def block_ok_def)
  qed
  then have "unat (baddr a + bsize a + SIZEOF_NODE) = unat (baddr a) + unat (bsize a) + 24"
    using s by (subst unat_add_no_wrap) auto
  then show ?thesis using assms(3) by (simp add: adjacent_def)
qed

lemma merge_extent:
  assumes "block_ok a" "block_ok b" "adjacent a b"
  shows "extent (merge a b) = extent a \<union> extent b"
    and "block_ok (merge a b)"
    and "unat (bsize (merge a b)) = unat (bsize a) + unat (bsize b) + 24"
proof -
  note u = adjacent_unat[OF assms]
  have b: "unat (baddr b) + 24 + unat (bsize b) \<le> 2 ^ 64" "0 < unat (baddr a)"
    using assms(1,2) by (auto simp: block_ok_def)
  have "unat (bsize b + SIZEOF_NODE) = unat (bsize b) + 24"
    using b u by (subst unat_add_no_wrap) auto
  then show s: "unat (bsize (merge a b)) = unat (bsize a) + unat (bsize b) + 24"
    unfolding merge_def using b u by simp (subst unat_add_no_wrap, auto)
  show "extent (merge a b) = extent a \<union> extent b" "block_ok (merge a b)"
    using u s b assms(1) by (auto simp: extent_def block_ok_def)
qed

lemma adjacent_merge:
  assumes "adjacent a b"
  shows "adjacent (merge a b) c \<longleftrightarrow> adjacent b c"
proof -
  have "baddr b = baddr a + bsize a + SIZEOF_NODE" using assms by (simp add: adjacent_def)
  then show ?thesis by (simp add: adjacent_def merge_def ac_simps)
qed


section \<open>The choice of a block\<close>

text \<open>The strategies of \<^verbatim>\<open>freeList.h\<close>, in the order of the C enumeration.\<close>

datatype Strategy = BEST_FIT | WORST_FIT | FIRST_FIT | NEXT_FIT

fun smallest :: "block list \<Rightarrow> block option" where
  "smallest [] = None"
| "smallest (b # bs) =
     (case smallest bs of None \<Rightarrow> Some b | Some c \<Rightarrow> if bsize c < bsize b then Some c else Some b)"

fun largest :: "block list \<Rightarrow> block option" where
  "largest [] = None"
| "largest (b # bs) =
     (case largest bs of None \<Rightarrow> Some b | Some c \<Rightarrow> if bsize b < bsize c then Some c else Some b)"

text \<open>The list read from the block at address \<open>nf\<close> on, wrapping around to its start.\<close>

definition rotate_to :: "addr \<Rightarrow> block list \<Rightarrow> block list" where
  "rotate_to nf xs = dropWhile (\<lambda>c. baddr c \<noteq> nf) xs @ takeWhile (\<lambda>c. baddr c \<noteq> nf) xs"

fun select :: "Strategy \<Rightarrow> size_t \<Rightarrow> addr \<Rightarrow> block list \<Rightarrow> block option" where
  "select BEST_FIT n nf xs = smallest (filter (\<lambda>c. n \<le> bsize c) xs)"
| "select WORST_FIT n nf xs = largest (filter (\<lambda>c. n \<le> bsize c) xs)"
| "select FIRST_FIT n nf xs = find (\<lambda>c. n \<le> bsize c) xs"
| "select NEXT_FIT n nf xs = find (\<lambda>c. n \<le> bsize c) (rotate_to nf xs)"

lemma set_rotate_to [simp]: "set (rotate_to nf xs) = set xs"
proof -
  have "set (rotate_to nf xs) = set (takeWhile (\<lambda>c. baddr c \<noteq> nf) xs @ dropWhile (\<lambda>c. baddr c \<noteq> nf) xs)"
    unfolding rotate_to_def by (simp add: Un_commute del: takeWhile_dropWhile_id)
  then show ?thesis by simp
qed

lemma smallest_None [simp]: "smallest xs = None \<longleftrightarrow> xs = []"
  by (cases xs) (auto split: option.splits)

lemma largest_None [simp]: "largest xs = None \<longleftrightarrow> xs = []"
  by (cases xs) (auto split: option.splits)

lemma smallest_Some:
  "smallest xs = Some b \<Longrightarrow> b \<in> set xs \<and> (\<forall>c \<in> set xs. bsize b \<le> bsize c)"
  by (induction xs arbitrary: b) (fastforce split: option.splits if_splits)+

lemma largest_Some:
  "largest xs = Some b \<Longrightarrow> b \<in> set xs \<and> (\<forall>c \<in> set xs. bsize c \<le> bsize b)"
  by (induction xs arbitrary: b) (fastforce split: option.splits if_splits)+

lemma find_SomeD: "find P xs = Some b \<Longrightarrow> b \<in> set xs \<and> P b"
  by (auto simp: find_Some_iff)

lemma select_Some: "select st n nf xs = Some b \<Longrightarrow> b \<in> set xs \<and> n \<le> bsize b"
  by (cases st) (auto dest!: smallest_Some largest_Some find_SomeD)

lemma select_None: "select st n nf xs = None \<longleftrightarrow> (\<forall>b \<in> set xs. bsize b < n)"
  by (cases st) (auto simp: filter_empty_conv find_None_iff not_le)

section \<open>Taking a block out of the list\<close>

text \<open>What is left of a block \<open>b\<close> when \<open>n\<close> bytes of it are allocated.\<close>

definition residue :: "block \<Rightarrow> size_t \<Rightarrow> block list" where
  "residue b n =
     (if n + SIZEOF_NODE < bsize b
      then [Block (baddr b + SIZEOF_NODE + n) (bsize b - n - SIZEOF_NODE)] else [])"

definition granted :: "block \<Rightarrow> size_t \<Rightarrow> block" where
  "granted b n = Block (baddr b) (if n + SIZEOF_NODE < bsize b then n else bsize b)"

fun take_out :: "block \<Rightarrow> size_t \<Rightarrow> block list \<Rightarrow> block list" where
  "take_out b n [] = []"
| "take_out b n (c # cs) = (if baddr c = baddr b then residue b n @ cs else c # take_out b n cs)"

text \<open>The roving pointer after an allocation: the residue, or the successor, or the new head.\<close>

definition head_addr :: "block list \<Rightarrow> addr" where
  "head_addr xs = (case xs of [] \<Rightarrow> 0 | b # _ \<Rightarrow> baddr b)"

fun next_after :: "block \<Rightarrow> size_t \<Rightarrow> block list \<Rightarrow> addr" where
  "next_after b n [] = 0"
| "next_after b n (c # cs) =
     (if baddr c = baddr b then head_addr (residue b n @ cs) else next_after b n cs)"

definition rover :: "block \<Rightarrow> size_t \<Rightarrow> block list \<Rightarrow> addr" where
  "rover b n xs =
     (let a = next_after b n xs in if a = 0 then head_addr (take_out b n xs) else a)"

text \<open>The predecessor's address in the list, \<open>0\<close> (\<^verbatim>\<open>NULL\<close>) for the head and for absent addresses.\<close>

fun prev_addr :: "addr \<Rightarrow> addr \<Rightarrow> block list \<Rightarrow> addr" where
  "prev_addr prev a [] = 0"
| "prev_addr prev a (b # bs) = (if baddr b = a then prev else prev_addr (baddr b) a bs)"

lemma granted_fst [simp]: "baddr (granted b n) = baddr b"
  by (simp add: granted_def)

lemma take_out_append:
  "baddr b \<notin> baddr ` set as \<Longrightarrow> take_out b n (as @ b # cs) = as @ residue b n @ cs"
  by (induction as) auto

lemma next_after_append:
  "baddr b \<notin> baddr ` set as \<Longrightarrow> next_after b n (as @ b # cs) = head_addr (residue b n @ cs)"
  by (induction as) auto

definition last_addr :: "addr \<Rightarrow> block list \<Rightarrow> addr" where
  "last_addr d as = (if as = [] then d else baddr (last as))"

lemma prev_addr_append:
  "baddr b \<notin> baddr ` set as \<Longrightarrow> prev_addr d (baddr b) (as @ b # cs) = last_addr d as"
  by (induction as arbitrary: d) (auto simp: last_addr_def)

lemma granted_residue:
  assumes "block_ok b" "n \<le> bsize b"
  shows "tile (extent b) (granted b n # residue b n)"
    and "n \<le> bsize (granted b n)"
proof -
  have "tile (extent b) (granted b n # residue b n) \<and> n \<le> bsize (granted b n)"
  proof (cases "n + SIZEOF_NODE < bsize b")
    case True
    note e = extent_split[of "baddr b" "bsize b" n, simplified, OF assms True]
    have "\<forall>x \<in> extent (Block (baddr b + SIZEOF_NODE + n) (bsize b - n - SIZEOF_NODE)). x \<notin> extent (Block (baddr b) n)"
      using e(2) by blast
    then show ?thesis
      using True by (auto simp: granted_def residue_def tile_Cons e(1,3,4))
  next
    case False
    then show ?thesis using assms by (simp add: granted_def residue_def tile_Cons)
  qed
  then show "tile (extent b) (granted b n # residue b n)" "n \<le> bsize (granted b n)" by auto
qed

lemma tile_replace:
  assumes "tile A (b # bs)" "tile (extent b) cs"
  shows "tile A (cs @ bs)"
proof -
  have *: "b \<in> set (b # bs)" by simp
  have "disjnt (extent c) (extent d)" if "c \<in> set cs" "d \<in> set bs" for c d
  proof -
    have "b \<noteq> d" using assms(1) that(2) by (auto simp: tile_def)
    then have "extent b \<inter> extent d = {}"
      using tile_disjoint[OF assms(1) *] that(2) by auto
    moreover have "extent c \<subseteq> extent b" using tile_sub[OF assms(2) that(1)] .
    ultimately show ?thesis by (auto simp: disjnt_def)
  qed
  note cross = this
  have "set cs \<inter> set bs = {}"
    using cross extent_nonempty by (force simp: disjnt_def)
  then have d: "distinct (cs @ bs)"
    using assms by (simp add: tile_def)
  have "pairwise (\<lambda>a b. disjnt (extent a) (extent b)) (set cs \<union> set bs)"
  proof (rule pairwiseI)
    fix x y assume "x \<in> set cs \<union> set bs" "y \<in> set cs \<union> set bs" "x \<noteq> y"
    then consider "x \<in> set cs" "y \<in> set cs" | "x \<in> set bs" "y \<in> set bs"
      | "x \<in> set cs" "y \<in> set bs" | "y \<in> set cs" "x \<in> set bs" by blast
    then show "disjnt (extent x) (extent y)"
    proof cases
      case 1 then show ?thesis using assms(2) \<open>x \<noteq> y\<close> by (simp add: tile_def pairwise_def)
    next
      case 2 then show ?thesis using assms(1) \<open>x \<noteq> y\<close> by (simp add: tile_def pairwise_def)
    next
      case 3 then show ?thesis by (rule cross)
    next
      case 4 then show ?thesis by (rule disjnt_sym[OF cross])
    qed
  qed
  moreover have "\<Union> (extent ` set (cs @ bs)) = A"
    using assms by (simp add: tile_def image_Un)
  ultimately show ?thesis
    using d assms by (simp add: tile_def ball_Un)
qed


section \<open>Giving a block back\<close>

text \<open>
  The walk of \<^verbatim>\<open>MyFree\<close>: it stops at the first block above the freed address, and in any case
  at the last block of the list, which it never passes. The result is the list before and
  from the stopping point.
\<close>

fun scan :: "addr \<Rightarrow> block list \<Rightarrow> block list \<times> block list" where
  "scan p [] = ([], [])"
| "scan p [c] = ([], [c])"
| "scan p (c # d # cs) =
     (if p < baddr c then ([], c # d # cs)
      else (c # fst (scan p (d # cs)), snd (scan p (d # cs))))"

text \<open>Inserting \<open>b\<close> between \<open>as\<close> and \<open>c # cs\<close>, merged with the neighbours it touches.\<close>

definition join :: "block list \<Rightarrow> block \<Rightarrow> block \<Rightarrow> block list \<Rightarrow> block list" where
  "join as b c cs =
     (let r = (if adjacent b c then merge b c # cs else b # c # cs)
      in if as \<noteq> [] \<and> adjacent (last as) b
         then butlast as @ merge (last as) (hd r) # tl r else as @ r)"

text \<open>
  The free list and roving pointer after a free. \<open>None\<close>: no neighbour touches the block and
  the roving pointer is at the block after it, where the code follows a null pointer.
\<close>

definition insert_free :: "block \<Rightarrow> addr \<Rightarrow> block list \<Rightarrow> (block list \<times> addr) option" where
  "insert_free b nf xs =
     (case scan (baddr b) xs of
        (as, []) \<Rightarrow> Some ([b], nf)
      | (as, c # cs) \<Rightarrow>
          if as \<noteq> [] \<and> \<not> adjacent b c \<and> \<not> adjacent (last as) b \<and> nf = baddr c then None
          else Some (join as b c cs,
                     if nf = baddr c \<and> adjacent b c
                     then if as = [] then baddr b else baddr (last as)
                     else nf))"

lemma scan_append: "fst (scan p xs) @ snd (scan p xs) = xs"
  by (induction p xs rule: scan.induct) auto

lemma scan_split: "scan p xs = (as, bs) \<Longrightarrow> xs = as @ bs"
  using scan_append[of p xs] by simp

lemma scan_nonempty: "xs \<noteq> [] \<Longrightarrow> snd (scan p xs) \<noteq> []"
  by (induction p xs rule: scan.induct) auto

lemma tile_merge:
  assumes "tile A (as @ x # y # cs)" "adjacent x y"
  shows "tile A (as @ merge x y # cs)"
proof -
  have ok: "block_ok x" "block_ok y" using assms(1) by (auto simp: tile_def)
  note m = merge_extent[OF ok assms(2)]
  have "tile A (x # y # as @ cs)" by (rule iffD1[OF tile_mset assms(1), rotated]) simp
  then have "tile A (merge x y # as @ cs)"
    using m(1,2) by (auto simp: tile_Cons Diff_eq Int_assoc)
  then show ?thesis by (rule iffD1[OF tile_mset, rotated]) simp
qed

lemma join_tile:
  assumes "tile A (as @ b # c # cs)"
  shows "tile A (join as b c cs)"
proof -
  define r where "r = (if adjacent b c then merge b c # cs else b # c # cs)"
  have t: "tile A (as @ r)" using assms tile_merge[of A as b c cs] by (simp add: r_def)
  obtain b' r' where r': "r = b' # r'" "baddr b' = baddr b"
    by (cases "adjacent b c") (auto simp: r_def)
  show ?thesis
  proof (cases "as \<noteq> [] \<and> adjacent (last as) b")
    case True
    then have "as @ r = butlast as @ last as # b' # r'" using r' by simp
    with t have "tile A (butlast as @ last as # b' # r')" by metis
    moreover have "adjacent (last as) b'" using True r'(2) by (simp add: adjacent_def)
    ultimately show ?thesis
      using True tile_merge[of A "butlast as" "last as" b' r'] r'(1)
      by (simp add: join_def r_def[symmetric])
  next
    case False
    then show ?thesis using t by (auto simp: join_def r_def[symmetric])
  qed
qed

lemma insert_free_tile:
  assumes "tile A (b # xs)" "insert_free b nf xs = Some (ys, nf')"
  shows "tile A ys"
proof (cases "snd (scan (baddr b) xs)")
  case Nil
  then have "xs = []" using scan_nonempty by blast
  with assms show ?thesis by (simp add: insert_free_def)
next
  case (Cons c cs)
  then have sc: "scan (baddr b) xs = (fst (scan (baddr b) xs), c # cs)" by (metis prod.collapse)
  then have xs: "xs = fst (scan (baddr b) xs) @ c # cs" by (rule scan_split)
  have "mset (b # xs) = mset (fst (scan (baddr b) xs) @ b # c # cs)" by (subst xs) simp
  then have "tile A (join (fst (scan (baddr b) xs)) b c cs)"
    using assms(1) tile_mset join_tile by blast
  moreover have "ys = join (fst (scan (baddr b) xs)) b c cs"
    using assms(2) unfolding insert_free_def by (subst (asm) sc) (auto split: if_splits)
  ultimately show ?thesis by simp
qed

end
