(* ===== verification/FreeList.thy ===== *)
theory FreeList
  imports BlockSpec
begin

text \<open>
  \<^verbatim>\<open>sharedMalloc/src/freeList.c\<close>: the linked free list in memory, the four placement
  strategies, \<^verbatim>\<open>split\<close>, \<^verbatim>\<open>findPrevNode\<close> and \<^verbatim>\<open>coalesceFreeList\<close>, statement by statement on the
  byte memory. A function that follows a pointer outside the mapped memory, or that does not
  return (a cyclic list), gives \<open>None\<close>. \<^verbatim>\<open>NULL\<close> is the address \<open>0\<close>; no region reaches its page.
\<close>

section \<open>Struct layout\<close>

text \<open>
  \<^verbatim>\<open>struct Node\<close>: \<^verbatim>\<open>size_t size\<close> at offset 0, \<^verbatim>\<open>Node* next\<close> at 8, \<^verbatim>\<open>int magicNumber\<close> at 16,
  \<^verbatim>\<open>int isFreed\<close> at 20; 24 bytes in all. \<^verbatim>\<open>struct FreeList\<close>: \<^verbatim>\<open>head\<close> at 0, \<^verbatim>\<open>nextFreeBlock\<close> at 8.
\<close>

record Node =
  size_field :: size_t
  next_field :: addr
  magicNumber :: u32
  isFreed :: u32

definition MAGIC_NUMBER :: u32 where
  "MAGIC_NUMBER = 0x12345678"

definition ld_size :: "memory \<Rightarrow> addr \<Rightarrow> size_t option" where
  "ld_size m p = load_u64 m p"

definition ld_next :: "memory \<Rightarrow> addr \<Rightarrow> addr option" where
  "ld_next m p = load_u64 m (p + 8)"

definition ld_magic :: "memory \<Rightarrow> addr \<Rightarrow> u32 option" where
  "ld_magic m p = load_u32 m (p + 16)"

definition ld_isFreed :: "memory \<Rightarrow> addr \<Rightarrow> u32 option" where
  "ld_isFreed m p = load_u32 m (p + 20)"

definition st_size :: "memory \<Rightarrow> addr \<Rightarrow> size_t \<Rightarrow> memory option" where
  "st_size m p v = store_u64 m p v"

definition st_next :: "memory \<Rightarrow> addr \<Rightarrow> addr \<Rightarrow> memory option" where
  "st_next m p v = store_u64 m (p + 8) v"

definition st_magic :: "memory \<Rightarrow> addr \<Rightarrow> u32 \<Rightarrow> memory option" where
  "st_magic m p v = store_u32 m (p + 16) v"

definition st_isFreed :: "memory \<Rightarrow> addr \<Rightarrow> u32 \<Rightarrow> memory option" where
  "st_isFreed m p v = store_u32 m (p + 20) v"

definition ld_Node :: "memory \<Rightarrow> addr \<Rightarrow> Node option" where
  "ld_Node m p = do {
     s \<leftarrow> ld_size m p; n \<leftarrow> ld_next m p; g \<leftarrow> ld_magic m p; f \<leftarrow> ld_isFreed m p;
     Some \<lparr>size_field = s, next_field = n, magicNumber = g, isFreed = f\<rparr> }"

definition ld_head :: "memory \<Rightarrow> addr \<Rightarrow> addr option" where
  "ld_head m fl = load_u64 m fl"

definition ld_nextFree :: "memory \<Rightarrow> addr \<Rightarrow> addr option" where
  "ld_nextFree m fl = load_u64 m (fl + 8)"

definition st_head :: "memory \<Rightarrow> addr \<Rightarrow> addr \<Rightarrow> memory option" where
  "st_head m fl v = store_u64 m fl v"

definition st_nextFree :: "memory \<Rightarrow> addr \<Rightarrow> addr \<Rightarrow> memory option" where
  "st_nextFree m fl v = store_u64 m (fl + 8) v"

section \<open>split\<close>

text \<open>Both branches of \<^verbatim>\<open>split\<close> give the new memory and the value of \<^verbatim>\<open>newFreeNode\<close>.\<close>

definition split_node :: "memory \<Rightarrow> addr \<Rightarrow> addr \<Rightarrow> size_t \<Rightarrow> addr \<Rightarrow> memory option" where
  "split_node m node prev siz fl = do {
     sz \<leftarrow> ld_size m node;
     (m, newFreeNode) \<leftarrow>
       (if sz > siz + SIZEOF_NODE then do {
          let newFreeNode = node + SIZEOF_NODE + siz;
          sz \<leftarrow> ld_size m node;
          m \<leftarrow> st_size m newFreeNode (sz - siz - SIZEOF_NODE);
          nx \<leftarrow> ld_next m node;
          m \<leftarrow> st_next m newFreeNode nx;
          m \<leftarrow> st_size m node siz;
          m \<leftarrow> (if prev \<noteq> 0 then st_next m prev newFreeNode else st_head m fl newFreeNode);
          Some (m, newFreeNode)
        } else do {
          nx \<leftarrow> ld_next m node;
          m \<leftarrow> (if prev \<noteq> 0 then st_next m prev nx else st_head m fl nx);
          newFreeNode \<leftarrow> ld_next m node;
          Some (m, newFreeNode)
        });
     if newFreeNode = 0 then do {
       h \<leftarrow> ld_head m fl;
       st_nextFree m fl h
     } else st_nextFree m fl newFreeNode
   }"

text \<open>
  The four strategies end alike: split the chosen node, mark it, return the address after its
  header.
\<close>

definition take_block :: "memory \<Rightarrow> addr \<Rightarrow> addr \<Rightarrow> size_t \<Rightarrow> addr \<Rightarrow> (addr \<times> memory) option" where
  "take_block m node prev siz fl = do {
     m \<leftarrow> split_node m node prev siz fl;
     m \<leftarrow> st_magic m node MAGIC_NUMBER;
     m \<leftarrow> st_isFreed m node 0;
     Some (node + SIZEOF_NODE, m)
   }"

section \<open>The placement strategies\<close>

partial_function (option) bestFit_loop ::
  "memory \<Rightarrow> size_t \<Rightarrow> addr \<Rightarrow> addr \<Rightarrow> addr \<Rightarrow> addr \<Rightarrow> (addr \<times> addr) option" where
  "bestFit_loop m siz current prev best bestPrev =
     (if current = 0 then Some (best, bestPrev)
      else do {
        csz \<leftarrow> ld_size m current;
        better \<leftarrow> (if csz \<ge> siz
                    then if best = 0 then Some True
                         else do { bsz \<leftarrow> ld_size m best; Some (csz < bsz) }
                    else Some False);
        nx \<leftarrow> ld_next m current;
        if nx = 0
        then Some (if better then current else best, if better then prev else bestPrev)
        else bestFit_loop m siz nx current
               (if better then current else best) (if better then prev else bestPrev)
      })"

declare bestFit_loop.simps [code]

definition bestFit :: "memory \<Rightarrow> addr \<Rightarrow> size_t \<Rightarrow> (addr \<times> memory) option" where
  "bestFit m fl siz = do {
     h \<leftarrow> ld_head m fl;
     (best, bestPrev) \<leftarrow> bestFit_loop m siz h 0 0 0;
     if best \<noteq> 0 then take_block m best bestPrev siz fl else Some (0, m)
   }"

partial_function (option) worstFit_loop ::
  "memory \<Rightarrow> size_t \<Rightarrow> addr \<Rightarrow> addr \<Rightarrow> addr \<Rightarrow> addr \<Rightarrow> (addr \<times> addr) option" where
  "worstFit_loop m siz current prev worst worstPrev =
     (if current = 0 then Some (worst, worstPrev)
      else do {
        csz \<leftarrow> ld_size m current;
        better \<leftarrow> (if csz \<ge> siz
                    then if worst = 0 then Some True
                         else do { wsz \<leftarrow> ld_size m worst; Some (csz > wsz) }
                    else Some False);
        nx \<leftarrow> ld_next m current;
        if nx = 0
        then Some (if better then current else worst, if better then prev else worstPrev)
        else worstFit_loop m siz nx current
               (if better then current else worst) (if better then prev else worstPrev)
      })"

declare worstFit_loop.simps [code]

definition worstFit :: "memory \<Rightarrow> addr \<Rightarrow> size_t \<Rightarrow> (addr \<times> memory) option" where
  "worstFit m fl siz = do {
     h \<leftarrow> ld_head m fl;
     (worst, worstPrev) \<leftarrow> worstFit_loop m siz h 0 0 0;
     if worst \<noteq> 0 then take_block m worst worstPrev siz fl else Some (0, m)
   }"

partial_function (option) firstFit_loop ::
  "memory \<Rightarrow> addr \<Rightarrow> size_t \<Rightarrow> addr \<Rightarrow> addr \<Rightarrow> (addr \<times> memory) option" where
  "firstFit_loop m fl siz current prev =
     (if current = 0 then Some (0, m)
      else do {
        csz \<leftarrow> ld_size m current;
        if csz \<ge> siz then take_block m current prev siz fl
        else do {
          nx \<leftarrow> ld_next m current;
          if nx = 0 then Some (0, m) else firstFit_loop m fl siz nx current
        }
      })"

declare firstFit_loop.simps [code]

definition firstFit :: "memory \<Rightarrow> addr \<Rightarrow> size_t \<Rightarrow> (addr \<times> memory) option" where
  "firstFit m fl siz = do {
     h \<leftarrow> ld_head m fl;
     firstFit_loop m fl siz h 0
   }"

partial_function (option) findPrevNode_loop :: "memory \<Rightarrow> addr \<Rightarrow> addr \<Rightarrow> addr \<Rightarrow> addr option" where
  "findPrevNode_loop m node current prev =
     (if current = 0 then Some 0
      else if current = node then Some prev
      else do {
        nx \<leftarrow> ld_next m current;
        if nx = 0 then Some 0 else findPrevNode_loop m node nx current
      })"

declare findPrevNode_loop.simps [code]

definition findPrevNode :: "memory \<Rightarrow> addr \<Rightarrow> addr \<Rightarrow> addr option" where
  "findPrevNode m node head = findPrevNode_loop m node head 0"

text \<open>
  \<^verbatim>\<open>nextFit\<close>: the first loop runs from the roving pointer to the end of the list. It gives
  \<open>Inl\<close> of the allocation when a block was taken and \<open>Inr ()\<close> when the loop ended without one;
  the second loop then runs from the head until it meets the roving pointer.
\<close>

partial_function (option) nextFit_loop1 ::
  "memory \<Rightarrow> addr \<Rightarrow> size_t \<Rightarrow> addr \<Rightarrow> addr \<Rightarrow> (addr \<times> memory + unit) option" where
  "nextFit_loop1 m fl siz current prev =
     (if current = 0 then Some (Inr ())
      else do {
        csz \<leftarrow> ld_size m current;
        if csz \<ge> siz then do { r \<leftarrow> take_block m current prev siz fl; Some (Inl r) }
        else do {
          nx \<leftarrow> ld_next m current;
          if nx = 0 then Some (Inr ()) else nextFit_loop1 m fl siz nx current
        }
      })"

declare nextFit_loop1.simps [code]

partial_function (option) nextFit_loop2 ::
  "memory \<Rightarrow> addr \<Rightarrow> size_t \<Rightarrow> addr \<Rightarrow> addr \<Rightarrow> (addr \<times> memory) option" where
  "nextFit_loop2 m fl siz current prev = do {
     nf \<leftarrow> ld_nextFree m fl;
     if current = nf then Some (0, m)
     else do {
       csz \<leftarrow> ld_size m current;
       if csz \<ge> siz then take_block m current prev siz fl
       else do {
         nx \<leftarrow> ld_next m current;
         if nx = 0 then Some (0, m) else nextFit_loop2 m fl siz nx current
       }
     }
   }"

declare nextFit_loop2.simps [code]

definition nextFit :: "memory \<Rightarrow> addr \<Rightarrow> size_t \<Rightarrow> (addr \<times> memory) option" where
  "nextFit m fl siz = do {
     current \<leftarrow> ld_nextFree m fl;
     h \<leftarrow> ld_head m fl;
     prev \<leftarrow> findPrevNode m current h;
     r \<leftarrow> nextFit_loop1 m fl siz current prev;
     case r of
       Inl res \<Rightarrow> Some res
     | Inr _ \<Rightarrow> do {
         h \<leftarrow> ld_head m fl;
         nextFit_loop2 m fl siz h 0
       }
   }"

section \<open>coalesceFreeList\<close>

definition coalesceFreeList :: "memory \<Rightarrow> addr \<Rightarrow> addr \<Rightarrow> addr \<Rightarrow> (addr \<times> memory) option" where
  "coalesceFreeList m freed prev nxt =
     (if prev = 0 then do {
        fs \<leftarrow> ld_size m freed;
        m \<leftarrow> (if freed + fs + SIZEOF_NODE = nxt then do {
               ns \<leftarrow> ld_size m nxt;
               m \<leftarrow> st_size m freed (fs + (ns + SIZEOF_NODE));
               nn \<leftarrow> ld_next m nxt;
               st_next m freed nn
             } else Some m);
        Some (freed, m)
      } else if nxt = 0 then do {
        ps \<leftarrow> ld_size m prev;
        m \<leftarrow> (if prev + ps + SIZEOF_NODE = freed then do {
               fs \<leftarrow> ld_size m freed;
               m \<leftarrow> st_size m prev (ps + (fs + SIZEOF_NODE));
               fn \<leftarrow> ld_next m freed;
               st_next m prev fn
             } else Some m);
        Some (prev, m)
      } else do {
        fs \<leftarrow> ld_size m freed;
        ps \<leftarrow> ld_size m prev;
        if freed + fs + SIZEOF_NODE = nxt \<and> prev + ps + SIZEOF_NODE = freed then do {
          ns \<leftarrow> ld_size m nxt;
          m \<leftarrow> st_size m prev (ps + (fs + ns + 2 * SIZEOF_NODE));
          nn \<leftarrow> ld_next m nxt;
          m \<leftarrow> st_next m prev nn;
          Some (prev, m)
        } else if freed + fs + SIZEOF_NODE = nxt then do {
          ns \<leftarrow> ld_size m nxt;
          m \<leftarrow> st_size m freed (fs + (ns + SIZEOF_NODE));
          nn \<leftarrow> ld_next m nxt;
          m \<leftarrow> st_next m freed nn;
          Some (prev, m)
        } else if prev + ps + SIZEOF_NODE = freed then do {
          m \<leftarrow> st_size m prev (ps + (fs + SIZEOF_NODE));
          fn \<leftarrow> ld_next m freed;
          m \<leftarrow> st_next m prev fn;
          Some (freed, m)
        } else Some (0, m)
      })"


section \<open>Lists of nodes in memory\<close>

text \<open>
  \<open>seg m p xs q\<close>: following \<^verbatim>\<open>next\<close> from \<open>p\<close> visits the blocks \<open>xs\<close> in order and ends at \<open>q\<close>.
\<close>

fun seg :: "memory \<Rightarrow> addr \<Rightarrow> block list \<Rightarrow> addr \<Rightarrow> bool" where
  "seg m p [] q = (p = q)"
| "seg m p (b # bs) q =
     (p = baddr b \<and> p \<noteq> 0 \<and> ld_size m p = Some (bsize b)
      \<and> (case ld_next m p of None \<Rightarrow> False | Some nx \<Rightarrow> seg m nx bs q))"

text \<open>The list structure \<open>fl\<close> holds the free list \<open>xs\<close> with roving pointer \<open>nf\<close>.\<close>

definition free_list :: "memory \<Rightarrow> addr \<Rightarrow> block list \<Rightarrow> addr \<Rightarrow> bool" where
  "free_list m fl xs nf \<longleftrightarrow>
     (case ld_head m fl of None \<Rightarrow> False | Some h \<Rightarrow> seg m h xs 0)
     \<and> ld_nextFree m fl = Some nf \<and> distinct (map baddr xs) \<and> (nf = 0 \<or> nf \<in> baddr ` set xs)"

lemma seg_Cons:
  "seg m p (b # bs) q \<longleftrightarrow> p = baddr b \<and> p \<noteq> 0 \<and> ld_size m p = Some (bsize b)
     \<and> (\<exists>nx. ld_next m p = Some nx \<and> seg m nx bs q)"
  by (auto split: option.splits)

declare seg.simps(2) [simp del]

lemma seg_append: "seg m p (xs @ ys) q \<longleftrightarrow> (\<exists>r. seg m p xs r \<and> seg m r ys q)"
  by (induction xs arbitrary: p) (auto simp: seg_Cons)

lemma seg_head: "seg m p xs 0 \<Longrightarrow> p = head_addr xs"
  by (cases xs) (auto simp: head_addr_def seg_Cons)

lemma seg_0 [simp]: "seg m 0 xs q \<longleftrightarrow> xs = [] \<and> q = 0"
  by (cases xs) (auto simp: seg_Cons)

lemma seg_last_ne: "seg m p xs q \<Longrightarrow> xs \<noteq> [] \<Longrightarrow> last_addr d xs \<noteq> 0"
  by (induction xs arbitrary: p) (auto simp: seg_Cons last_addr_def)

lemma seg_nonzero: "seg m p xs q \<Longrightarrow> b \<in> set xs \<Longrightarrow> baddr b \<noteq> 0"
  by (induction xs arbitrary: p) (auto simp: seg_Cons)

lemma free_list_head:
  "free_list m fl xs nf \<longleftrightarrow> ld_head m fl = Some (head_addr xs) \<and> seg m (head_addr xs) xs 0
     \<and> ld_nextFree m fl = Some nf \<and> distinct (map baddr xs) \<and> (nf = 0 \<or> nf \<in> baddr ` set xs)"
  by (auto simp: free_list_def dest: seg_head split: option.splits)

section \<open>The loops compute the abstract choice\<close>

lemma bestFit_loop_0 [simp]: "bestFit_loop m n 0 prev b bp = Some (b, bp)"
  by (simp add: bestFit_loop.simps)

lemma worstFit_loop_0 [simp]: "worstFit_loop m n 0 prev b bp = Some (b, bp)"
  by (simp add: worstFit_loop.simps)

lemma firstFit_loop_0 [simp]: "firstFit_loop m fl n 0 prev = Some (0, m)"
  by (simp add: firstFit_loop.simps)

lemma nextFit_loop1_0 [simp]: "nextFit_loop1 m fl n 0 prev = Some (Inr ())"
  by (simp add: nextFit_loop1.simps)

lemma findPrevNode_loop_0 [simp]: "findPrevNode_loop m node 0 prev = Some 0"
  by (simp add: findPrevNode_loop.simps)

text \<open>A candidate of the best (worst) fit search: none yet, or a block of the list.\<close>

definition candidate :: "memory \<Rightarrow> block option \<Rightarrow> addr \<Rightarrow> bool" where
  "candidate m c a \<longleftrightarrow>
     (case c of None \<Rightarrow> a = 0 | Some b \<Rightarrow> a = baddr b \<and> a \<noteq> 0 \<and> ld_size m a = Some (bsize b))"

text \<open>
  The contract of the searches that walk the whole list and keep a candidate: \<open>less\<close> compares a size with the
  candidate's, and \<open>pick\<close> is the same search on a list of blocks.
\<close>

locale whole_search =
  fixes loop :: "memory \<Rightarrow> size_t \<Rightarrow> addr \<Rightarrow> addr \<Rightarrow> addr \<Rightarrow> addr \<Rightarrow> (addr \<times> addr) option"
    and less :: "size_t \<Rightarrow> size_t \<Rightarrow> bool" and pick :: "block list \<Rightarrow> block option"
  assumes loop_end: "loop m n 0 prev cand cprev = Some (cand, cprev)"
    and loop_step: "cur \<noteq> 0 \<Longrightarrow> ld_size m cur = Some sz \<Longrightarrow> ld_next m cur = Some nx \<Longrightarrow> candidate m c cand \<Longrightarrow>
      loop m n cur prev cand cprev =
        (if n \<le> sz \<and> (c = None \<or> less sz (bsize (the c))) then loop m n nx cur cur prev else loop m n nx cur cand cprev)"
    and pick_Nil: "pick [] = None"
    and pick_Cons: "pick (b # bs) =
      (case pick bs of None \<Rightarrow> Some b | Some d \<Rightarrow> if less (bsize d) (bsize b) then Some d else Some b)"
    and less_trans: "less x y \<Longrightarrow> less y z \<Longrightarrow> less x z" "\<not> less x y \<Longrightarrow> \<not> less y z \<Longrightarrow> \<not> less x z"
begin

lemma pick_in: "pick xs = Some b \<Longrightarrow> b \<in> set xs"
  by (induction xs arbitrary: b) (auto simp: pick_Nil pick_Cons split: option.splits if_splits)

lemma loop_picks:
  assumes "seg m cur ys 0" "distinct (map baddr ys)" "candidate m c cand"
  shows "loop m n cur prev cand cprev = Some
     (case pick (filter (\<lambda>x. n \<le> bsize x) ys) of
        None \<Rightarrow> (cand, cprev)
      | Some b \<Rightarrow>
          if c = None \<or> less (bsize b) (bsize (the c)) then (baddr b, prev_addr prev (baddr b) ys)
          else (cand, cprev))"
  using assms
proof (induction ys arbitrary: cur prev cand cprev c)
  case Nil
  then show ?case by (simp add: loop_end pick_Nil)
next
  case (Cons y ys)
  from Cons.prems(1) obtain nx where y: "cur = baddr y" "cur \<noteq> 0" "ld_size m cur = Some (bsize y)"
    "ld_next m cur = Some nx" "seg m nx ys 0"
    by (auto simp: seg_Cons)
  note step = loop_step[OF y(2,3,4) Cons.prems(3), of n prev cprev]
  have cand: "candidate m (Some y) cur" using y by (simp add: candidate_def)
  have notin: "baddr b \<noteq> baddr y" if "pick (filter (\<lambda>x. n \<le> bsize x) ys) = Some b" for b
    using pick_in[OF that] Cons.prems(2) by (auto simp: image_iff)
  note rec = Cons.IH[OF y(5) _ cand, of cur prev] Cons.IH[OF y(5) _ Cons.prems(3), of cur cprev]
  show ?case
  proof (cases "pick (filter (\<lambda>x. n \<le> bsize x) ys)")
    case None
    then show ?thesis unfolding step using rec Cons.prems(2) y(1) by (simp add: pick_Cons)
  next
    case (Some d)
    note tr = less_trans[of "bsize d" "bsize y" "bsize (the c)"]
    show ?thesis
      unfolding step using rec Cons.prems(2) y(1) notin[OF Some] tr Some
      by (cases "n \<le> bsize y"; cases "less (bsize d) (bsize y)"; cases "less (bsize y) (bsize (the c))";
          cases "less (bsize d) (bsize (the c))") (simp_all add: pick_Cons)
  qed
qed

lemma search_eq:
  assumes "free_list m fl xs nf"
  shows "do { h \<leftarrow> ld_head m fl; (cand, cprev) \<leftarrow> loop m n h 0 0 0;
      if cand \<noteq> 0 then take_block m cand cprev n fl else Some (0, m) } =
    (case pick (filter (\<lambda>x. n \<le> bsize x) xs) of
        None \<Rightarrow> Some (0, m)
      | Some b \<Rightarrow> take_block m (baddr b) (prev_addr 0 (baddr b) xs) n fl)"
proof -
  have l: "ld_head m fl = Some (head_addr xs)" "seg m (head_addr xs) xs 0" "distinct (map baddr xs)"
    using assms by (auto simp: free_list_head)
  have "baddr b \<noteq> 0" if "pick (filter (\<lambda>x. n \<le> bsize x) xs) = Some b" for b
    using seg_nonzero[OF l(2)] pick_in[OF that] by auto
  then show ?thesis
    using loop_picks[OF l(2,3), of None 0 n 0 0] l(1)
    by (auto simp: candidate_def split: option.splits)
qed

end

interpretation best_search: whole_search bestFit_loop "\<lambda>x y. x < y" smallest
proof
  fix cur cand prev cprev nx :: addr and m n sz c
  assume "cur \<noteq> 0" "ld_size m cur = Some sz" "ld_next m cur = Some nx" "candidate m c cand"
  then show "bestFit_loop m n cur prev cand cprev =
      (if n \<le> sz \<and> (c = None \<or> sz < bsize (the c)) then bestFit_loop m n nx cur cur prev else bestFit_loop m n nx cur cand cprev)"
    by (subst bestFit_loop.simps) (auto simp: candidate_def split: option.splits)
qed auto

interpretation worst_search: whole_search worstFit_loop "\<lambda>x y. y < x" largest
proof
  fix cur cand prev cprev nx :: addr and m n sz c
  assume "cur \<noteq> 0" "ld_size m cur = Some sz" "ld_next m cur = Some nx" "candidate m c cand"
  then show "worstFit_loop m n cur prev cand cprev =
      (if n \<le> sz \<and> (c = None \<or> bsize (the c) < sz) then worstFit_loop m n nx cur cur prev else worstFit_loop m n nx cur cand cprev)"
    by (subst worstFit_loop.simps) (auto simp: candidate_def split: option.splits)
qed auto

text \<open>The first-fit walk over a segment that ends at \<open>q\<close>, inside a longer list.\<close>

lemma firstFit_loop_seg:
  assumes "seg m cur ys 0" "distinct (map baddr ys)"
  shows "firstFit_loop m fl n cur prev =
     (case find (\<lambda>x. n \<le> bsize x) ys of
        None \<Rightarrow> Some (0, m)
      | Some b \<Rightarrow> take_block m (baddr b) (prev_addr prev (baddr b) ys) n fl)"
  using assms
proof (induction ys arbitrary: cur prev)
  case (Cons y ys)
  from Cons.prems(1) obtain nx where y: "cur = baddr y" "cur \<noteq> 0" "ld_size m cur = Some (bsize y)"
    "ld_next m cur = Some nx" "seg m nx ys 0"
    by (auto simp: seg_Cons)
  have notin: "baddr b \<noteq> baddr y" if "find (\<lambda>x. n \<le> bsize x) ys = Some b" for b
    using find_SomeD[OF that] Cons.prems(2) by (auto simp: image_iff)
  show ?case
    using y Cons.IH[OF y(5), of cur] Cons.prems(2) notin
    by (subst firstFit_loop.simps) (auto split: option.splits)
qed simp

lemma nextFit_loop1_seg:
  assumes "seg m cur ys 0" "distinct (map baddr ys)"
  shows "nextFit_loop1 m fl n cur prev =
     (case find (\<lambda>x. n \<le> bsize x) ys of
        None \<Rightarrow> Some (Inr ())
      | Some b \<Rightarrow> map_option Inl (take_block m (baddr b) (prev_addr prev (baddr b) ys) n fl))"
  using assms
proof (induction ys arbitrary: cur prev)
  case (Cons y ys)
  from Cons.prems(1) obtain nx where y: "cur = baddr y" "cur \<noteq> 0" "ld_size m cur = Some (bsize y)"
    "ld_next m cur = Some nx" "seg m nx ys 0"
    by (auto simp: seg_Cons)
  have notin: "baddr b \<noteq> baddr y" if "find (\<lambda>x. n \<le> bsize x) ys = Some b" for b
    using find_SomeD[OF that] Cons.prems(2) by (auto simp: image_iff)
  show ?case
    using y Cons.IH[OF y(5), of cur] Cons.prems(2) notin
    by (subst nextFit_loop1.simps)
      (auto split: option.splits simp: map_option_case bind_eq_None_conv)
qed simp

lemma nextFit_loop2_seg:
  assumes "seg m cur (us @ vs) 0" "distinct (map baddr (us @ vs))" "ld_nextFree m fl = Some nf"
    "vs = [] \<and> nf = 0 \<or> vs \<noteq> [] \<and> nf = baddr (hd vs)"
  shows "nextFit_loop2 m fl n cur prev =
     (case find (\<lambda>x. n \<le> bsize x) us of
        None \<Rightarrow> Some (0, m)
      | Some b \<Rightarrow> take_block m (baddr b) (prev_addr prev (baddr b) us) n fl)"
  using assms(1,2)
proof (induction us arbitrary: cur prev)
  case Nil
  then have "cur = nf" using assms(4) by (cases vs) (auto simp: seg_Cons)
  then show ?case using assms(3) by (simp add: nextFit_loop2.simps)
next
  case (Cons y us)
  from Cons.prems(1) obtain nx where y: "cur = baddr y" "cur \<noteq> 0" "ld_size m cur = Some (bsize y)"
    "ld_next m cur = Some nx" "seg m nx (us @ vs) 0"
    by (auto simp: seg_Cons)
  have ne: "cur \<noteq> nf"
    using assms(4) y(1,2) Cons.prems(2) by (cases vs) auto
  have notin: "baddr b \<noteq> baddr y" if "find (\<lambda>x. n \<le> bsize x) us = Some b" for b
    using find_SomeD[OF that] Cons.prems(2) by (auto simp: image_iff)
  have last: "nx = 0 \<Longrightarrow> us = []"
    using y(5) by simp
  show ?case
    using y ne assms(3) Cons.IH[OF y(5), of cur] Cons.prems(2) notin last
    by (subst nextFit_loop2.simps) (auto split: option.splits)
qed

lemma findPrevNode_loop_seg:
  assumes "seg m cur ys 0"
  shows "findPrevNode_loop m a cur prev = Some (prev_addr prev a ys)"
  using assms
proof (induction ys arbitrary: cur prev)
  case (Cons y ys)
  then show ?case
    by (subst findPrevNode_loop.simps) (auto simp: seg_Cons)
qed simp


section \<open>Each strategy: the abstract choice, then one block taken\<close>

text \<open>
  What all four C functions do, as one term over the list: choose, and hand the chosen node
  and its predecessor to the common tail.
\<close>

definition fit_result ::
  "memory \<Rightarrow> addr \<Rightarrow> size_t \<Rightarrow> block list \<Rightarrow> block option \<Rightarrow> (addr \<times> memory) option" where
  "fit_result m fl n xs c =
     (case c of
        None \<Rightarrow> Some (0, m)
      | Some b \<Rightarrow> take_block m (baddr b) (prev_addr 0 (baddr b) xs) n fl)"

lemma bestFit_eq:
  assumes "free_list m fl xs nf"
  shows "bestFit m fl n = fit_result m fl n xs (select BEST_FIT n nf xs)"
  using best_search.search_eq[OF assms] by (simp add: bestFit_def fit_result_def)

lemma worstFit_eq:
  assumes "free_list m fl xs nf"
  shows "worstFit m fl n = fit_result m fl n xs (select WORST_FIT n nf xs)"
  using worst_search.search_eq[OF assms] by (simp add: worstFit_def fit_result_def)

lemma firstFit_eq:
  assumes "free_list m fl xs nf"
  shows "firstFit m fl n = fit_result m fl n xs (select FIRST_FIT n nf xs)"
  using assms firstFit_loop_seg[of m "head_addr xs" xs fl n 0]
  by (auto simp: firstFit_def fit_result_def free_list_head split: option.splits)

lemma prev_addr_skip:
  assumes "baddr b \<notin> baddr ` set us"
  shows "prev_addr d (baddr b) (us @ vs) = prev_addr (last_addr d us) (baddr b) vs"
  using assms by (induction us arbitrary: d) (auto simp: last_addr_def)

lemma prev_addr_front:
  assumes "b \<in> set us"
  shows "prev_addr d (baddr b) (us @ vs) = prev_addr d (baddr b) us"
  using assms by (induction us arbitrary: d) auto

text \<open>The list split at the roving pointer: the second loop of \<^verbatim>\<open>nextFit\<close> runs over \<open>us\<close>, the first over \<open>vs\<close>.\<close>

lemma split_at_rover:
  assumes "free_list m fl xs nf"
  defines "us \<equiv> takeWhile (\<lambda>c. baddr c \<noteq> nf) xs" and "vs \<equiv> dropWhile (\<lambda>c. baddr c \<noteq> nf) xs"
  shows "vs = [] \<and> nf = 0 \<or> vs \<noteq> [] \<and> nf = baddr (hd vs)" "seg m nf vs 0"
    "findPrevNode m nf (head_addr xs) = Some (prev_addr 0 nf xs)"
    "b \<in> set vs \<Longrightarrow> prev_addr (prev_addr 0 nf xs) (baddr b) vs = prev_addr 0 (baddr b) xs"
proof -
  have xs: "xs = us @ vs" by (simp add: us_def vs_def)
  have l: "seg m (head_addr xs) xs 0" "distinct (map baddr xs)" "nf = 0 \<or> nf \<in> baddr ` set xs"
    using assms(1) by (auto simp: free_list_head)
  show vs: "vs = [] \<and> nf = 0 \<or> vs \<noteq> [] \<and> nf = baddr (hd vs)"
  proof (cases "nf = 0")
    case True
    then have "\<forall>c \<in> set xs. baddr c \<noteq> nf" using seg_nonzero[OF l(1)] by simp
    then have "vs = []" unfolding vs_def by (simp add: dropWhile_eq_Nil_conv)
    with True show ?thesis by simp
  next
    case False
    then have "\<exists>c \<in> set xs. baddr c = nf" using l(3) by auto
    then have "vs \<noteq> []" unfolding vs_def by (auto simp: dropWhile_eq_Nil_conv)
    then show ?thesis using hd_dropWhile[of "\<lambda>c. baddr c \<noteq> nf" xs] by (simp add: vs_def)
  qed
  obtain r where r: "seg m r vs 0" using l(1) unfolding xs by (auto simp: seg_append)
  then show "seg m nf vs 0" using vs by (cases vs) (auto simp: seg_Cons)
  show "findPrevNode m nf (head_addr xs) = Some (prev_addr 0 nf xs)"
    unfolding findPrevNode_def by (rule findPrevNode_loop_seg[OF l(1)])
  assume b: "b \<in> set vs"
  with vs obtain v ws where v: "vs = v # ws" "baddr v = nf" by (cases vs) auto
  have "prev_addr 0 nf xs = last_addr 0 us"
    using l(2) v prev_addr_append[of v us 0 ws] unfolding xs by auto
  moreover have "baddr b \<notin> baddr ` set us" using l(2) b unfolding xs by auto
  ultimately show "prev_addr (prev_addr 0 nf xs) (baddr b) vs = prev_addr 0 (baddr b) xs"
    unfolding xs by (simp add: prev_addr_skip)
qed

lemma nextFit_eq:
  assumes "free_list m fl xs nf"
  shows "nextFit m fl n = fit_result m fl n xs (select NEXT_FIT n nf xs)"
proof -
  define us where "us = takeWhile (\<lambda>c. baddr c \<noteq> nf) xs"
  define vs where "vs = dropWhile (\<lambda>c. baddr c \<noteq> nf) xs"
  have xs: "xs = us @ vs" by (simp add: us_def vs_def)
  have l: "ld_head m fl = Some (head_addr xs)" "seg m (head_addr xs) (us @ vs) 0" "distinct (map baddr (us @ vs))"
    "ld_nextFree m fl = Some nf"
    using assms xs by (auto simp: free_list_head)
  note v = split_at_rover[OF assms, folded vs_def]
  have d: "distinct (map baddr vs)" using l(3) by simp
  have pu: "prev_addr 0 (baddr b) us = prev_addr 0 (baddr b) xs" if "b \<in> set us" for b
    unfolding xs by (simp add: prev_addr_front that)
  have sel: "select NEXT_FIT n nf xs =
      (case find (\<lambda>c. n \<le> bsize c) vs of None \<Rightarrow> find (\<lambda>c. n \<le> bsize c) us | Some b \<Rightarrow> Some b)"
    by (simp add: rotate_to_def us_def vs_def find_append' split: option.splits)
  note loop1 = nextFit_loop1_seg[OF v(2) d, of fl n "prev_addr 0 nf xs"]
  note loop2 = nextFit_loop2_seg[OF l(2,3,4) v(1), of n 0]
  have code: "nextFit m fl n =
      (case nextFit_loop1 m fl n nf (prev_addr 0 nf xs) of None \<Rightarrow> None
       | Some (Inl res) \<Rightarrow> Some res
       | Some (Inr _) \<Rightarrow> nextFit_loop2 m fl n (head_addr xs) 0)"
    by (simp add: nextFit_def l(1,4) v(3) split: option.splits)
  show ?thesis
  proof (cases "find (\<lambda>c. n \<le> bsize c) vs")
    case (Some b)
    then have "b \<in> set vs" using find_SomeD by metis
    then have "prev_addr (prev_addr 0 nf xs) (baddr b) vs = prev_addr 0 (baddr b) xs" by (rule v(4))
    with Some show ?thesis
      unfolding code loop1 sel fit_result_def by (simp add: map_option_case split: option.split)
  next
    case None
    then show ?thesis
      using pu find_SomeD[of "\<lambda>c. n \<le> bsize c" us] unfolding code loop1 sel fit_result_def
      by (simp add: loop2 split: option.split)
  qed
qed


section \<open>Field stores: what they write and what they leave alone\<close>

definition node_ok :: "memory \<Rightarrow> addr \<Rightarrow> bool" where
  "node_ok m p \<longleftrightarrow> wf_memory m \<and> valid m p 24"

definition list_ok :: "memory \<Rightarrow> addr \<Rightarrow> bool" where
  "list_ok m fl \<longleftrightarrow> wf_memory m \<and> valid m fl 16"

lemma node_ok_same_on: "same_on A m m' \<Longrightarrow> node_ok m' p = node_ok m p"
  by (simp add: node_ok_def same_on_valid same_on_wf)

lemma list_ok_same_on: "same_on A m m' \<Longrightarrow> list_ok m' p = list_ok m p"
  by (simp add: list_ok_def same_on_valid same_on_wf)

lemma node_ok_offsets:
  assumes "node_ok m p"
  shows "unat (p + 8) = unat p + 8" "unat (p + 16) = unat p + 16" "unat (p + 20) = unat p + 20"
    "unat p + 24 \<le> 2 ^ 64" "0 < unat p" "p \<noteq> 0"
proof -
  have b: "unat p + 24 \<le> 2 ^ 64" "0 < unat p"
    using assms valid_bound[of m p 24] by (auto simp: node_ok_def)
  then show "unat (p + 8) = unat p + 8" "unat (p + 16) = unat p + 16" "unat (p + 20) = unat p + 20"
    "unat p + 24 \<le> 2 ^ 64" "0 < unat p" "p \<noteq> 0"
    using unat_add_no_wrap[of p 8] unat_add_no_wrap[of p 16] unat_add_no_wrap[of p 20] by auto
qed

lemma list_ok_offsets:
  assumes "list_ok m fl"
  shows "unat (fl + 8) = unat fl + 8"
  using assms valid_bound[of m fl 16] unat_add_no_wrap[of fl 8] by (auto simp: list_ok_def)

lemma node_ok_valid:
  assumes "node_ok m p"
  shows "valid m p 8" "valid m (p + 8) 8" "valid m (p + 16) 4" "valid m (p + 20) 4" "wf_memory m"
  using assms node_ok_offsets[OF assms]
  by (auto simp: node_ok_def intro: valid_sub)

lemma list_ok_valid:
  assumes "list_ok m fl"
  shows "valid m fl 8" "valid m (fl + 8) 8" "wf_memory m"
  using assms list_ok_offsets[OF assms] by (auto simp: list_ok_def intro: valid_sub)

lemma ld_frames:
  assumes "same_on A m m'" "node_ok m p"
  shows "{unat p ..< unat p + 8} \<subseteq> A \<Longrightarrow> ld_size m' p = ld_size m p"
    and "{unat p + 8 ..< unat p + 16} \<subseteq> A \<Longrightarrow> ld_next m' p = ld_next m p"
    and "{unat p + 16 ..< unat p + 20} \<subseteq> A \<Longrightarrow> ld_magic m' p = ld_magic m p"
    and "{unat p + 20 ..< unat p + 24} \<subseteq> A \<Longrightarrow> ld_isFreed m' p = ld_isFreed m p"
  using node_ok_offsets[OF assms(2)] node_ok_valid(5)[OF assms(2)]
    load_u64_same_on[OF assms(1), of p] load_u64_same_on[OF assms(1), of "p + 8"]
    load_u32_same_on[OF assms(1), of "p + 16"] load_u32_same_on[OF assms(1), of "p + 20"]
  by (auto simp: ld_size_def ld_next_def ld_magic_def ld_isFreed_def rng_def ac_simps)

lemma ld_list_frames:
  assumes "same_on A m m'" "list_ok m fl"
  shows "{unat fl ..< unat fl + 8} \<subseteq> A \<Longrightarrow> ld_head m' fl = ld_head m fl"
    and "{unat fl + 8 ..< unat fl + 16} \<subseteq> A \<Longrightarrow> ld_nextFree m' fl = ld_nextFree m fl"
  using list_ok_offsets[OF assms(2)] list_ok_valid(3)[OF assms(2)]
    load_u64_same_on[OF assms(1), of fl] load_u64_same_on[OF assms(1), of "fl + 8"]
  by (auto simp: ld_head_def ld_nextFree_def rng_def ac_simps)

lemma st_size_ok:
  assumes "node_ok m p"
  obtains m' where "st_size m p v = Some m'" "ld_size m' p = Some v"
    "same_on (- {unat p ..< unat p + 8}) m m'"
proof (rule store_u64_ok[OF node_ok_valid(5,1)[OF assms], of v])
  fix m' assume "store_u64 m p v = Some m'" "load_u64 m' p = Some v"
    "same_on (- rng p 8) m m'"
  then show thesis
    using that by (simp add: st_size_def ld_size_def rng_def add.assoc)
qed

lemma st_next_ok:
  assumes "node_ok m p"
  obtains m' where "st_next m p v = Some m'" "ld_next m' p = Some v"
    "same_on (- {unat p + 8 ..< unat p + 16}) m m'"
proof (rule store_u64_ok[OF node_ok_valid(5,2)[OF assms], of v])
  fix m' assume "store_u64 m (p + 8) v = Some m'" "load_u64 m' (p + 8) = Some v"
    "same_on (- rng (p + 8) 8) m m'"
  then show thesis
    using node_ok_offsets(1)[OF assms] that by (simp add: st_next_def ld_next_def rng_def add.assoc)
qed

lemma st_magic_ok:
  assumes "node_ok m p"
  obtains m' where "st_magic m p v = Some m'" "ld_magic m' p = Some v"
    "same_on (- {unat p + 16 ..< unat p + 20}) m m'"
proof (rule store_u32_ok[OF node_ok_valid(5,3)[OF assms], of v])
  fix m' assume "store_u32 m (p + 16) v = Some m'" "load_u32 m' (p + 16) = Some v"
    "same_on (- rng (p + 16) 4) m m'"
  then show thesis
    using node_ok_offsets(2)[OF assms] that by (simp add: st_magic_def ld_magic_def rng_def add.assoc)
qed

lemma st_isFreed_ok:
  assumes "node_ok m p"
  obtains m' where "st_isFreed m p v = Some m'" "ld_isFreed m' p = Some v"
    "same_on (- {unat p + 20 ..< unat p + 24}) m m'"
proof (rule store_u32_ok[OF node_ok_valid(5,4)[OF assms], of v])
  fix m' assume "store_u32 m (p + 20) v = Some m'" "load_u32 m' (p + 20) = Some v"
    "same_on (- rng (p + 20) 4) m m'"
  then show thesis
    using node_ok_offsets(3)[OF assms] that by (simp add: st_isFreed_def ld_isFreed_def rng_def add.assoc)
qed

lemma st_head_ok:
  assumes "list_ok m fl"
  obtains m' where "st_head m fl v = Some m'" "ld_head m' fl = Some v"
    "same_on (- {unat fl ..< unat fl + 8}) m m'"
proof (rule store_u64_ok[OF list_ok_valid(3,1)[OF assms], of v])
  fix m' assume "store_u64 m fl v = Some m'" "load_u64 m' fl = Some v"
    "same_on (- rng fl 8) m m'"
  then show thesis
    using that by (simp add: st_head_def ld_head_def rng_def add.assoc)
qed

lemma st_nextFree_ok:
  assumes "list_ok m fl"
  obtains m' where "st_nextFree m fl v = Some m'" "ld_nextFree m' fl = Some v"
    "same_on (- {unat fl + 8 ..< unat fl + 16}) m m'"
proof (rule store_u64_ok[OF list_ok_valid(3,2)[OF assms], of v])
  fix m' assume "store_u64 m (fl + 8) v = Some m'" "load_u64 m' (fl + 8) = Some v"
    "same_on (- rng (fl + 8) 8) m m'"
  then show thesis
    using list_ok_offsets[OF assms] that by (simp add: st_nextFree_def ld_nextFree_def rng_def add.assoc)
qed

text \<open>A segment survives a change of memory away from the links of its nodes.\<close>

lemma seg_same_on:
  assumes "same_on A m m'" "\<forall>b \<in> set xs. node_ok m (baddr b) \<and> rng (baddr b) 16 \<subseteq> A"
  shows "seg m' p xs q = seg m p xs q"
  using assms(2)
proof (induction xs arbitrary: p)
  case (Cons b bs)
  then have "ld_size m' (baddr b) = ld_size m (baddr b)" "ld_next m' (baddr b) = ld_next m (baddr b)"
    using ld_frames[OF assms(1), of "baddr b"] by (auto simp: rng_def subset_iff)
  with Cons show ?case by (simp add: seg_Cons cong: conj_cong)
qed simp

end
