(* ===== verification/FreeListUpdate.thy ===== *)
theory FreeListUpdate
  imports FreeList
begin

text \<open>
  What the writing functions of \<^verbatim>\<open>freeList.c\<close> do to a well-formed free list: \<^verbatim>\<open>split\<close> and the
  common tail of the strategies here, \<^verbatim>\<open>coalesceFreeList\<close> with \<^verbatim>\<open>MyFree\<close> in \<open>HeapAllocator\<close>.
  The contract of a placement strategy is the locale \<open>fit_strategy\<close>; the four strategies of
  the code interpret it.
\<close>

section \<open>Well-formed free stores\<close>

text \<open>
  \<open>free_store m fl xs nf\<close>: the structure at \<open>fl\<close> holds the free list \<open>xs\<close>; the blocks are
  pairwise disjoint, mapped, and apart from the structure itself.
\<close>

definition free_area :: "block list \<Rightarrow> nat set" where
  "free_area xs = \<Union> (extent ` set xs)"

definition free_store :: "memory \<Rightarrow> addr \<Rightarrow> block list \<Rightarrow> addr \<Rightarrow> bool" where
  "free_store m fl xs nf \<longleftrightarrow>
     free_list m fl xs nf \<and> list_ok m fl \<and> tile (free_area xs) xs
     \<and> (\<forall>b \<in> set xs. valid m (baddr b) (24 + unat (bsize b)))
     \<and> free_area xs \<inter> rng fl 16 = {}"

lemma free_storeD:
  assumes "free_store m fl xs nf"
  shows "free_list m fl xs nf" "list_ok m fl" "tile (free_area xs) xs"
    "\<And>b. b \<in> set xs \<Longrightarrow> valid m (baddr b) (24 + unat (bsize b))"
    "\<And>b. b \<in> set xs \<Longrightarrow> node_ok m (baddr b)"
    "\<And>b. b \<in> set xs \<Longrightarrow> extent b \<inter> rng fl 16 = {}"
    "\<And>b. b \<in> set xs \<Longrightarrow> block_ok b"
proof -
  show "free_list m fl xs nf" "list_ok m fl" "tile (free_area xs) xs"
    "\<And>b. b \<in> set xs \<Longrightarrow> valid m (baddr b) (24 + unat (bsize b))"
    using assms by (auto simp: free_store_def)
  then show "\<And>b. b \<in> set xs \<Longrightarrow> block_ok b" by (blast dest: tile_block_ok)
  fix b assume b: "b \<in> set xs"
  have "wf_memory m" using assms by (simp add: free_store_def list_ok_def)
  moreover have "valid m (baddr b) 24"
    using assms b valid_sub[of m "baddr b" "24 + unat (bsize b)" "baddr b" 24] by (auto simp: free_store_def)
  ultimately show "node_ok m (baddr b)" by (simp add: node_ok_def)
  show "extent b \<inter> rng fl 16 = {}"
    using assms b by (auto simp: free_store_def free_area_def)
qed

lemma rng16_extent: "rng (baddr b) 16 \<subseteq> extent b"
  by (auto simp: rng_def extent_def)

lemma interval_extent: "k \<le> 24 \<Longrightarrow> {unat (baddr b) + j ..< unat (baddr b) + k} \<subseteq> extent b"
  by (auto simp: extent_def)

text \<open>Two writes in a row: the size and the link of a node, the two fields of the list structure.\<close>

lemma st_node_ok:
  assumes n: "node_ok m p"
  obtains m1 m' where "st_size m p sz = Some m1" "st_next m1 p nx = Some m'"
    "ld_size m' p = Some sz" "ld_next m' p = Some nx" "node_ok m' p"
    "same_on (- {unat p ..< unat p + 8}) m m1" "same_on (- rng p 16) m m'"
proof -
  obtain m1 where m1: "st_size m p sz = Some m1" "ld_size m1 p = Some sz" "same_on (- {unat p ..< unat p + 8}) m m1"
    using st_size_ok[OF n] .
  have n1: "node_ok m1 p" using n node_ok_same_on[OF m1(3)] by simp
  obtain m' where m': "st_next m1 p nx = Some m'" "ld_next m' p = Some nx"
    "same_on (- {unat p + 8 ..< unat p + 16}) m1 m'"
    using st_next_ok[OF n1] .
  have "ld_size m' p = Some sz" "node_ok m' p"
    using ld_frames(1)[OF m'(3) n1] m1(2) n1 node_ok_same_on[OF m'(3)] by simp_all
  moreover have "same_on (- rng p 16) m m'"
    by (rule same_on_mono[OF same_on_trans[OF m1(3) m'(3)]]) (auto simp: rng_def)
  ultimately show thesis using that m1(1,3) m'(1,2) by blast
qed

lemma st_list_ok:
  assumes l: "list_ok m p"
  obtains m1 m' where "st_head m p h = Some m1" "st_nextFree m1 p nf = Some m'"
    "ld_head m' p = Some h" "ld_nextFree m' p = Some nf" "list_ok m' p"
    "same_on (- {unat p ..< unat p + 8}) m m1" "same_on (- rng p 16) m m'"
proof -
  obtain m1 where m1: "st_head m p h = Some m1" "ld_head m1 p = Some h" "same_on (- {unat p ..< unat p + 8}) m m1"
    using st_head_ok[OF l] .
  have l1: "list_ok m1 p" using l list_ok_same_on[OF m1(3)] by simp
  obtain m' where m': "st_nextFree m1 p nf = Some m'" "ld_nextFree m' p = Some nf"
    "same_on (- {unat p + 8 ..< unat p + 16}) m1 m'"
    using st_nextFree_ok[OF l1] .
  have "ld_head m' p = Some h" "list_ok m' p"
    using ld_list_frames(1)[OF m'(3) l1] m1(2) l1 list_ok_same_on[OF m'(3)] by simp_all
  moreover have "same_on (- rng p 16) m m'"
    by (rule same_on_mono[OF same_on_trans[OF m1(3) m'(3)]]) (auto simp: rng_def)
  ultimately show thesis using that m1(1,3) m'(1,2) by blast
qed

section \<open>Redirecting the link that leads to a node\<close>

text \<open>
  \<^verbatim>\<open>if(prev != NULL) prev->next = v; else freeList->head = v;\<close> where \<^verbatim>\<open>prev\<close> is the last node of the
  segment \<open>as\<close>.
\<close>

definition relink :: "memory \<Rightarrow> addr \<Rightarrow> addr \<Rightarrow> addr \<Rightarrow> memory option" where
  "relink m fl prev v = (if prev \<noteq> 0 then st_next m prev v else st_head m fl v)"

lemma relink_ok:
  assumes l: "list_ok m fl" "ld_head m fl = Some h" "seg m h as q"
    and n: "\<forall>b \<in> set as. node_ok m (baddr b)"
    and t: "tile T xs" "set as \<subseteq> set xs" "distinct as"
    and f: "\<forall>b \<in> set as. extent b \<inter> rng fl 16 = {}"
  obtains m' h' where "relink m fl (last_addr 0 as) v = Some m'" "ld_head m' fl = Some h'"
    "seg m' h' as v" "same_on (- (free_area as \<union> rng fl 8)) m m'"
proof (cases as rule: rev_cases)
  case Nil
  obtain m' where m': "st_head m fl v = Some m'" "ld_head m' fl = Some v"
    "same_on (- {unat fl ..< unat fl + 8}) m m'"
    using st_head_ok[OF l(1)] .
  show thesis
    by (rule that[of m' v]) (use m' Nil in \<open>auto simp: relink_def last_addr_def free_area_def rng_def\<close>)
next
  case (snoc as' a)
  have a: "node_ok m (baddr a)" "a \<in> set xs" using n t(2) snoc by auto
  obtain m' where m': "st_next m (baddr a) v = Some m'" "ld_next m' (baddr a) = Some v"
    "same_on (- {unat (baddr a) + 8 ..< unat (baddr a) + 16}) m m'"
    using st_next_ok[OF a(1)] .
  have W: "{unat (baddr a) + 8 ..< unat (baddr a) + 16} \<subseteq> extent a" by (rule interval_extent) simp
  have "baddr a \<noteq> 0" using node_ok_offsets(6)[OF a(1)] .
  moreover have "ld_head m' fl = Some h"
  proof -
    have "{unat fl ..< unat fl + 8} \<subseteq> rng fl 16" by (auto simp: rng_def)
    then have "{unat fl ..< unat fl + 8} \<subseteq> - {unat (baddr a) + 8 ..< unat (baddr a) + 16}"
      using f snoc W by fastforce
    then show ?thesis using ld_list_frames(1)[OF m'(3) l(1)] l(2) by simp
  qed
  moreover have "seg m' h as v"
  proof -
    have s: "seg m h as' (baddr a)" "baddr a \<noteq> 0" "ld_size m (baddr a) = Some (bsize a)"
      using l(3) snoc by (auto simp: seg_append seg_Cons)
    have "rng (baddr b) 16 \<inter> {unat (baddr a) + 8 ..< unat (baddr a) + 16} = {}" if "b \<in> set as'" for b
    proof -
      have "b \<noteq> a" "b \<in> set xs" using that t(2,3) snoc by auto
      then have "extent b \<inter> extent a = {}" using tile_disjoint[OF t(1) _ a(2)] by blast
      then show ?thesis using rng16_extent[of b] W by blast
    qed
    then have "seg m' h as' (baddr a)"
      using seg_same_on[OF m'(3), of as' h "baddr a"] n snoc s(1) by auto
    moreover have "ld_size m' (baddr a) = Some (bsize a)"
      using ld_frames(1)[OF m'(3) a(1)] s(3) by auto
    ultimately show ?thesis using snoc s(2) m'(2) by (auto simp: seg_append seg_Cons)
  qed
  moreover have "same_on (- (free_area as \<union> rng fl 8)) m m'"
    using W by (intro same_on_mono[OF m'(3)]) (auto simp: snoc free_area_def)
  ultimately show thesis
    using that[of m' h] m'(1) snoc by (simp add: relink_def last_addr_def)
qed


lemma free_area_append [simp]: "free_area (xs @ ys) = free_area xs \<union> free_area ys"
  by (simp add: free_area_def)

lemma free_area_Cons [simp]: "free_area (b # ys) = extent b \<union> free_area ys"
  by (simp add: free_area_def)

lemma free_area_Nil [simp]: "free_area [] = {}"
  by (simp add: free_area_def)

lemma extent_free_area: "b \<in> set xs \<Longrightarrow> extent b \<subseteq> free_area xs"
  by (auto simp: free_area_def)

lemma tile_subset:
  assumes "tile A xs" "set ys \<subseteq> set xs" "distinct ys"
  shows "tile (free_area ys) ys"
  using assms by (auto simp: tile_def free_area_def intro: pairwise_subset)

lemma tile_areas_disjoint:
  assumes "tile A (xs @ ys)"
  shows "free_area xs \<inter> free_area ys = {}"
proof -
  have "extent b \<inter> extent c = {}" if "b \<in> set xs" "c \<in> set ys" for b c
    using that assms by (intro tile_disjoint[OF assms]) (auto simp: tile_def)
  then show ?thesis by (auto simp: free_area_def)
qed

lemma tile_is_free_area: "tile A xs \<Longrightarrow> A = free_area xs"
  by (simp add: tile_def free_area_def)

lemma tile_append_rest:
  "tile A (xs @ ys) \<Longrightarrow> free_area xs \<subseteq> A \<and> tile (A - free_area xs) ys"
proof (induction xs arbitrary: A)
  case (Cons x xs)
  have "A - extent x - free_area xs = A - free_area (x # xs)" by auto
  moreover have "free_area xs \<subseteq> A - extent x" "tile (A - extent x - free_area xs) ys"
    "extent x \<subseteq> A"
    using Cons.IH[of "A - extent x"] Cons.prems by (auto simp: tile_Cons)
  ultimately show ?case by auto
qed simp

text \<open>A segment survives a change of memory away from the area of its blocks.\<close>

lemma seg_frame:
  assumes "same_on A m m'" "\<forall>b \<in> set xs. node_ok m (baddr b)" "free_area xs \<subseteq> A"
  shows "seg m' p xs q = seg m p xs q"
  using assms rng16_extent extent_free_area
  by (intro seg_same_on[OF assms(1)]) (metis order_trans)

lemma head_addr_append: "head_addr (as @ bs) = (if as = [] then head_addr bs else head_addr as)"
  by (cases as) (auto simp: head_addr_def)

text \<open>
  The end of \<^verbatim>\<open>split\<close>: the link of the predecessor and the roving pointer. The list \<open>bs\<close> starts at
  \<open>v\<close> and follows \<open>as\<close> afterwards.
\<close>

lemma relink_rove_ok:
  assumes l: "list_ok m fl" "ld_head m fl = Some h" "seg m h as q" "seg m v bs 0"
    and n: "\<forall>b \<in> set (as @ bs). node_ok m (baddr b)"
    and t: "tile T (as @ bs)" "free_area (as @ bs) \<inter> rng fl 16 = {}"
  obtains m4 m5 where
    "relink m fl (last_addr 0 as) v = Some m4"
    "ld_head m4 fl = Some (head_addr (as @ bs))"
    "st_nextFree m4 fl (if v = 0 then head_addr (as @ bs) else v) = Some m5"
    "ld_head m5 fl = Some (head_addr (as @ bs))"
    "seg m5 (head_addr (as @ bs)) (as @ bs) 0"
    "ld_nextFree m5 fl = Some (if v = 0 then head_addr (as @ bs) else v)"
    "same_on (- (free_area as \<union> rng fl 16)) m m4"
    "same_on (- (free_area as \<union> rng fl 16)) m m5"
proof -
  have d: "distinct as" using t(1) by (auto simp: tile_def)
  have fb: "\<forall>b \<in> set as. extent b \<inter> rng fl 16 = {}"
    using t(2) by (auto simp: free_area_def)
  have na: "\<forall>b \<in> set as. node_ok m (baddr b)" and nb: "\<forall>b \<in> set bs. node_ok m (baddr b)"
    using n by auto
  obtain m4 h' where m4: "relink m fl (last_addr 0 as) v = Some m4" "ld_head m4 fl = Some h'"
    "seg m4 h' as v" "same_on (- (free_area as \<union> rng fl 8)) m m4"
    using relink_ok[OF l(1-3) na t(1) _ d fb, of v] by auto
  have fl8: "rng fl 8 \<subseteq> rng fl 16" "{unat fl + 8 ..< unat fl + 16} \<subseteq> rng fl 16"
    "{unat fl ..< unat fl + 8} \<subseteq> - {unat fl + 8 ..< unat fl + 16}"
    by (auto simp: rng_def)
  have "free_area bs \<subseteq> - (free_area as \<union> rng fl 8)"
    using tile_areas_disjoint[OF t(1)] t(2) fl8(1) by auto
  then have "seg m4 v bs 0" using seg_frame[OF m4(4) nb] l(4) by simp
  then have s4: "seg m4 h' (as @ bs) 0" using m4(3) by (auto simp: seg_append)
  then have h': "h' = head_addr (as @ bs)" by (rule seg_head)
  define w where "w = (if v = 0 then head_addr (as @ bs) else v)"
  have l4: "list_ok m4 fl" using list_ok_same_on[OF m4(4)] l(1) by simp
  obtain m5 where m5: "st_nextFree m4 fl w = Some m5" "ld_nextFree m5 fl = Some w"
    "same_on (- {unat fl + 8 ..< unat fl + 16}) m4 m5"
    using st_nextFree_ok[OF l4] .
  have n4: "\<forall>b \<in> set (as @ bs). node_ok m4 (baddr b)"
    using n node_ok_same_on[OF m4(4)] by blast
  have "free_area (as @ bs) \<subseteq> - {unat fl + 8 ..< unat fl + 16}"
    using t(2) fl8(2) by blast
  then have "seg m5 h' (as @ bs) 0" using seg_frame[OF m5(3) n4] s4 by blast
  moreover have "ld_head m5 fl = Some h'"
    using ld_list_frames(1)[OF m5(3) l4 fl8(3)] m4(2) by simp
  moreover have so4: "same_on (- (free_area as \<union> rng fl 16)) m m4"
    by (rule same_on_mono[OF m4(4)]) (use fl8(1) in blast)
  moreover have "same_on (- (free_area as \<union> rng fl 16)) m m5"
    by (rule same_on_mono[OF same_on_trans[OF so4 m5(3)]]) (use fl8(2) in blast)
  ultimately show thesis
    using that[of m4 m5] m4(1,2) m5(1,2) unfolding h' w_def by blast
qed


section \<open>split\<close>

text \<open>The first half of \<^verbatim>\<open>split\<close>'s then-branch: the header of the rest, the shorter size.\<close>

definition carve :: "memory \<Rightarrow> addr \<Rightarrow> size_t \<Rightarrow> memory option" where
  "carve m node siz = do {
     sz \<leftarrow> ld_size m node;
     m \<leftarrow> st_size m (node + SIZEOF_NODE + siz) (sz - siz - SIZEOF_NODE);
     nx \<leftarrow> ld_next m node;
     m \<leftarrow> st_next m (node + SIZEOF_NODE + siz) nx;
     st_size m node siz }"

lemma split_node_eq:
  assumes "ld_size m node = Some sz"
  shows "split_node m node prev siz fl =
    (if siz + SIZEOF_NODE < sz then do {
       m \<leftarrow> carve m node siz;
       m \<leftarrow> relink m fl prev (node + SIZEOF_NODE + siz);
       if node + SIZEOF_NODE + siz = 0 then do { h \<leftarrow> ld_head m fl; st_nextFree m fl h }
       else st_nextFree m fl (node + SIZEOF_NODE + siz)
     } else do {
       nx \<leftarrow> ld_next m node;
       m \<leftarrow> relink m fl prev nx;
       nw \<leftarrow> ld_next m node;
       if nw = 0 then do { h \<leftarrow> ld_head m fl; st_nextFree m fl h } else st_nextFree m fl nw
     })"
  using assms by (simp add: split_node_def carve_def relink_def Let_def)

lemma carve_ok:
  assumes ok: "node_ok m (baddr b)" "valid m (baddr b) (24 + unat (bsize b))" "block_ok b"
    and ld: "ld_size m (baddr b) = Some (bsize b)" "ld_next m (baddr b) = Some nx"
    and n: "n \<le> bsize b" "n + SIZEOF_NODE < bsize b"
  defines "q \<equiv> baddr b + SIZEOF_NODE + n"
  obtains m' where "carve m (baddr b) n = Some m'" "same_on (- extent b) m m'"
    "ld_size m' q = Some (bsize b - n - SIZEOF_NODE)" "ld_next m' q = Some nx"
    "ld_size m' (baddr b) = Some n" "node_ok m' q"
proof -
  have b: "block_ok (Block (baddr b) (bsize b))" using ok(3) by simp
  note e = extent_split[OF b n]
  have q: "unat q = unat (baddr b) + 24 + unat n" using e(5) by (simp add: q_def)
  have r: "unat (bsize b - n - SIZEOF_NODE) + unat n + 24 = unat (bsize b)" by (rule e(6))
  have nq: "node_ok m q"
    using ok(1) valid_sub[OF ok(2), of q 24] q r by (simp add: node_ok_def)
  obtain m1 where m1: "st_size m q (bsize b - n - SIZEOF_NODE) = Some m1"
    "ld_size m1 q = Some (bsize b - n - SIZEOF_NODE)" "same_on (- {unat q ..< unat q + 8}) m m1"
    using st_size_ok[OF nq] .
  have k1: "node_ok m1 q" "node_ok m1 (baddr b)"
    using nq ok(1) node_ok_same_on[OF m1(3)] by auto
  have nx1: "ld_next m1 (baddr b) = Some nx"
    using ld_frames(2)[OF m1(3) ok(1)] ld(2) q by simp
  obtain m2 where m2: "st_next m1 q nx = Some m2" "ld_next m2 q = Some nx"
    "same_on (- {unat q + 8 ..< unat q + 16}) m1 m2"
    using st_next_ok[OF k1(1)] .
  have k2: "node_ok m2 q" "node_ok m2 (baddr b)"
    using k1 node_ok_same_on[OF m2(3)] by auto
  obtain m3 where m3: "st_size m2 (baddr b) n = Some m3" "ld_size m3 (baddr b) = Some n"
    "same_on (- {unat (baddr b) ..< unat (baddr b) + 8}) m2 m3"
    using st_size_ok[OF k2(2)] .
  have k3: "node_ok m3 q" using k2 node_ok_same_on[OF m3(3)] by auto
  have "ld_size m2 q = Some (bsize b - n - SIZEOF_NODE)"
    using ld_frames(1)[OF m2(3) k1(1)] m1(2) by simp
  then have s3: "ld_size m3 q = Some (bsize b - n - SIZEOF_NODE)"
    using ld_frames(1)[OF m3(3) k2(1)] q by simp
  have x3: "ld_next m3 q = Some nx"
    using ld_frames(2)[OF m3(3) k2(1)] m2(2) q by simp
  have "same_on (- extent b) m m3"
    by (rule same_on_mono[OF same_on_trans[OF same_on_trans[OF m1(3) m2(3)] m3(3)]])
      (use q r in \<open>auto simp: extent_def\<close>)
  then show thesis
    using that[of m3] m1(1) m2(1) m3(1,2) nx1 ld(1) s3 x3 k3 by (simp add: carve_def q_def)
qed

lemma tile_move_front: "tile A (as @ b # cs) = tile A (b # as @ cs)"
  by (rule tile_mset) simp

lemma take_out_tile:
  assumes "tile A (as @ b # cs)" "n \<le> bsize b"
  shows "tile A (granted b n # as @ residue b n @ cs)"
proof -
  have bo: "block_ok b" using assms(1) by (simp add: tile_def)
  have "tile A (b # as @ cs)" using assms(1) by (simp add: tile_move_front)
  then have "tile A ((granted b n # residue b n) @ as @ cs)"
    by (rule tile_replace[OF _ granted_residue(1)[OF bo assms(2)]])
  then show ?thesis
    by (rule iffD1[OF tile_mset, rotated]) simp
qed


text \<open>What a well-formed list says at one of its nodes, and of the list without what is granted there.\<close>

lemma store_at:
  assumes fs: "free_store m fl (as @ b # cs) nf"
  shows "ld_head m fl = Some (head_addr (as @ b # cs))" "seg m (head_addr (as @ b # cs)) as (baddr b)"
    "ld_size m (baddr b) = Some (bsize b)" "ld_next m (baddr b) = Some (head_addr cs)" "seg m (head_addr cs) cs 0"
proof -
  have "ld_head m fl = Some (head_addr (as @ b # cs))" "seg m (head_addr (as @ b # cs)) (as @ b # cs) 0"
    using free_storeD(1)[OF fs] by (auto simp: free_list_head)
  then obtain nx where s: "ld_head m fl = Some (head_addr (as @ b # cs))" "seg m (head_addr (as @ b # cs)) as (baddr b)"
    "ld_size m (baddr b) = Some (bsize b)" "ld_next m (baddr b) = Some nx" "seg m nx cs 0"
    by (auto simp: seg_append seg_Cons)
  moreover have "nx = head_addr cs" using seg_head[OF s(5)] .
  ultimately show "ld_head m fl = Some (head_addr (as @ b # cs))" "seg m (head_addr (as @ b # cs)) as (baddr b)"
    "ld_size m (baddr b) = Some (bsize b)" "ld_next m (baddr b) = Some (head_addr cs)" "seg m (head_addr cs) cs 0"
    by simp_all
qed

lemma store_apart:
  assumes fs: "free_store m fl (as @ b # cs) nf"
  shows "free_area as \<subseteq> - extent b" "free_area cs \<subseteq> - extent b" "{unat fl ..< unat fl + 8} \<subseteq> - extent b"
    "k \<le> 24 \<Longrightarrow> {unat (baddr b) + j ..< unat (baddr b) + k} \<subseteq> - (free_area as \<union> rng fl 16)"
proof -
  let ?xs = "as @ b # cs"
  have t: "tile (free_area ?xs) ?xs" and d: "free_area ?xs \<inter> rng fl 16 = {}"
    using fs by (auto simp: free_store_def)
  show as: "free_area as \<subseteq> - extent b" and "free_area cs \<subseteq> - extent b"
    using tile_areas_disjoint[OF t] tile_areas_disjoint[of _ "as @ [b]" cs] t by auto
  have "{unat fl ..< unat fl + 8} \<subseteq> rng fl 16" by (auto simp: rng_def)
  then show "{unat fl ..< unat fl + 8} \<subseteq> - extent b" using d by auto
  show "{unat (baddr b) + j ..< unat (baddr b) + k} \<subseteq> - (free_area as \<union> rng fl 16)" if "k \<le> 24"
    using interval_extent[OF that, of b j] as d by auto
qed

lemma rest_tile:
  assumes fs: "free_store m fl (as @ b # cs) nf" and n: "n \<le> bsize b"
  shows "tile (free_area (as @ b # cs)) (granted b n # as @ residue b n @ cs)"
    "tile (free_area (as @ residue b n @ cs)) (as @ residue b n @ cs)"
    "free_area (as @ residue b n @ cs) \<inter> rng fl 16 = {}"
proof -
  show tg: "tile (free_area (as @ b # cs)) (granted b n # as @ residue b n @ cs)"
    by (rule take_out_tile[OF _ n]) (use fs in \<open>simp add: free_store_def\<close>)
  show "tile (free_area (as @ residue b n @ cs)) (as @ residue b n @ cs)"
    by (rule tile_subset[OF tg]) (use tg in \<open>auto simp: tile_def\<close>)
  have "free_area (as @ residue b n @ cs) \<subseteq> free_area (as @ b # cs)"
    using tile_is_free_area[OF tg] by auto
  then show "free_area (as @ residue b n @ cs) \<inter> rng fl 16 = {}" using fs by (auto simp: free_store_def)
qed

lemma split_whole_ok:
  assumes fs: "free_store m fl (as @ b # cs) nf" and n: "n \<le> bsize b" "\<not> n + SIZEOF_NODE < bsize b"
  defines "w \<equiv> (if head_addr cs = 0 then head_addr (as @ cs) else head_addr cs)"
  obtains m' where "split_node m (baddr b) (last_addr 0 as) n fl = Some m'"
    "ld_head m' fl = Some (head_addr (as @ cs))" "seg m' (head_addr (as @ cs)) (as @ cs) 0"
    "ld_nextFree m' fl = Some w" "ld_size m' (baddr b) = Some (bsize b)"
    "same_on (- (free_area (as @ b # cs) \<union> rng fl 16)) m m'"
proof -
  note s = store_at[OF fs] and apart = store_apart(4)[OF fs]
  have ok: "\<forall>c \<in> set (as @ cs). node_ok m (baddr c)" "node_ok m (baddr b)" using free_storeD[OF fs] by auto
  have "residue b n = []" using n(2) by (simp add: residue_def)
  note t = rest_tile(2,3)[OF fs n(1), unfolded this append_Nil]
  obtain m4 m5 where m: "relink m fl (last_addr 0 as) (head_addr cs) = Some m4"
    "ld_head m4 fl = Some (head_addr (as @ cs))" "st_nextFree m4 fl w = Some m5"
    "ld_head m5 fl = Some (head_addr (as @ cs))" "seg m5 (head_addr (as @ cs)) (as @ cs) 0"
    "ld_nextFree m5 fl = Some w"
    "same_on (- (free_area as \<union> rng fl 16)) m m4" "same_on (- (free_area as \<union> rng fl 16)) m m5"
    unfolding w_def by (rule relink_rove_ok[OF free_storeD(2)[OF fs] s(1,2,5) ok(1) t])
  have "ld_next m4 (baddr b) = Some (head_addr cs)"
    using ld_frames(2)[OF m(7) ok(2)] s(4) apart[of 16 8] by simp
  then have "split_node m (baddr b) (last_addr 0 as) n fl = Some m5"
    using n(2) s(4) m(1-3) by (auto simp: split_node_eq[OF s(3)] w_def)
  moreover have "ld_size m5 (baddr b) = Some (bsize b)"
    using ld_frames(1)[OF m(8) ok(2)] s(3) apart[of 8 0] by simp
  moreover have "same_on (- (free_area (as @ b # cs) \<union> rng fl 16)) m m5"
    by (rule same_on_mono[OF m(8)]) auto
  ultimately show thesis using that m(4-6) by blast
qed

lemma split_cut_ok:
  assumes fs: "free_store m fl (as @ b # cs) nf" and n: "n \<le> bsize b" "n + SIZEOF_NODE < bsize b"
  defines "r \<equiv> Block (baddr b + SIZEOF_NODE + n) (bsize b - n - SIZEOF_NODE)"
  defines "w \<equiv> (if baddr r = 0 then head_addr (as @ r # cs) else baddr r)"
  obtains m' where "split_node m (baddr b) (last_addr 0 as) n fl = Some m'"
    "ld_head m' fl = Some (head_addr (as @ r # cs))" "seg m' (head_addr (as @ r # cs)) (as @ r # cs) 0"
    "ld_nextFree m' fl = Some w" "ld_size m' (baddr b) = Some n"
    "same_on (- (free_area (as @ b # cs) \<union> rng fl 16)) m m'"
proof -
  note s = store_at[OF fs] and apart = store_apart[OF fs]
  have ok: "\<forall>c \<in> set (as @ cs). node_ok m (baddr c)" "node_ok m (baddr b)" "block_ok b" "list_ok m fl"
    "valid m (baddr b) (24 + unat (bsize b))" using free_storeD[OF fs] by auto
  have "residue b n = [r]" using n(2) by (simp add: residue_def r_def)
  note t = rest_tile(2,3)[OF fs n(1), unfolded this append.simps]
  obtain m1 where m1: "carve m (baddr b) n = Some m1" "same_on (- extent b) m m1"
    "ld_size m1 (baddr r) = Some (bsize r)" "ld_next m1 (baddr r) = Some (head_addr cs)"
    "ld_size m1 (baddr b) = Some n" "node_ok m1 (baddr r)"
    using carve_ok[OF ok(2,5,3) s(3,4) n] by (auto simp: r_def)
  have l1: "list_ok m1 fl" "\<forall>c \<in> set (as @ r # cs). node_ok m1 (baddr c)" "node_ok m1 (baddr b)"
    using ok m1(6) list_ok_same_on[OF m1(2)] node_ok_same_on[OF m1(2)] by auto
  have h1: "ld_head m1 fl = Some (head_addr (as @ b # cs))"
    using ld_list_frames(1)[OF m1(2) ok(4)] apart(3) s(1) by simp
  have sa: "seg m1 (head_addr (as @ b # cs)) as (baddr b)"
    using seg_frame[OF m1(2), of as] ok(1) apart(1) s(2) by auto
  have "seg m1 (head_addr cs) cs 0" using seg_frame[OF m1(2), of cs] ok(1) apart(2) s(5) by auto
  then have sb: "seg m1 (baddr r) (r # cs) 0"
    using m1(3,4) node_ok_offsets(6)[OF m1(6)] by (auto simp: seg_Cons)
  obtain m4 m5 where m: "relink m1 fl (last_addr 0 as) (baddr r) = Some m4"
    "ld_head m4 fl = Some (head_addr (as @ r # cs))" "st_nextFree m4 fl w = Some m5"
    "ld_head m5 fl = Some (head_addr (as @ r # cs))" "seg m5 (head_addr (as @ r # cs)) (as @ r # cs) 0"
    "ld_nextFree m5 fl = Some w"
    "same_on (- (free_area as \<union> rng fl 16)) m1 m4" "same_on (- (free_area as \<union> rng fl 16)) m1 m5"
    unfolding w_def by (rule relink_rove_ok[OF l1(1) h1 sa sb l1(2) t])
  have "split_node m (baddr b) (last_addr 0 as) n fl = Some m5"
    using n(2) m1(1) m(1-3) by (auto simp: split_node_eq[OF s(3)] w_def r_def)
  moreover have "ld_size m5 (baddr b) = Some n"
    using ld_frames(1)[OF m(8) l1(3)] m1(5) apart(4)[of 8 0] by simp
  moreover have "same_on (- (free_area (as @ b # cs) \<union> rng fl 16)) m m5"
    by (rule same_on_mono[OF same_on_trans[OF m1(2) m(8)]]) auto
  ultimately show thesis using that m(4-6) by blast
qed

lemma split_node_ok:
  assumes fs: "free_store m fl (as @ b # cs) nf" and n: "n \<le> bsize b"
  defines "xs' \<equiv> as @ residue b n @ cs"
  defines "w \<equiv> (if head_addr (residue b n @ cs) = 0 then head_addr xs' else head_addr (residue b n @ cs))"
  obtains m' where "split_node m (baddr b) (last_addr 0 as) n fl = Some m'"
    "ld_head m' fl = Some (head_addr xs')" "seg m' (head_addr xs') xs' 0"
    "ld_nextFree m' fl = Some w"
    "ld_size m' (baddr b) = Some (bsize (granted b n))"
    "same_on (- (free_area (as @ b # cs) \<union> rng fl 16)) m m'"
proof (cases "n + SIZEOF_NODE < bsize b")
  case True
  have h: "head_addr (c # ds) = baddr c" for c ds by (simp add: head_addr_def)
  show thesis
    by (rule split_cut_ok[OF fs n True], rule that)
      (use True in \<open>simp_all add: xs'_def w_def residue_def granted_def h\<close>)
next
  case False
  show thesis
    by (rule split_whole_ok[OF fs n False], rule that)
      (use False in \<open>simp_all add: xs'_def w_def residue_def granted_def\<close>)
qed


section \<open>Taking a block\<close>

text \<open>The header of a block that is handed out.\<close>

definition allocated :: "memory \<Rightarrow> block \<Rightarrow> bool" where
  "allocated m b \<longleftrightarrow> ld_size m (baddr b) = Some (bsize b)
     \<and> ld_magic m (baddr b) = Some MAGIC_NUMBER \<and> ld_isFreed m (baddr b) = Some 0"

lemma allocated_frame:
  assumes "same_on A m m'" "node_ok m (baddr b)" "rng (baddr b) 24 \<subseteq> A"
  shows "allocated m' b = allocated m b"
proof -
  have "{unat (baddr b) + j ..< unat (baddr b) + k} \<subseteq> A" if "k \<le> 24" for j k
    using assms(3) that by (auto simp: rng_def subset_iff)
  from this[of 8 0] this[of 20 16] this[of 24 20] show ?thesis
    using ld_frames[OF assms(1,2)] by (simp add: allocated_def)
qed

lemma head_addr_in: "head_addr xs = 0 \<or> head_addr xs \<in> baddr ` set xs"
  by (cases xs) (auto simp: head_addr_def)

lemma free_store_frame:
  assumes fs: "free_store m fl xs nf" and so: "same_on A m m'"
    and A: "free_area xs \<subseteq> A" "rng fl 16 \<subseteq> A"
  shows "free_store m' fl xs nf"
proof -
  have ok: "\<forall>b \<in> set xs. node_ok m (baddr b)" "list_ok m fl" using free_storeD[OF fs] by auto
  have i: "{unat fl ..< unat fl + 8} \<subseteq> A" "{unat fl + 8 ..< unat fl + 16} \<subseteq> A"
    using A(2) by (auto simp: rng_def subset_iff)
  have "free_list m' fl xs nf"
    using free_storeD(1)[OF fs] ld_list_frames(1)[OF so ok(2) i(1)] ld_list_frames(2)[OF so ok(2) i(2)]
      seg_frame[OF so ok(1) A(1)]
    by (simp add: free_list_head)
  then show ?thesis
    using fs list_ok_same_on[OF so] same_on_valid[OF so] by (auto simp: free_store_def)
qed

text \<open>The list after a block is taken out of it, while the block's header is not marked yet.\<close>

lemma taken_store:
  assumes fs: "free_store m fl (as @ b # cs) nf" and n: "n \<le> bsize b"
    and so: "same_on (- (free_area (as @ b # cs) \<union> rng fl 16)) m m'"
    and l: "ld_head m' fl = Some (head_addr (as @ residue b n @ cs))"
      "seg m' (head_addr (as @ residue b n @ cs)) (as @ residue b n @ cs) 0" "ld_nextFree m' fl = Some w"
    and w: "w = 0 \<or> w \<in> baddr ` set (as @ residue b n @ cs)"
  shows "free_store m' fl (as @ residue b n @ cs) w"
  unfolding free_store_def
proof (intro conjI ballI)
  let ?xs' = "as @ residue b n @ cs"
  note t = rest_tile[OF fs n]
  show "free_list m' fl ?xs' w" using l w tile_distinct_fst[OF t(2)] by (simp add: free_list_head)
  show "list_ok m' fl" using list_ok_same_on[OF so] free_storeD(2)[OF fs] by simp
  fix c assume c: "c \<in> set ?xs'"
  show "valid m' (baddr c) (24 + unat (bsize c))"
  proof (cases "c \<in> set (residue b n)")
    case True
    have b: "b \<in> set (as @ b # cs)" by simp
    have "extent c \<subseteq> extent b"
      using True granted_residue(1)[OF free_storeD(7)[OF fs b] n] tile_sub[of "extent b" _ c] by simp
    then have "unat (baddr b) \<le> unat (baddr c)"
      "unat (baddr c) + 24 + unat (bsize c) \<le> unat (baddr b) + 24 + unat (bsize b)"
      by (auto simp: extent_def)
    then show ?thesis
      using valid_sub[OF free_storeD(4)[OF fs b], of "baddr c" "24 + unat (bsize c)"]
        same_on_valid[OF so] by simp
  next
    case False
    then have "c \<in> set (as @ b # cs)" using c by auto
    then show ?thesis using free_storeD(4)[OF fs] same_on_valid[OF so] by simp
  qed
qed (rule rest_tile[OF fs n])+

lemma mark_ok:
  assumes "node_ok m (baddr b)" "ld_size m (baddr b) = Some (bsize b)"
  obtains m1 m2 where "st_magic m (baddr b) MAGIC_NUMBER = Some m1" "st_isFreed m1 (baddr b) 0 = Some m2"
    "allocated m2 b" "same_on (- {unat (baddr b) + 16 ..< unat (baddr b) + 24}) m m2"
proof -
  obtain m1 where m1: "st_magic m (baddr b) MAGIC_NUMBER = Some m1" "ld_magic m1 (baddr b) = Some MAGIC_NUMBER"
    "same_on (- {unat (baddr b) + 16 ..< unat (baddr b) + 20}) m m1"
    using st_magic_ok[OF assms(1)] .
  have k1: "node_ok m1 (baddr b)" using assms(1) node_ok_same_on[OF m1(3)] by simp
  obtain m2 where m2: "st_isFreed m1 (baddr b) 0 = Some m2" "ld_isFreed m2 (baddr b) = Some 0"
    "same_on (- {unat (baddr b) + 20 ..< unat (baddr b) + 24}) m1 m2"
    using st_isFreed_ok[OF k1] .
  have "allocated m2 b"
    using ld_frames(1)[OF m1(3) assms(1)] ld_frames(1,3)[OF m2(3) k1] assms(2) m1(2) m2(2)
    by (simp add: allocated_def)
  moreover have "same_on (- {unat (baddr b) + 16 ..< unat (baddr b) + 24}) m m2"
    by (rule same_on_mono[OF same_on_trans[OF m1(3) m2(3)]]) auto
  ultimately show thesis using that m1(1) m2(1) by blast
qed

lemma take_block_ok:
  assumes fs: "free_store m fl xs nf" and b: "b \<in> set xs" and n: "n \<le> bsize b"
  obtains m' where
    "take_block m (baddr b) (prev_addr 0 (baddr b) xs) n fl = Some (baddr b + SIZEOF_NODE, m')"
    "free_store m' fl (take_out b n xs) (rover b n xs)"
    "allocated m' (granted b n)"
    "same_on (- (free_area xs \<union> rng fl 16)) m m'"
proof -
  obtain as cs where xs: "xs = as @ b # cs" using b by (auto dest: split_list)
  let ?xs' = "as @ residue b n @ cs"
  have new: "baddr b \<notin> baddr ` set as"
    using tile_distinct_fst[OF free_storeD(3)[OF fs]] unfolding xs by auto
  have out: "take_out b n xs = ?xs'" and pv: "prev_addr 0 (baddr b) xs = last_addr 0 as"
    unfolding xs by (simp_all add: take_out_append prev_addr_append new)
  have rv: "rover b n xs = (if head_addr (residue b n @ cs) = 0 then head_addr ?xs'
      else head_addr (residue b n @ cs))"
    unfolding rover_def out by (simp add: xs next_after_append new Let_def)
  obtain m1 where m1: "split_node m (baddr b) (last_addr 0 as) n fl = Some m1"
    "ld_head m1 fl = Some (head_addr ?xs')" "seg m1 (head_addr ?xs') ?xs' 0"
    "ld_nextFree m1 fl = Some (rover b n xs)" "ld_size m1 (baddr b) = Some (bsize (granted b n))"
    "same_on (- (free_area xs \<union> rng fl 16)) m m1"
    using split_node_ok[OF fs[unfolded xs] n, folded rv xs] .
  have fs1: "free_store m1 fl ?xs' (rover b n xs)"
    using head_addr_in[of "residue b n @ cs"] head_addr_in[of ?xs'] unfolding rv
    by (intro taken_store[OF fs[unfolded xs] n m1(6)[unfolded xs] m1(2-4)[unfolded rv]]) auto
  have "node_ok m1 (baddr (granted b n))"
    using free_storeD(5)[OF fs b] node_ok_same_on[OF m1(6)] by simp
  from mark_ok[OF this] m1(5)
  obtain m2 m3 where m3: "st_magic m1 (baddr b) MAGIC_NUMBER = Some m2" "st_isFreed m2 (baddr b) 0 = Some m3"
    "allocated m3 (granted b n)" "same_on (- {unat (baddr b) + 16 ..< unat (baddr b) + 24}) m1 m3"
    by auto
  have hb: "{unat (baddr b) + 16 ..< unat (baddr b) + 24} \<subseteq> extent (granted b n)"
    by (auto simp: extent_def)
  note tg = rest_tile(1)[OF fs[unfolded xs] n, folded xs]
  have gr: "extent (granted b n) \<inter> free_area ?xs' = {}" "extent (granted b n) \<subseteq> free_area xs"
    using tile_areas_disjoint[of "free_area xs" "[granted b n]" ?xs'] tg by (simp_all add: tile_Cons)
  then have "free_store m3 fl ?xs' (rover b n xs)"
    using hb fs by (intro free_store_frame[OF fs1 m3(4)]) (auto simp: free_store_def)
  moreover have "same_on (- (free_area xs \<union> rng fl 16)) m m3"
    using hb gr(2) by (intro same_on_mono[OF same_on_trans[OF m1(6) m3(4)]]) auto
  ultimately show thesis
    using that[of m3] m1(1) m3(1-3) out pv by (simp add: take_block_def)
qed

section \<open>The contract of a placement strategy\<close>

text \<open>
  A strategy is a function on memory and a choice function on block lists. Its laws: the
  function takes exactly the chosen block, the choice is a block of the list that fits, and
  there is a choice whenever some block fits.
\<close>

locale fit_strategy =
  fixes fit :: "memory \<Rightarrow> addr \<Rightarrow> size_t \<Rightarrow> (addr \<times> memory) option"
    and pick :: "size_t \<Rightarrow> addr \<Rightarrow> block list \<Rightarrow> block option"
  assumes fit_pick: "free_list m fl xs nf \<Longrightarrow> fit m fl n = fit_result m fl n xs (pick n nf xs)"
    and pick_fits: "pick n nf xs = Some b \<Longrightarrow> b \<in> set xs \<and> n \<le> bsize b"
    and pick_None: "pick n nf xs = None \<longleftrightarrow> (\<forall>b \<in> set xs. bsize b < n)"
begin

lemma fit_none:
  assumes "free_store m fl xs nf" "\<forall>b \<in> set xs. bsize b < n"
  shows "fit m fl n = Some (0, m)"
  using fit_pick[OF free_storeD(1)[OF assms(1)], of n] iffD2[OF pick_None assms(2)]
  by (simp add: fit_result_def)

lemma fit_some:
  assumes "free_store m fl xs nf" "pick n nf xs = Some b"
  obtains m' where "fit m fl n = Some (baddr b + SIZEOF_NODE, m')"
    "free_store m' fl (take_out b n xs) (rover b n xs)" "allocated m' (granted b n)"
    "same_on (- (free_area xs \<union> rng fl 16)) m m'"
  using take_block_ok[OF assms(1), of b n] pick_fits[OF assms(2)]
    fit_pick[OF free_storeD(1)[OF assms(1)], of n] assms(2)
  by (auto simp: fit_result_def)

lemma fit_total:
  assumes "free_store m fl xs nf"
  shows "\<exists>r. fit m fl n = Some r"
proof (cases "pick n nf xs")
  case None
  then show ?thesis using fit_none[OF assms] pick_None by auto
next
  case (Some b)
  then show ?thesis using fit_some[OF assms Some] by blast
qed

end

interpretation best: fit_strategy bestFit "select BEST_FIT"
  by unfold_locales (auto dest: bestFit_eq select_Some simp: select_None simp del: select.simps)

interpretation worst: fit_strategy worstFit "select WORST_FIT"
  by unfold_locales (auto dest: worstFit_eq select_Some simp: select_None simp del: select.simps)

interpretation first: fit_strategy firstFit "select FIRST_FIT"
  by unfold_locales (auto dest: firstFit_eq select_Some simp: select_None simp del: select.simps)

interpretation nxt: fit_strategy nextFit "select NEXT_FIT"
  by unfold_locales (auto dest: nextFit_eq select_Some simp: select_None simp del: select.simps)

end
