(* ===== verification/HeapAllocator.thy ===== *)
theory HeapAllocator
  imports FreeListUpdate
begin

text \<open>
  \<^verbatim>\<open>sharedMalloc/src/heapAllocator.c\<close>: the allocator's static variables as a record, and its
  entry points. The operating system is a parameter (\<open>os\<close>): the page size and the answer of
  \<^verbatim>\<open>mmap\<close>. The mutex is opaque; the model keeps whether it is held, and locking a mutex that the
  caller holds does not return (\<open>None\<close>).
\<close>

section \<open>State\<close>

record heap_state =
  mem :: memory
  heapBlockHeader :: addr
  p_sharedFreeList :: addr
  mutex :: addr
  heapCapacity :: size_t
  mutex_held :: bool
  messages :: "string list"

record os =
  page_size :: int
  mmap :: "size_t \<Rightarrow> addr option"

definition say :: "string \<Rightarrow> heap_state \<Rightarrow> heap_state" where
  "say msg s = s\<lparr>messages := messages s @ [msg]\<rparr>"

definition pthread_mutex_lock :: "heap_state \<Rightarrow> heap_state option" where
  "pthread_mutex_lock s = (if mutex_held s then None else Some (s\<lparr>mutex_held := True\<rparr>))"

definition pthread_mutex_unlock :: "heap_state \<Rightarrow> heap_state option" where
  "pthread_mutex_unlock s = Some (s\<lparr>mutex_held := False\<rparr>)"

definition getHeapAddress :: "heap_state \<Rightarrow> addr \<Rightarrow> size_t" where
  "getHeapAddress s ptr = ptr - heapBlockHeader s"

section \<open>InitMyMalloc and unInitMyMalloc\<close>

text \<open>The rounding of the requested size; \<open>None\<close> when the \<^verbatim>\<open>int\<close> arithmetic overflows.\<close>

definition INT_MAX :: int where "INT_MAX = 2147483647"

definition round_heap_size :: "int \<Rightarrow> int \<Rightarrow> int option" where
  "round_heap_size page heapSize =
     (if heapSize mod page \<noteq> 0
      then let r = (1 + heapSize div page) * page in if r \<le> INT_MAX then Some r else None
      else Some heapSize)"

text \<open>An anonymous mapping is a fresh zero-filled region.\<close>

definition map_region :: "memory \<Rightarrow> addr \<Rightarrow> nat \<Rightarrow> memory" where
  "map_region m a n = m\<lparr>content := (\<lambda>x. if unat (x - a) < n then 0 else content m x),
                        mapped := (a, n) # mapped m\<rparr>"

text \<open>
  \<open>stk\<close> is where the local variable \<^verbatim>\<open>freeList\<close> of \<^verbatim>\<open>InitMyMalloc\<close> lives. The sizes of
  \<^verbatim>\<open>FreeList\<close> and \<^verbatim>\<open>pthread_mutex_t\<close> are those of 64-bit Linux.
\<close>

abbreviation SIZEOF_FREELIST :: "64 word" where "SIZEOF_FREELIST \<equiv> 16"
abbreviation SIZEOF_MUTEX :: "64 word" where "SIZEOF_MUTEX \<equiv> 40"

definition init_heap ::
  "addr \<Rightarrow> addr \<Rightarrow> int \<Rightarrow> heap_state \<Rightarrow> heap_state option" where
  "init_heap stk heap heapSize s = do {
     let m = map_region (mem s) heap (nat heapSize);
     m \<leftarrow> st_size m heap (word_of_int heapSize - SIZEOF_NODE);
     m \<leftarrow> st_next m heap 0;
     m \<leftarrow> st_head m stk heap;
     m \<leftarrow> st_nextFree m stk heap;
     (p, m) \<leftarrow> firstFit m stk SIZEOF_FREELIST;
     h \<leftarrow> ld_head m stk;
     m \<leftarrow> st_head m p h;
     n \<leftarrow> ld_nextFree m stk;
     m \<leftarrow> st_nextFree m p n;
     (mx, m) \<leftarrow> firstFit m p SIZEOF_MUTEX;
     if mx = 0 then None \<comment> \<open>\<^verbatim>\<open>pthread_mutex_init(NULL, NULL)\<close>\<close>
     else Some (s\<lparr>mem := m, heapBlockHeader := heap, p_sharedFreeList := p, mutex := mx,
             heapCapacity := word_of_int heapSize, mutex_held := False\<rparr>)
   }"

definition InitMyMalloc ::
  "os \<Rightarrow> addr \<Rightarrow> int \<Rightarrow> heap_state \<Rightarrow> (int \<times> heap_state) option" where
  "InitMyMalloc w stk heapSize s =
     (if heapBlockHeader s \<noteq> 0 then Some (-1, say ''Heap is already initialized'' s)
      else if heapSize \<le> 0 then Some (-1, say ''Invalid heap size'' s)
      else do {
        heapSize \<leftarrow> round_heap_size (page_size w) heapSize;
        case mmap w (word_of_int heapSize) of
          None \<Rightarrow> Some (-1, say ''Failed to allocate heap'' s)
        | Some heap \<Rightarrow> do { s \<leftarrow> init_heap stk heap heapSize s; Some (0, s) }
      })"

definition unmap_region :: "memory \<Rightarrow> addr \<Rightarrow> nat \<Rightarrow> memory" where
  "unmap_region m a n = m\<lparr>mapped := removeAll (a, n) (mapped m)\<rparr>"

definition unInitMyMalloc :: "heap_state \<Rightarrow> heap_state" where
  "unInitMyMalloc s =
     (if heapBlockHeader s = 0 then say ''Heap is not initialized'' s
      else s\<lparr>mem := unmap_region (mem s) (heapBlockHeader s) (unat (heapCapacity s)),
             heapBlockHeader := 0, p_sharedFreeList := 0, heapCapacity := 0, mutex := 0\<rparr>)"

section \<open>MyMalloc\<close>

fun strategy_code :: "Strategy \<Rightarrow> int" where
  "strategy_code BEST_FIT = 0"
| "strategy_code WORST_FIT = 1"
| "strategy_code FIRST_FIT = 2"
| "strategy_code NEXT_FIT = 3"

definition MyMalloc :: "size_t \<Rightarrow> int \<Rightarrow> heap_state \<Rightarrow> (addr \<times> heap_state) option" where
  "MyMalloc siz strategy s =
     (if heapBlockHeader s = 0 then Some (0, say ''Heap is not initialized'' s)
      else do {
        s \<leftarrow> pthread_mutex_lock s;
        (returnPtr, m) \<leftarrow>
          (if strategy = strategy_code BEST_FIT then bestFit (mem s) (p_sharedFreeList s) siz
           else if strategy = strategy_code WORST_FIT then worstFit (mem s) (p_sharedFreeList s) siz
           else if strategy = strategy_code FIRST_FIT then firstFit (mem s) (p_sharedFreeList s) siz
           else if strategy = strategy_code NEXT_FIT then nextFit (mem s) (p_sharedFreeList s) siz
           else Some (0, mem s));
        s \<leftarrow> pthread_mutex_unlock (s\<lparr>mem := m\<rparr>);
        Some (returnPtr, s)
      })"

section \<open>MyFree\<close>

text \<open>The search for the neighbours of the freed block: the final \<^verbatim>\<open>current\<close> and \<^verbatim>\<open>previous\<close>.\<close>

partial_function (option) free_scan ::
  "memory \<Rightarrow> addr \<Rightarrow> addr \<Rightarrow> addr \<Rightarrow> (addr \<times> addr) option" where
  "free_scan m block current previous =
     (if current = 0 then Some (current, previous)
      else if current > block then Some (current, previous)
      else do {
        nx \<leftarrow> ld_next m current;
        if nx = 0 then Some (current, previous) else free_scan m block nx current
      })"

declare free_scan.simps [code]

text \<open>
  \<^verbatim>\<open>if(current == nextFreeBlock && coalescedBlock->next != current) nextFreeBlock = coalescedBlock;\<close>
\<close>

definition fix_rover :: "memory \<Rightarrow> addr \<Rightarrow> addr \<Rightarrow> addr \<Rightarrow> memory option" where
  "fix_rover m fl current coalesced = do {
     nf \<leftarrow> ld_nextFree m fl;
     if current = nf then do {
       cn \<leftarrow> ld_next m coalesced;
       if cn \<noteq> current then st_nextFree m fl coalesced else Some m
     } else Some m
   }"

definition free_insert :: "memory \<Rightarrow> addr \<Rightarrow> addr \<Rightarrow> memory option" where
  "free_insert m fl block = do {
     h \<leftarrow> ld_head m fl;
     (current, previous) \<leftarrow> free_scan m block h 0;
     if previous = 0 then do {
       h \<leftarrow> ld_head m fl;
       m \<leftarrow> st_next m block h;
       m \<leftarrow> st_head m fl block;
       (c, m) \<leftarrow> coalesceFreeList m block previous current;
       fix_rover m fl current c
     } else if current = 0 then do {
       m \<leftarrow> st_next m previous block;
       m \<leftarrow> st_next m block 0;
       (c, m) \<leftarrow> coalesceFreeList m block previous current;
       Some m
     } else do {
       m \<leftarrow> st_next m previous block;
       m \<leftarrow> st_next m block current;
       (c, m) \<leftarrow> coalesceFreeList m block previous current;
       fix_rover m fl current c
     }
   }"

definition MyFree :: "addr \<Rightarrow> heap_state \<Rightarrow> (int \<times> heap_state) option" where
  "MyFree ptr s =
     (if heapBlockHeader s = 0 then Some (-1, say ''Heap is not initialized'' s)
      else do {
        s \<leftarrow> pthread_mutex_lock s;
        if ptr = 0 then do {
          s \<leftarrow> pthread_mutex_unlock (say ''Invalid pointer'' s);
          Some (-1, s)
        } else do {
          let block = ptr - SIZEOF_NODE;
          if block < heapBlockHeader s \<or> block > heapBlockHeader s + heapCapacity s then do {
            s \<leftarrow> pthread_mutex_unlock (say ''Invalid pointer'' s);
            Some (-1, s)
          } else do {
            magic \<leftarrow> ld_magic (mem s) block;
            freed \<leftarrow> (if magic \<noteq> MAGIC_NUMBER then Some True
                      else do { f \<leftarrow> ld_isFreed (mem s) block; Some (f = 1) });
            if freed then do {
              s \<leftarrow> pthread_mutex_unlock (say ''Invalid pointer'' s);
              Some (-1, s)
            } else do {
              m \<leftarrow> st_isFreed (mem s) block 1;
              h \<leftarrow> ld_head m (p_sharedFreeList s);
              if h = 0 then do {
                m \<leftarrow> st_head m (p_sharedFreeList s) block;
                m \<leftarrow> st_next m block 0;
                s \<leftarrow> pthread_mutex_unlock (s\<lparr>mem := m\<rparr>);
                Some (0, s)
              } else do {
                m \<leftarrow> free_insert m (p_sharedFreeList s) block;
                s \<leftarrow> pthread_mutex_unlock (s\<lparr>mem := m\<rparr>);
                Some (0, s)
              }
            }
          }
        }
      })"

section \<open>DumpFreeList\<close>

text \<open>A printed line: offset, size, and whether it is reported as \<^verbatim>\<open>Free\<close> or \<^verbatim>\<open>Full\<close>.\<close>

datatype dump_line = Free_line "64 word" size_t | Full_line "64 word" size_t

partial_function (option) dump_loop ::
  "memory \<Rightarrow> addr \<Rightarrow> addr \<Rightarrow> dump_line list \<Rightarrow> (addr \<times> dump_line list) option" where
  "dump_loop m offset current out = do {
     nx \<leftarrow> ld_next m current;
     if nx = 0 then Some (current, out)
     else do {
       sz \<leftarrow> ld_size m current;
       dump_loop m offset nx
         (out @ [Free_line (current - offset) (sz + SIZEOF_NODE),
                 Full_line (current + sz + SIZEOF_NODE - offset)
                           (nx - (current + sz + SIZEOF_NODE))])
     }
   }"

declare dump_loop.simps [code]

definition DumpFreeList :: "heap_state \<Rightarrow> (dump_line list \<times> heap_state) option" where
  "DumpFreeList s =
     (if heapBlockHeader s = 0 then Some ([], say ''Heap is not initialized'' s)
      else do {
        s \<leftarrow> pthread_mutex_lock s;
        h \<leftarrow> ld_head (mem s) (p_sharedFreeList s);
        let offset = heapBlockHeader s;
        if h = 0 then do {
          s \<leftarrow> pthread_mutex_unlock s;
          Some ([Full_line 0 (heapCapacity s)], s)
        } else do {
          let out = (if h > heapBlockHeader s then [Full_line 0 (h - offset)] else []);
          (current, out) \<leftarrow> dump_loop (mem s) offset h out;
          sz \<leftarrow> ld_size (mem s) current;
          let out = out @ [Free_line (current - offset) (sz + SIZEOF_NODE)];
          let out = (if current + sz + SIZEOF_NODE < heapBlockHeader s + heapCapacity s
                     then out @ [Full_line (current + sz - offset + SIZEOF_NODE)
                                   (heapCapacity s - (current - offset + sz + SIZEOF_NODE))]
                     else out);
          s \<leftarrow> pthread_mutex_unlock s;
          Some (out, s)
        }
      })"

section \<open>The heap invariant\<close>

text \<open>
  \<open>heap_inv s nf xs us\<close>: the free blocks \<open>xs\<close> and the allocated blocks \<open>us\<close> tile the heap,
  the free list in memory is \<open>xs\<close>, the allocated blocks carry valid headers, and the allocator's
  own list structure and mutex are two of the allocated blocks.
\<close>

definition heap_area :: "heap_state \<Rightarrow> nat set" where
  "heap_area s = {unat (heapBlockHeader s) ..< unat (heapBlockHeader s) + unat (heapCapacity s)}"

definition list_block :: "heap_state \<Rightarrow> block" where
  "list_block s = Block (p_sharedFreeList s - SIZEOF_NODE) SIZEOF_FREELIST"

definition mutex_block :: "heap_state \<Rightarrow> block" where
  "mutex_block s = Block (mutex s - SIZEOF_NODE) SIZEOF_MUTEX"

definition heap_inv :: "heap_state \<Rightarrow> addr \<Rightarrow> block list \<Rightarrow> block list \<Rightarrow> bool" where
  "heap_inv s nf xs us \<longleftrightarrow>
     heapBlockHeader s \<noteq> 0 \<and> \<not> mutex_held s
     \<and> valid (mem s) (heapBlockHeader s) (unat (heapCapacity s))
     \<and> free_store (mem s) (p_sharedFreeList s) xs nf
     \<and> tile (heap_area s) (xs @ us)
     \<and> (\<forall>b \<in> set us. allocated (mem s) b)
     \<and> list_block s \<in> set us \<and> mutex_block s \<in> set us
     \<and> list_block s \<noteq> mutex_block s"

definition payload :: "block \<Rightarrow> nat set" where
  "payload b = {unat (baddr b) + 24 ..< unat (baddr b) + 24 + unat (bsize b)}"


lemma tile_free_area_sub: "tile A (xs @ us) \<Longrightarrow> free_area xs \<subseteq> A"
  using tile_is_free_area[of A "xs @ us"] by auto

lemma list_block_payload:
  assumes "heap_inv s nf xs us"
  shows "rng (p_sharedFreeList s) 16 = payload (list_block s)"
proof -
  have "block_ok (list_block s)"
    using assms by (auto simp: heap_inv_def intro: tile_block_ok)
  then have "unat (p_sharedFreeList s - SIZEOF_NODE) + 24 < 2 ^ 64"
    by (simp add: block_ok_def list_block_def)
  then have "unat ((p_sharedFreeList s - SIZEOF_NODE) + SIZEOF_NODE) = unat (p_sharedFreeList s - SIZEOF_NODE) + 24"
    by (subst unat_add_no_wrap) auto
  then show ?thesis by (simp add: rng_def payload_def list_block_def)
qed

lemma payload_extent: "payload b \<subseteq> extent b"
  by (auto simp: payload_def extent_def)

lemma header_payload: "rng (baddr b) 24 \<inter> payload b = {}" "rng (baddr b) 24 \<union> payload b = extent b"
  by (auto simp: rng_def payload_def extent_def)

text \<open>Everything an allocation or a free writes is apart from the other allocated blocks.\<close>

lemma allocated_apart:
  assumes inv: "heap_inv s nf xs us" and c: "c \<in> set us"
  shows "extent c \<inter> free_area xs = {}"
    and "rng (baddr c) 24 \<inter> rng (p_sharedFreeList s) 16 = {}"
    and "c \<noteq> list_block s \<Longrightarrow> extent c \<inter> rng (p_sharedFreeList s) 16 = {}"
    and "node_ok (mem s) (baddr c)"
    and "block_ok c"
    and "valid (mem s) (baddr c) (24 + unat (bsize c))"
proof -
  have t: "tile (heap_area s) (xs @ us)" and lb: "list_block s \<in> set us"
    and v: "valid (mem s) (heapBlockHeader s) (unat (heapCapacity s))"
    and wf: "wf_memory (mem s)"
    using inv by (auto simp: heap_inv_def free_store_def list_ok_def)
  have "free_area us \<inter> free_area xs = {}" using tile_areas_disjoint[OF t] by blast
  then show "extent c \<inter> free_area xs = {}" using extent_free_area[OF c] by blast
  note lp = list_block_payload[OF inv]
  show ne: "extent c \<inter> rng (p_sharedFreeList s) 16 = {}" if "c \<noteq> list_block s"
    using tile_disjoint[OF t _ _ that] c lb payload_extent[of "list_block s"] unfolding lp by auto
  show "rng (baddr c) 24 \<inter> rng (p_sharedFreeList s) 16 = {}"
  proof (cases "c = list_block s")
    case True then show ?thesis using header_payload(1) lp by metis
  next
    case False then show ?thesis using ne header_payload(2)[of c] by blast
  qed
  show "block_ok c" using tile_block_ok[OF t] c by simp
  have "extent c \<subseteq> heap_area s" using tile_sub[OF t] c by simp
  then show v24: "valid (mem s) (baddr c) (24 + unat (bsize c))"
    by (intro valid_sub[OF v]) (auto simp: extent_def heap_area_def)
  then show "node_ok (mem s) (baddr c)"
    using wf valid_sub[OF v24, of "baddr c" 24] by (simp add: node_ok_def)
qed

lemma allocated_kept:
  assumes inv: "heap_inv s nf xs us" and c: "c \<in> set us"
    and so: "same_on (- (free_area xs \<union> rng (p_sharedFreeList s) 16)) (mem s) m'"
  shows "allocated m' c"
  using allocated_apart(1,2)[OF inv c] header_payload(2)[of c] inv c
    allocated_frame[OF so allocated_apart(4)[OF inv c]]
  by (auto simp: heap_inv_def)

lemma payload_kept:
  assumes inv: "heap_inv s nf xs us" and c: "c \<in> set us" "c \<noteq> list_block s"
    and so: "same_on (- (free_area xs \<union> rng (p_sharedFreeList s) 16)) (mem s) m'"
    and x: "unat x \<in> payload c"
  shows "content m' x = content (mem s) x"
  using allocated_apart(1,3)[OF inv c(1)] c(2) payload_extent[of c] x so
  by (auto simp: same_on_def)

context fit_strategy
begin

text \<open>Every strategy keeps the heap invariant and the payloads of the allocated blocks.\<close>

lemma fit_heap_inv:
  assumes inv: "heap_inv s nf xs us" and pk: "pick n nf xs = Some b"
  obtains m' where "fit (mem s) (p_sharedFreeList s) n = Some (baddr b + SIZEOF_NODE, m')"
    "heap_inv (s\<lparr>mem := m'\<rparr>) (rover b n xs) (take_out b n xs) (granted b n # us)"
    "same_on (- (free_area xs \<union> rng (p_sharedFreeList s) 16)) (mem s) m'"
proof -
  have fs: "free_store (mem s) (p_sharedFreeList s) xs nf"
    and t: "tile (heap_area s) (xs @ us)" using inv by (auto simp: heap_inv_def)
  obtain m' where m': "fit (mem s) (p_sharedFreeList s) n = Some (baddr b + SIZEOF_NODE, m')"
    "free_store m' (p_sharedFreeList s) (take_out b n xs) (rover b n xs)" "allocated m' (granted b n)"
    "same_on (- (free_area xs \<union> rng (p_sharedFreeList s) 16)) (mem s) m'"
    using fit_some[OF fs pk] .
  have b: "b \<in> set xs" "n \<le> bsize b" using pick_fits[OF pk] by auto
  then obtain as cs where xs: "xs = as @ b # cs" by (auto dest: split_list)
  have "baddr b \<notin> baddr ` set as" using tile_distinct_fst[OF t] xs by auto
  then have out: "take_out b n xs = as @ residue b n @ cs" by (simp add: xs take_out_append)
  have "tile (heap_area s) (granted b n # as @ residue b n @ cs @ us)"
    using take_out_tile[of "heap_area s" as b "cs @ us" n] t b(2) xs by simp
  then have t': "tile (heap_area s) (take_out b n xs @ granted b n # us)"
    by (rule iffD1[OF tile_mset, rotated]) (simp add: out)
  have "\<forall>c \<in> set (granted b n # us). allocated m' c"
    using allocated_kept[OF inv _ m'(4)] m'(3) by simp
  with m' t' inv same_on_valid[OF m'(4)] show thesis
    by (intro that[of m']) (auto simp: heap_inv_def heap_area_def list_block_def mutex_block_def)
qed

end

end
