(* ===== verification/MallocProps.thy ===== *)
theory MallocProps
  imports HeapAllocator
begin

text \<open>
  \<^verbatim>\<open>InitMyMalloc\<close> establishes the heap invariant and \<^verbatim>\<open>MyMalloc\<close> keeps it under every strategy;
  the functional behaviour of \<^verbatim>\<open>MyMalloc\<close> on every branch.
\<close>

section \<open>MyMalloc\<close>

lemma MyMalloc_eq:
  assumes "heapBlockHeader s \<noteq> 0" "\<not> mutex_held s"
  shows "MyMalloc n (strategy_code st) s =
    (case (case st of
        BEST_FIT \<Rightarrow> bestFit (mem s) (p_sharedFreeList s) n
      | WORST_FIT \<Rightarrow> worstFit (mem s) (p_sharedFreeList s) n
      | FIRST_FIT \<Rightarrow> firstFit (mem s) (p_sharedFreeList s) n
      | NEXT_FIT \<Rightarrow> nextFit (mem s) (p_sharedFreeList s) n) of
       None \<Rightarrow> None | Some (p, m) \<Rightarrow> Some (p, s\<lparr>mem := m\<rparr>))"
  using assms
  by (cases st) (auto simp: MyMalloc_def pthread_mutex_lock_def pthread_mutex_unlock_def split: option.splits)

lemma heap_inv_ready: "heap_inv s nf xs us \<Longrightarrow> heapBlockHeader s \<noteq> 0 \<and> \<not> mutex_held s"
  by (simp add: heap_inv_def)

lemma MyMalloc_success:
  assumes inv: "heap_inv s nf xs us" and sel: "select st n nf xs = Some b"
  obtains s' where "MyMalloc n (strategy_code st) s = Some (baddr b + SIZEOF_NODE, s')"
    "heap_inv s' (rover b n xs) (take_out b n xs) (granted b n # us)"
    "same_on (- (free_area xs \<union> rng (p_sharedFreeList s) 16)) (mem s) (mem s')"
    "list_block s' = list_block s" "mutex_block s' = mutex_block s" "heapBlockHeader s' = heapBlockHeader s"
proof -
  note eq = MyMalloc_eq[OF heap_inv_ready[OF inv, THEN conjunct1] heap_inv_ready[OF inv, THEN conjunct2], of n st]
  have "\<exists>m'. (case st of
        BEST_FIT \<Rightarrow> bestFit (mem s) (p_sharedFreeList s) n
      | WORST_FIT \<Rightarrow> worstFit (mem s) (p_sharedFreeList s) n
      | FIRST_FIT \<Rightarrow> firstFit (mem s) (p_sharedFreeList s) n
      | NEXT_FIT \<Rightarrow> nextFit (mem s) (p_sharedFreeList s) n) = Some (baddr b + SIZEOF_NODE, m')
    \<and> heap_inv (s\<lparr>mem := m'\<rparr>) (rover b n xs) (take_out b n xs) (granted b n # us)
    \<and> same_on (- (free_area xs \<union> rng (p_sharedFreeList s) 16)) (mem s) m'"
  proof (cases st)
    case BEST_FIT
    then show ?thesis using best.fit_heap_inv[OF inv sel[unfolded BEST_FIT]] by auto
  next
    case WORST_FIT
    then show ?thesis using worst.fit_heap_inv[OF inv sel[unfolded WORST_FIT]] by auto
  next
    case FIRST_FIT
    then show ?thesis using first.fit_heap_inv[OF inv sel[unfolded FIRST_FIT]] by auto
  next
    case NEXT_FIT
    then show ?thesis using nxt.fit_heap_inv[OF inv sel[unfolded NEXT_FIT]] by auto
  qed
  then obtain m' where m': "MyMalloc n (strategy_code st) s = Some (baddr b + SIZEOF_NODE, s\<lparr>mem := m'\<rparr>)"
    "heap_inv (s\<lparr>mem := m'\<rparr>) (rover b n xs) (take_out b n xs) (granted b n # us)"
    "same_on (- (free_area xs \<union> rng (p_sharedFreeList s) 16)) (mem s) m'"
    unfolding eq by auto
  then show thesis
    by (intro that[of "s\<lparr>mem := m'\<rparr>"]) (auto simp: list_block_def mutex_block_def)
qed

lemma MyMalloc_fail:
  assumes inv: "heap_inv s nf xs us" and no: "\<forall>b \<in> set xs. bsize b < n"
  shows "MyMalloc n (strategy_code st) s = Some (0, s)"
proof -
  have fs: "free_store (mem s) (p_sharedFreeList s) xs nf" using inv by (simp add: heap_inv_def)
  note eq = MyMalloc_eq[OF heap_inv_ready[OF inv, THEN conjunct1] heap_inv_ready[OF inv, THEN conjunct2], of n st]
  show ?thesis
    unfolding eq
    using best.fit_none[OF fs no] worst.fit_none[OF fs no] first.fit_none[OF fs no]
      nxt.fit_none[OF fs no] by (cases st) auto
qed

section \<open>InitMyMalloc\<close>

lemma free_store_copy:
  assumes fs: "free_store m fl xs nf" and p: "list_ok m p"
    and d: "rng p 16 \<inter> free_area xs = {}" "rng p 16 \<inter> rng fl 16 = {}"
  obtains m1 m' where "ld_head m fl = Some (head_addr xs)" "st_head m p (head_addr xs) = Some m1"
    "ld_nextFree m1 fl = Some nf" "st_nextFree m1 p nf = Some m'"
    "free_store m' p xs nf" "same_on (- rng p 16) m m'"
proof -
  note l = free_storeD(1)[OF fs, unfolded free_list_head]
  have i: "{unat p ..< unat p + 8} \<subseteq> rng p 16" "{unat p + 8 ..< unat p + 16} \<subseteq> rng p 16"
    "{unat fl + 8 ..< unat fl + 16} \<subseteq> rng fl 16" by (auto simp: rng_def)
  obtain m1 m' where m: "st_head m p (head_addr xs) = Some m1" "st_nextFree m1 p nf = Some m'"
    "ld_head m' p = Some (head_addr xs)" "ld_nextFree m' p = Some nf" "list_ok m' p"
    "same_on (- {unat p ..< unat p + 8}) m m1" and so: "same_on (- rng p 16) m m'"
    using st_list_ok[OF p] .
  have "{unat fl + 8 ..< unat fl + 16} \<subseteq> - {unat p ..< unat p + 8}" using i d(2) by blast
  then have nf1: "ld_nextFree m1 fl = Some nf"
    using ld_list_frames(2)[OF m(6) free_storeD(2)[OF fs]] l by simp
  have "seg m' (head_addr xs) xs 0"
    using seg_frame[OF so, of xs] free_storeD(5)[OF fs] d(1) l by blast
  then have "free_store m' p xs nf"
    using fs l m(3-5) same_on_valid[OF so] d(1) by (auto simp: free_store_def free_list_head)
  with l m(1,2) nf1 so show thesis using that by blast
qed

text \<open>A fresh region: in range, above the page at \<^verbatim>\<open>NULL\<close>, apart from what is mapped already.\<close>

definition fresh_region :: "memory \<Rightarrow> addr \<Rightarrow> nat \<Rightarrow> bool" where
  "fresh_region m a n \<longleftrightarrow> 4096 \<le> unat a \<and> unat a + n < 2 ^ 64
     \<and> list_all (\<lambda>(s, l). unat s + l \<le> unat a \<or> unat a + n \<le> unat s) (mapped m)"

lemma map_region_facts:
  assumes "wf_memory m" "fresh_region m a n"
  shows "wf_memory (map_region m a n)" "valid (map_region m a n) a n"
    "valid m b k \<Longrightarrow> valid (map_region m a n) b k"
    "valid m b k \<Longrightarrow> 0 < k \<Longrightarrow> 0 < n \<Longrightarrow> rng b k \<inter> rng a n = {}"
proof -
  show "wf_memory (map_region m a n)" "valid (map_region m a n) a n"
    "valid m b k \<Longrightarrow> valid (map_region m a n) b k"
    using assms by (auto simp: wf_memory_def fresh_region_def map_region_def valid_def)
  assume "valid m b k" "0 < k" "0 < n"
  then obtain s l where "(s, l) \<in> set (mapped m)" "unat s \<le> unat b" "unat b + k \<le> unat s + l"
    by (auto simp: valid_def list_ex_iff)
  moreover from this(1) have "unat s + l \<le> unat a \<or> unat a + n \<le> unat s"
    using assms(2) by (auto simp: fresh_region_def list_all_iff)
  ultimately show "rng b k \<inter> rng a n = {}" by (auto simp: rng_def)
qed

lemma unat_word_of_int:
  assumes "0 \<le> i" "i < 2 ^ 64"
  shows "unat (word_of_int i :: addr) = nat i"
  using assms by (simp add: unsigned_of_int take_bit_int_eq_self)


text \<open>The heap right after the mapping: one free block, listed by the stack variable.\<close>

lemma initial_list_ok:
  assumes wf: "wf_memory m0" and v: "valid m0 stk 16" and fr: "fresh_region m0 heap (nat H)"
    and H: "128 < H" "H \<le> INT_MAX"
  defines "m \<equiv> map_region m0 heap (nat H)" and "b \<equiv> Block heap (word_of_int H - SIZEOF_NODE)"
  obtains m1 m2 m3 m4 where "st_size m heap (word_of_int H - SIZEOF_NODE) = Some m1"
    "st_next m1 heap 0 = Some m2" "st_head m2 stk heap = Some m3" "st_nextFree m3 stk heap = Some m4"
    "free_store m4 stk [b] heap" "extent b = {unat heap ..< unat heap + nat H}"
    "valid m4 heap (nat H)" "rng stk 16 \<inter> extent b = {}" "same_on {} m m4"
proof -
  note f = map_region_facts[OF wf fr]
  have uH: "unat (word_of_int H :: addr) = nat H"
    using H by (intro unat_word_of_int) (auto simp: INT_MAX_def)
  then have sz: "unat (word_of_int H - SIZEOF_NODE :: addr) = nat H - 24"
    using H by (subst unat_sub_no_wrap) auto
  have ex: "extent b = {unat heap ..< unat heap + nat H}"
    using sz H by (auto simp: b_def extent_def)
  have b0: "0 < unat heap" "unat heap + nat H \<le> 2 ^ 64" using fr by (auto simp: fresh_region_def)
  then have bok: "block_ok b" using sz H by (auto simp: block_ok_def b_def)
  have stk: "list_ok m stk" using f(1) f(3)[OF v] by (simp add: list_ok_def m_def)
  have ap: "rng stk 16 \<inter> rng heap (nat H) = {}" using f(4)[OF v] H by simp
  then have ap24: "rng stk 16 \<inter> rng heap 24 = {}" using H by (fastforce simp: rng_def)
  have nh: "node_ok m heap"
    using f(1) valid_sub[OF f(2), of heap 24] H by (simp add: node_ok_def m_def)
  obtain m1 m2 where m2: "st_size m heap (word_of_int H - SIZEOF_NODE) = Some m1" "st_next m1 heap 0 = Some m2"
    "ld_size m2 heap = Some (word_of_int H - SIZEOF_NODE)" "ld_next m2 heap = Some 0" "node_ok m2 heap"
    "same_on (- rng heap 16) m m2"
    using st_node_ok[OF nh] .
  have l2: "list_ok m2 stk" using stk list_ok_same_on[OF m2(6)] by simp
  obtain m3 m4 where m4: "st_head m2 stk heap = Some m3" "st_nextFree m3 stk heap = Some m4"
    "ld_head m4 stk = Some heap" "ld_nextFree m4 stk = Some heap" "list_ok m4 stk" and so: "same_on (- rng stk 16) m2 m4"
    using st_list_ok[OF l2] .
  have "{unat heap ..< unat heap + 8} \<subseteq> rng heap 24" "{unat heap + 8 ..< unat heap + 16} \<subseteq> rng heap 24"
    by (auto simp: rng_def)
  then have "ld_size m4 heap = Some (word_of_int H - SIZEOF_NODE)" "ld_next m4 heap = Some 0"
    using ld_frames(1,2)[OF so m2(5)] ap24 m2(3,4) by auto
  then have sg: "seg m4 heap [b] 0" using node_ok_offsets(6)[OF m2(5)] by (simp add: b_def seg_Cons)
  have same: "same_on {} m m4"
    by (rule same_on_mono[OF same_on_trans[OF m2(6) so]]) simp
  have vh: "valid m4 heap (nat H)" using same_on_valid[OF same] f(2) by (simp add: m_def)
  have "free_store m4 stk [b] heap"
    unfolding free_store_def free_list_head
  proof (intro conjI)
    show "list_ok m4 stk" by (rule m4(5))
    show "tile (free_area [b]) [b]" using bok by (simp add: tile_Cons)
    show "free_area [b] \<inter> rng stk 16 = {}" using ap ex by (auto simp: rng_def)
    show "\<forall>c \<in> set [b]. valid m4 (baddr c) (24 + unat (bsize c))" using vh sz H by (simp add: b_def)
  qed (use sg m4(3,4) in \<open>auto simp: b_def head_addr_def\<close>)
  then show thesis
    using that m2(1,2) m4(1,2) ex vh ap same by (auto simp: rng_def)
qed

text \<open>The blocks that the initialisation cuts off: the list structure, then the mutex.\<close>

lemma initial_sizes:
  assumes "128 < H" "H \<le> INT_MAX"
  shows "unat (word_of_int H :: addr) = nat H" "unat (word_of_int H - SIZEOF_NODE :: addr) = nat H - 24"
    "granted (Block heap (word_of_int H - SIZEOF_NODE)) 16 = Block heap 16"
    "residue (Block heap (word_of_int H - SIZEOF_NODE)) 16 = [Block (heap + 40) (word_of_int H - 64)]"
    "granted (Block (heap + 40) (word_of_int H - 64)) 40 = Block (heap + 40) 40"
    "residue (Block (heap + 40) (word_of_int H - 64)) 40 = [Block (heap + 104) (word_of_int H - 128)]"
    "16 \<le> (word_of_int H - SIZEOF_NODE :: addr)" "40 \<le> (word_of_int H - 64 :: addr)"
proof -
  show uH: "unat (word_of_int H :: addr) = nat H"
    using assms by (intro unat_word_of_int) (auto simp: INT_MAX_def)
  have usz: "unat (word_of_int H - k :: addr) = nat H - unat k" if "unat k \<le> 128" for k :: addr
    using that assms uH by (subst unat_sub_no_wrap) auto
  note u = usz[of 24, simplified] usz[of 64, simplified]
  show "unat (word_of_int H - SIZEOF_NODE :: addr) = nat H - 24" using u by simp
  show "granted (Block heap (word_of_int H - SIZEOF_NODE)) 16 = Block heap 16"
    "residue (Block heap (word_of_int H - SIZEOF_NODE)) 16 = [Block (heap + 40) (word_of_int H - 64)]"
    "granted (Block (heap + 40) (word_of_int H - 64)) 40 = Block (heap + 40) 40"
    "residue (Block (heap + 40) (word_of_int H - 64)) 40 = [Block (heap + 104) (word_of_int H - 128)]"
    "16 \<le> (word_of_int H - SIZEOF_NODE :: addr)" "40 \<le> (word_of_int H - 64 :: addr)"
    using u assms by (auto simp: granted_def residue_def word_less_nat_alt word_le_nat_alt)
qed

lemma initial_tile:
  assumes "128 < H" "H \<le> INT_MAX" and b: "block_ok (Block heap (word_of_int H - SIZEOF_NODE))"
  defines "A \<equiv> extent (Block heap (word_of_int H - SIZEOF_NODE))"
  shows "tile A [Block heap 16, Block (heap + 40) (word_of_int H - 64)]"
    "tile A [Block (heap + 104) (word_of_int H - 128), Block (heap + 40) 40, Block heap 16]"
proof -
  let ?b = "Block heap (word_of_int H - SIZEOF_NODE)" and ?c = "Block (heap + 40) (word_of_int H - 64)"
  note z = initial_sizes[OF assms(1,2)]
  have "tile A [?b]" using b by (simp add: tile_Cons A_def)
  then show t: "tile A [Block heap 16, ?c]"
    using take_out_tile[of A "[]" ?b "[]" 16] z by simp
  then have "tile A [Block (heap + 40) 40, Block heap 16, Block (heap + 104) (word_of_int H - 128)]"
    using take_out_tile[of A "[Block heap 16]" ?c "[]" 40] z by simp
  then show "tile A [Block (heap + 104) (word_of_int H - 128), Block (heap + 40) 40, Block heap 16]"
    by (rule iffD1[OF tile_mset, rotated]) simp
qed

text \<open>
  The two allocations of the initialisation on a heap of one block, with the copy of the list structure from the stack into
  the first of them between.
\<close>

lemma initial_allocations:
  assumes H: "128 < H" "H \<le> INT_MAX" and fs: "free_store m stk [Block heap (word_of_int H - SIZEOF_NODE)] heap"
    and ap: "rng stk 16 \<inter> extent (Block heap (word_of_int H - SIZEOF_NODE)) = {}"
  obtains m5 m6 m7 m8 nf where "firstFit m stk 16 = Some (heap + 24, m5)"
    "ld_head m5 stk = Some (heap + 40)" "st_head m5 (heap + 24) (heap + 40) = Some m6"
    "ld_nextFree m6 stk = Some nf" "st_nextFree m6 (heap + 24) nf = Some m7"
    "firstFit m7 (heap + 24) 40 = Some (heap + 64, m8)"
    "free_store m8 (heap + 24) [Block (heap + 104) (word_of_int H - 128)] (heap + 104)"
    "allocated m8 (Block (heap + 40) 40)" "allocated m8 (Block heap 16)" "same_on {} m m8"
proof -
  let ?b = "Block heap (word_of_int H - SIZEOF_NODE)" and ?c = "Block (heap + 40) (word_of_int H - 64)"
    and ?d = "Block (heap + 104) (word_of_int H - 128)" and ?p = "heap + 24"
  note z = initial_sizes[OF H]
  have sel: "select FIRST_FIT 16 nf [?b] = Some ?b" "select FIRST_FIT 40 nf [?c] = Some ?c" for nf using z by auto
  have bok: "block_ok ?b" using free_storeD(7)[OF fs] by simp
  have up: "unat ?p = unat heap + 24"
    using bok H z(2) by (subst unat_add_no_wrap) (auto simp: block_ok_def)
  obtain m5 where m5: "firstFit m stk 16 = Some (?p, m5)" "free_store m5 stk [?c] (rover ?b 16 [?b])"
    "allocated m5 (Block heap 16)" "same_on (- (extent ?b \<union> rng stk 16)) m m5"
    using first.fit_some[OF fs sel(1)] z by auto
  have cd: "extent (Block heap 16) \<inter> extent ?c = {}" "extent (Block heap 16) \<subseteq> extent ?b"
    using initial_tile(1)[OF H bok] by (auto simp: tile_Cons)
  have p16: "rng ?p 16 \<subseteq> extent (Block heap 16)" using up by (auto simp: rng_def extent_def)
  have vb: "valid m heap (24 + (nat H - 24))" using free_storeD(4)[OF fs, of ?b] z(2) by simp
  have k5: "list_ok m5 ?p" "node_ok m5 heap"
    using valid_sub[OF vb, of ?p 16] valid_sub[OF vb, of heap 24] up H same_on_valid[OF m5(4)] free_storeD(2)[OF m5(2)]
    by (auto simp: list_ok_def node_ok_def)
  have "rng ?p 16 \<inter> free_area [?c] = {}" "rng ?p 16 \<inter> rng stk 16 = {}" "head_addr [?c] = heap + 40"
    using p16 cd ap by (auto simp: head_addr_def)
  then obtain m6 m7 where m7: "ld_head m5 stk = Some (heap + 40)" "st_head m5 ?p (heap + 40) = Some m6"
    "ld_nextFree m6 stk = Some (rover ?b 16 [?b])" "st_nextFree m6 ?p (rover ?b 16 [?b]) = Some m7"
    "free_store m7 ?p [?c] (rover ?b 16 [?b])" "same_on (- rng ?p 16) m5 m7"
    using free_store_copy[OF m5(2) k5(1)] by metis
  obtain m8 where "firstFit m7 ?p 40 = Some (baddr ?c + SIZEOF_NODE, m8)"
    "free_store m8 ?p (take_out ?c 40 [?c]) (rover ?c 40 [?c])" "allocated m8 (granted ?c 40)"
    "same_on (- (free_area [?c] \<union> rng ?p 16)) m7 m8"
    using first.fit_some[OF m7(5) sel(2)] .
  then have m8: "firstFit m7 ?p 40 = Some (heap + 64, m8)"
    "free_store m8 ?p [?d] (rover ?c 40 [?c])" "allocated m8 (Block (heap + 40) 40)"
    "same_on (- (extent ?c \<union> rng ?p 16)) m7 m8"
    using z by simp_all
  have so: "same_on (- (extent ?c \<union> rng ?p 16)) m5 m8"
    by (rule same_on_mono[OF same_on_trans[OF m7(6) m8(4)]]) auto
  have "rng heap 24 \<subseteq> - (extent ?c \<union> rng ?p 16)"
    using header_payload[of "Block heap 16"] cd(1) up by (auto simp: rng_def payload_def)
  then have "allocated m8 (Block heap 16)"
    using allocated_frame[OF so, of "Block heap 16"] k5(2) m5(3) by simp
  moreover have "heap + 104 \<noteq> 0" using free_storeD(5)[OF m8(2), of ?d] node_ok_offsets(6) by fastforce
  then have "rover ?c 40 [?c] = heap + 104" using z by (simp add: rover_def head_addr_def)
  moreover have "same_on {} m m8" by (rule same_on_mono[OF same_on_trans[OF m5(4) so]]) simp
  ultimately show thesis using that m5(1) m7(1-4) m8(1-3) by metis
qed

lemma init_heap_ok:
  assumes wf: "wf_memory (mem s)" and v: "valid (mem s) stk 16"
    and fr: "fresh_region (mem s) heap (nat H)" and H: "128 < H" "H \<le> INT_MAX"
  obtains s' where "init_heap stk heap H s = Some s'"
    "heap_inv s' (heap + 104) [Block (heap + 104) (word_of_int H - 128)]
       [Block (heap + 40) SIZEOF_MUTEX, Block heap SIZEOF_FREELIST]"
    "heapBlockHeader s' = heap" "heapCapacity s' = word_of_int H" "messages s' = messages s"
    "list_block s' = Block heap SIZEOF_FREELIST" "mutex_block s' = Block (heap + 40) SIZEOF_MUTEX"
proof -
  let ?b = "Block heap (word_of_int H - SIZEOF_NODE)" and ?d = "Block (heap + 104) (word_of_int H - 128)"
  note z = initial_sizes[OF H]
  obtain m1 m2 m3 m4 where
    i: "st_size (map_region (mem s) heap (nat H)) heap (word_of_int H - SIZEOF_NODE) = Some m1"
    "st_next m1 heap 0 = Some m2" "st_head m2 stk heap = Some m3" "st_nextFree m3 stk heap = Some m4"
    and fs4: "free_store m4 stk [?b] heap" and ex: "extent ?b = {unat heap ..< unat heap + nat H}"
    and vh: "valid m4 heap (nat H)" and ap: "rng stk 16 \<inter> extent ?b = {}"
    using initial_list_ok[OF wf v fr H] by metis
  have bok: "block_ok ?b" using free_storeD(7)[OF fs4] by simp
  obtain m5 m6 m7 m8 nf where m: "firstFit m4 stk 16 = Some (heap + 24, m5)"
    "ld_head m5 stk = Some (heap + 40)" "st_head m5 (heap + 24) (heap + 40) = Some m6"
    "ld_nextFree m6 stk = Some nf" "st_nextFree m6 (heap + 24) nf = Some m7"
    "firstFit m7 (heap + 24) 40 = Some (heap + 64, m8)"
    and m8: "free_store m8 (heap + 24) [?d] (heap + 104)" "allocated m8 (Block (heap + 40) 40)"
    "allocated m8 (Block heap 16)" and so: "same_on {} m4 m8"
    using initial_allocations[OF H fs4 ap] .
  have "unat (heap + 64) = unat heap + 64"
    using bok H z(2) by (subst unat_add_no_wrap) (auto simp: block_ok_def)
  then have mx0: "heap + 64 \<noteq> 0" by (auto simp: word_unat_eq_iff)
  let ?s = "s\<lparr>mem := m8, heapBlockHeader := heap, p_sharedFreeList := heap + 24, mutex := heap + 64,
             heapCapacity := word_of_int H, mutex_held := False\<rparr>"
  have lb: "list_block ?s = Block heap 16" "mutex_block ?s = Block (heap + 40) 40"
    by (simp_all add: list_block_def mutex_block_def)
  have code: "init_heap stk heap H s = Some ?s" using i m mx0 by (simp add: init_heap_def Let_def)
  have "heap_inv ?s (heap + 104) [?d] [Block (heap + 40) 40, Block heap 16]"
    unfolding heap_inv_def lb
    using initial_tile(2)[OF H bok] ex z(1) m8 same_on_valid[OF so] vh bok
    by (auto simp: heap_area_def block_ok_def)
  with code lb show thesis by (intro that[of ?s]) auto
qed

end
