(* ===== verification/FreeProps.thy ===== *)
theory FreeProps
  imports MallocProps
begin

text \<open>
  What \<^verbatim>\<open>MyFree\<close> does to a well-formed heap: the walk along the free list, the insertion, the
  merging of \<^verbatim>\<open>coalesceFreeList\<close>, the roving pointer, the null pointer it may follow, and the
  refusals of null, foreign and already freed pointers.
\<close>

section \<open>The walk\<close>

lemma free_scan_0 [simp]: "free_scan m p 0 prev = Some (0, prev)"
  by (simp add: free_scan.simps)

lemma free_scan_seg:
  assumes "seg m cur ys 0"
  shows "free_scan m p cur prev =
    Some (head_addr (snd (scan p ys)), last_addr prev (fst (scan p ys)))"
  using assms
proof (induction p ys arbitrary: cur prev rule: scan.induct)
  case (2 p c)
  then show ?case
    by (subst free_scan.simps) (auto simp: seg_Cons head_addr_def last_addr_def)
next
  case (3 p c d cs)
  from "3.prems" obtain nx where c: "cur = baddr c" "cur \<noteq> 0" "ld_next m cur = Some nx"
    "seg m nx (d # cs) 0" "nx \<noteq> 0"
    by (auto simp: seg_Cons)
  have l: "last_addr cur (fst (scan p (d # cs))) = last_addr prev (c # fst (scan p (d # cs)))"
    using c(1) by (simp add: last_addr_def)
  show ?case
  proof (cases "p < baddr c")
    case True
    then show ?thesis using c by (subst free_scan.simps) (simp add: head_addr_def last_addr_def)
  next
    case False
    then show ?thesis
      using c "3.IH"[OF False c(4), of cur] l
      by (subst free_scan.simps) simp
  qed
qed (simp add: head_addr_def last_addr_def)

section \<open>List structure without the roving pointer\<close>

definition list_store :: "memory \<Rightarrow> addr \<Rightarrow> block list \<Rightarrow> bool" where
  "list_store m fl xs \<longleftrightarrow>
     ld_head m fl = Some (head_addr xs) \<and> seg m (head_addr xs) xs 0 \<and> list_ok m fl
     \<and> tile (free_area xs) xs \<and> (\<forall>b \<in> set xs. valid m (baddr b) (24 + unat (bsize b)))
     \<and> free_area xs \<inter> rng fl 16 = {}"

lemma free_store_iff:
  "free_store m fl xs nf \<longleftrightarrow>
     list_store m fl xs \<and> ld_nextFree m fl = Some nf \<and> (nf = 0 \<or> nf \<in> baddr ` set xs)"
  using tile_distinct_fst by (auto simp: free_store_def list_store_def free_list_head)

lemma list_storeD:
  assumes "list_store m fl xs"
  shows "ld_head m fl = Some (head_addr xs)" "seg m (head_addr xs) xs 0" "list_ok m fl"
    "tile (free_area xs) xs" "free_area xs \<inter> rng fl 16 = {}"
    "\<And>b. b \<in> set xs \<Longrightarrow> node_ok m (baddr b)"
    "\<And>b. b \<in> set xs \<Longrightarrow> valid m (baddr b) (24 + unat (bsize b))"
  using assms valid_sub[of m _ "24 + _" _ 24]
  by (fastforce simp: list_store_def node_ok_def list_ok_def)+

text \<open>
  The step all merges share: the node \<open>x\<close> becomes the block \<open>y\<close>, which takes over the nodes \<open>ys\<close> that follow,
  by a new size and a new link.
\<close>

lemma absorb_tile:
  assumes t: "tile (free_area (as @ x # ys @ cs)) (as @ x # ys @ cs)"
    and y: "block_ok y" "extent y = extent x \<union> free_area ys"
  shows "tile (free_area (as @ y # cs)) (as @ y # cs)"
    "free_area (as @ y # cs) = free_area (as @ x # ys @ cs)"
proof -
  let ?A = "free_area (as @ x # ys @ cs)"
  show area: "free_area (as @ y # cs) = ?A" using y(2) by auto
  have "tile ?A ((x # ys) @ as @ cs)"
    by (rule iffD1[OF tile_mset t]) simp
  from tile_append_rest[OF this] have "extent x \<union> free_area ys \<subseteq> ?A"
    "tile (?A - (extent x \<union> free_area ys)) (as @ cs)"
    by simp_all
  then have "tile ?A (y # as @ cs)" using y by (simp add: tile_Cons)
  then have "tile ?A (as @ y # cs)" by (rule iffD1[OF tile_mset, rotated]) simp
  then show "tile (free_area (as @ y # cs)) (as @ y # cs)" using area by simp
qed

lemma absorb_seg:
  assumes ls: "list_store m fl (as @ x # ys @ cs)" and so: "same_on (- rng (baddr x) 16) m m'"
    and y: "baddr y = baddr x" "ld_size m' (baddr x) = Some (bsize y)" "ld_next m' (baddr x) = Some (head_addr cs)"
  shows "seg m' (head_addr (as @ y # cs)) (as @ y # cs) 0"
proof -
  note l = list_storeD[OF ls]
  have dis: "free_area as \<inter> extent x = {}" "free_area cs \<inter> extent x = {}"
    using tile_areas_disjoint[OF l(4)] tile_areas_disjoint[of _ "as @ x # ys" cs] l(4) by auto
  have rx: "rng (baddr x) 16 \<subseteq> extent x" by (rule rng16_extent)
  have nk: "\<forall>b \<in> set as. node_ok m (baddr b)" "\<forall>b \<in> set cs. node_ok m (baddr b)"
    using l(6) by auto
  obtain r where r: "seg m (head_addr (as @ x # ys @ cs)) as (baddr x)" "seg m r cs 0" "baddr x \<noteq> 0"
    using l(2) by (auto simp: seg_append seg_Cons)
  have "seg m' (head_addr (as @ x # ys @ cs)) as (baddr x)"
    using seg_frame[OF so nk(1)] dis(1) rx r(1) by blast
  moreover have "seg m' r cs 0" using seg_frame[OF so nk(2)] dis(2) rx r(2) by blast
  moreover have "head_addr (as @ y # cs) = head_addr (as @ x # ys @ cs)"
    using y(1) by (cases as) (auto simp: head_addr_def)
  ultimately show ?thesis
    using y r(3) seg_head by (fastforce simp: seg_append seg_Cons)
qed

lemma absorb_store:
  assumes ls: "list_store m fl (as @ x # ys @ cs)" and so: "same_on (- rng (baddr x) 16) m m'"
    and y: "baddr y = baddr x" "block_ok y" "extent y = extent x \<union> free_area ys" "valid m (baddr y) (24 + unat (bsize y))"
    and ld: "ld_size m' (baddr x) = Some (bsize y)" "ld_next m' (baddr x) = Some (head_addr cs)"
  shows "list_store m' fl (as @ y # cs)"
  unfolding list_store_def
proof (intro conjI)
  note l = list_storeD[OF ls]
  note t = absorb_tile[OF l(4) y(2,3)]
  show "tile (free_area (as @ y # cs)) (as @ y # cs)" by (rule t(1))
  show "free_area (as @ y # cs) \<inter> rng fl 16 = {}" using l(5) t(2) by simp
  show "\<forall>b \<in> set (as @ y # cs). valid m' (baddr b) (24 + unat (bsize b))"
    using l(7) y(4) same_on_valid[OF so] by auto
  show "list_ok m' fl" using l(3) list_ok_same_on[OF so] by simp
  have "{unat fl ..< unat fl + 8} \<subseteq> rng fl 16" by (auto simp: rng_def)
  moreover have "head_addr (as @ y # cs) = head_addr (as @ x # ys @ cs)"
    using y(1) by (cases as) (auto simp: head_addr_def)
  ultimately show "ld_head m' fl = Some (head_addr (as @ y # cs))"
    using ld_list_frames(1)[OF so l(3)] l(1,5) rng16_extent[of x] by fastforce
  show "seg m' (head_addr (as @ y # cs)) (as @ y # cs) 0" by (rule absorb_seg[OF ls so y(1) ld])
qed

lemma other_next:
  assumes ls: "list_store m fl xs" and xy: "x \<in> set xs" "y \<in> set xs" "x \<noteq> y"
    and so: "same_on (- W) m m1" "W \<subseteq> rng (baddr x) 16"
  shows "ld_next m1 (baddr y) = ld_next m (baddr y)"
proof -
  have "extent x \<inter> extent y = {}"
    using tile_disjoint[OF list_storeD(4)[OF ls] xy] .
  moreover have "{unat (baddr y) + 8 ..< unat (baddr y) + 16} \<subseteq> extent y" by (auto simp: extent_def)
  ultimately have "{unat (baddr y) + 8 ..< unat (baddr y) + 16} \<subseteq> - W"
    using so(2) rng16_extent[of x] by blast
  then show ?thesis using ld_frames(2)[OF so(1) list_storeD(6)[OF ls xy(2)]] by simp
qed

lemma absorb_ok:
  assumes ls: "list_store m fl (as @ x # ys @ cs)"
    and y: "baddr y = baddr x" "block_ok y" "extent y = extent x \<union> free_area ys" "valid m (baddr y) (24 + unat (bsize y))"
  obtains m1 m' where "st_size m (baddr x) (bsize y) = Some m1" "st_next m1 (baddr x) (head_addr cs) = Some m'"
    "list_store m' fl (as @ y # cs)" "same_on (- free_area (as @ x # ys @ cs)) m m'"
    "ld_next m' (baddr x) = Some (head_addr cs)"
    "\<forall>z \<in> set (as @ x # ys @ cs). z \<noteq> x \<longrightarrow>
        ld_next m1 (baddr z) = ld_next m (baddr z) \<and> ld_next m' (baddr z) = ld_next m (baddr z)"
proof -
  note l = list_storeD[OF ls]
  have nx: "node_ok m (baddr x)" using l(6) by simp
  obtain m1 m' where m: "st_size m (baddr x) (bsize y) = Some m1" "st_next m1 (baddr x) (head_addr cs) = Some m'"
    "ld_size m' (baddr x) = Some (bsize y)" "ld_next m' (baddr x) = Some (head_addr cs)" "node_ok m' (baddr x)"
    "same_on (- {unat (baddr x) ..< unat (baddr x) + 8}) m m1" and so: "same_on (- rng (baddr x) 16) m m'"
    using st_node_ok[OF nx] .
  have "list_store m' fl (as @ y # cs)" using absorb_store[OF ls so y m(3,4)] .
  moreover have "same_on (- free_area (as @ x # ys @ cs)) m m'"
    by (rule same_on_mono[OF so]) (use rng16_extent[of x] in auto)
  moreover have w: "{unat (baddr x) ..< unat (baddr x) + 8} \<subseteq> rng (baddr x) 16" by (auto simp: rng_def)
  have "ld_next m1 (baddr z) = ld_next m (baddr z) \<and> ld_next m' (baddr z) = ld_next m (baddr z)"
    if z: "z \<in> set (as @ x # ys @ cs)" "z \<noteq> x" for z
  proof -
    have x: "x \<in> set (as @ x # ys @ cs)" by simp
    show ?thesis using other_next[OF ls x z(1) z(2)[symmetric]] m(6) w so by blast
  qed
  ultimately show thesis using that m(1,2,4) by blast
qed

section \<open>Linking a block in\<close>

text \<open>A block outside the list, with its size written: what \<^verbatim>\<open>MyFree\<close> inserts.\<close>

definition insertable :: "memory \<Rightarrow> addr \<Rightarrow> block list \<Rightarrow> block \<Rightarrow> bool" where
  "insertable m fl xs b \<longleftrightarrow> block_ok b \<and> extent b \<inter> free_area xs = {} \<and> extent b \<inter> rng fl 16 = {}
     \<and> valid m (baddr b) (24 + unat (bsize b)) \<and> ld_size m (baddr b) = Some (bsize b)"

lemma insertable_list:
  assumes t: "tile (free_area (as @ cs)) (as @ cs)" and b: "block_ok b" "extent b \<inter> free_area (as @ cs) = {}"
  shows "tile (free_area (as @ b # cs)) (as @ b # cs)"
proof -
  have "tile (free_area (as @ b # cs)) (b # as @ cs)"
    using t b by (auto simp: tile_Cons Un_Diff Diff_triv Int_commute)
      (metis Diff_triv Un_Diff Int_Un_distrib2 Int_commute)
  then show ?thesis by (rule iffD1[OF tile_mset, rotated]) simp
qed

lemma list_store_inserted:
  assumes ls: "list_store m fl (as @ cs)" and ins: "insertable m fl (as @ cs) b"
    and so: "same_on A m m'"
    and h: "ld_head m' fl = Some (head_addr (as @ b # cs))"
    and sg: "seg m' (head_addr (as @ b # cs)) (as @ b # cs) 0"
  shows "list_store m' fl (as @ b # cs)"
  unfolding list_store_def
proof (intro conjI)
  show "tile (free_area (as @ b # cs)) (as @ b # cs)"
    using list_storeD(4)[OF ls] ins by (intro insertable_list) (auto simp: insertable_def)
  show "free_area (as @ b # cs) \<inter> rng fl 16 = {}"
    using list_storeD(5)[OF ls] ins by (auto simp: insertable_def)
  show "\<forall>c \<in> set (as @ b # cs). valid m' (baddr c) (24 + unat (bsize c))"
    using list_storeD(7)[OF ls] ins same_on_valid[OF so] by (auto simp: insertable_def)
  show "list_ok m' fl" using list_storeD(3)[OF ls] list_ok_same_on[OF so] by simp
qed (use h sg in auto)

lemma insertable_node:
  assumes "list_store m fl xs" "insertable m fl xs b"
  shows "node_ok m (baddr b)"
  using assms valid_sub[of m "baddr b" "24 + unat (bsize b)" "baddr b" 24]
  by (simp add: insertable_def node_ok_def list_store_def list_ok_def)

lemma link_front_ok:
  assumes ls: "list_store m fl xs" and ins: "insertable m fl xs b"
  obtains m1 m2 where "st_next m (baddr b) (head_addr xs) = Some m1"
    "st_head m1 fl (baddr b) = Some m2" "list_store m2 fl (b # xs)"
    "same_on (- (rng (baddr b) 24 \<union> rng fl 8)) m m2"
    "same_on (- rng (baddr b) 24) m m1"
proof -
  note l = list_storeD[OF ls]
  have nb: "node_ok m (baddr b)" by (rule insertable_node[OF ls ins])
  have i: "extent b \<inter> free_area xs = {}" "extent b \<inter> rng fl 16 = {}" "ld_size m (baddr b) = Some (bsize b)"
    using ins by (auto simp: insertable_def)
  have r24: "rng (baddr b) 24 \<subseteq> extent b" by (rule rng_header_extent)
  obtain m1 where m1: "st_next m (baddr b) (head_addr xs) = Some m1"
    "ld_next m1 (baddr b) = Some (head_addr xs)"
    "same_on (- {unat (baddr b) + 8 ..< unat (baddr b) + 16}) m m1"
    using st_next_ok[OF nb] .
  have so1: "same_on (- rng (baddr b) 24) m m1"
    by (rule same_on_mono[OF m1(3)]) (auto simp: rng_def)
  have l1: "list_ok m1 fl" "node_ok m1 (baddr b)"
    using l(3) nb list_ok_same_on[OF so1] node_ok_same_on[OF so1] by auto
  have s1: "ld_size m1 (baddr b) = Some (bsize b)" using ld_frames(1)[OF m1(3) nb] i(3) by simp
  obtain m2 where m2: "st_head m1 fl (baddr b) = Some m2" "ld_head m2 fl = Some (baddr b)"
    "same_on (- {unat fl ..< unat fl + 8}) m1 m2" using st_head_ok[OF l1(1)] .
  have so2: "same_on (- (rng (baddr b) 24 \<union> rng fl 8)) m m2"
    by (rule same_on_mono[OF same_on_trans[OF so1 m2(3)]]) (auto simp: rng_def)
  have f8: "rng fl 8 \<subseteq> rng fl 16" by (auto simp: rng_def)
  have "seg m2 (head_addr xs) xs 0"
    using seg_frame[OF so2, of xs] l(2,6) i(1) r24 f8 l(5) by blast
  moreover have hb: "{unat (baddr b) ..< unat (baddr b) + 8} \<subseteq> extent b"
    "{unat (baddr b) + 8 ..< unat (baddr b) + 16} \<subseteq> extent b" by (auto simp: extent_def)
  then have "{unat (baddr b) ..< unat (baddr b) + 8} \<subseteq> - {unat fl ..< unat fl + 8}"
    "{unat (baddr b) + 8 ..< unat (baddr b) + 16} \<subseteq> - {unat fl ..< unat fl + 8}"
    using i(2) f8 unfolding rng_def by blast+
  then have "ld_size m2 (baddr b) = Some (bsize b)" "ld_next m2 (baddr b) = Some (head_addr xs)"
    using ld_frames(1,2)[OF m2(3) l1(2)] s1 m1(2) by auto
  ultimately have "seg m2 (baddr b) (b # xs) 0"
    using node_ok_offsets(6)[OF nb] by (simp add: seg_Cons)
  then have "list_store m2 fl (b # xs)"
    using list_store_inserted[of m fl "[]" xs b, OF _ _ so2] ls ins m2(2) by (simp add: head_addr_def)
  then show thesis using that m1(1) m2(1) so2 so1 by blast
qed

lemma link_middle_ok:
  assumes ls: "list_store m fl (as @ cs)" and ins: "insertable m fl (as @ cs) b" and as: "as \<noteq> []"
  obtains m1 m2 where "st_next m (last_addr 0 as) (baddr b) = Some m1"
    "st_next m1 (baddr b) (head_addr cs) = Some m2" "list_store m2 fl (as @ b # cs)"
    "same_on (- (free_area as \<union> rng (baddr b) 24 \<union> rng fl 8)) m m2"
proof -
  note l = list_storeD[OF ls]
  have nb: "node_ok m (baddr b)" by (rule insertable_node[OF ls ins])
  have i: "extent b \<inter> free_area (as @ cs) = {}" "extent b \<inter> rng fl 16 = {}" "ld_size m (baddr b) = Some (bsize b)"
    using ins by (auto simp: insertable_def)
  have r24: "rng (baddr b) 24 \<subseteq> extent b" by (rule rng_header_extent)
  obtain r where r: "seg m (head_addr (as @ cs)) as r" "seg m r cs 0"
    using l(2) by (auto simp: seg_append)
  have la: "last_addr 0 as \<noteq> 0" using seg_last_ne[OF r(1) as] .
  have d: "distinct as" using l(4) by (simp add: tile_def)
  have fa: "\<forall>c \<in> set as. extent c \<inter> rng fl 16 = {}" using l(5) by (auto simp: free_area_def)
  obtain m1 h' where m1: "relink m fl (last_addr 0 as) (baddr b) = Some m1" "ld_head m1 fl = Some h'"
    "seg m1 h' as (baddr b)" "same_on (- (free_area as \<union> rng fl 8)) m m1"
    using relink_ok[OF l(3) l(1) r(1) _ l(4) _ d fa] l(6) by auto
  have f8: "rng fl 8 \<subseteq> rng fl 16" by (auto simp: rng_def)
  have eb: "extent b \<subseteq> - (free_area as \<union> rng fl 8)" using i f8 by auto
  have n1: "node_ok m1 (baddr b)" "list_ok m1 fl"
    using nb l(3) node_ok_same_on[OF m1(4)] list_ok_same_on[OF m1(4)] by auto
  have s1: "ld_size m1 (baddr b) = Some (bsize b)"
    using ld_frames(1)[OF m1(4) nb] order_trans[OF interval_extent[of 8 b 0] eb] i(3) by simp
  obtain m2 where m2: "st_next m1 (baddr b) (head_addr cs) = Some m2"
    "ld_next m2 (baddr b) = Some (head_addr cs)"
    "same_on (- {unat (baddr b) + 8 ..< unat (baddr b) + 16}) m1 m2"
    using st_next_ok[OF n1(1)] .
  have w2: "{unat (baddr b) + 8 ..< unat (baddr b) + 16} \<subseteq> rng (baddr b) 24" by (auto simp: rng_def)
  have so2: "same_on (- (free_area as \<union> rng (baddr b) 24 \<union> rng fl 8)) m m2"
    by (rule same_on_mono[OF same_on_trans[OF m1(4) m2(3)]]) (use w2 in auto)
  have n1as: "\<forall>c \<in> set as. node_ok m1 (baddr c)" using l(6) node_ok_same_on[OF m1(4)] by auto
  have "free_area as \<inter> extent b = {}" using i(1) by auto
  then have "free_area as \<subseteq> - {unat (baddr b) + 8 ..< unat (baddr b) + 16}"
    using w2 r24 by blast
  then have "seg m2 h' as (baddr b)"
    using seg_frame[OF m2(3) n1as] m1(3) by simp
  moreover have "seg m2 r cs 0"
  proof -
    have "free_area cs \<subseteq> - (free_area as \<union> rng (baddr b) 24 \<union> rng fl 8)"
      using tile_areas_disjoint[OF l(4)] i(1) r24 l(5) f8 by auto
    then show ?thesis using seg_frame[OF so2, of cs] l(6) r(2) by auto
  qed
  moreover have "ld_size m2 (baddr b) = Some (bsize b)" using ld_frames(1)[OF m2(3) n1(1)] s1 by simp
  ultimately have sg: "seg m2 h' (as @ b # cs) 0"
    using m2(2) node_ok_offsets(6)[OF nb] seg_head[OF r(2)] by (auto simp: seg_append seg_Cons)
  have "{unat fl ..< unat fl + 8} \<subseteq> - {unat (baddr b) + 8 ..< unat (baddr b) + 16}"
    using i(2) f8 w2 r24 unfolding rng_def by blast
  then have "ld_head m2 fl = Some h'" using ld_list_frames(1)[OF m2(3) n1(2)] m1(2) by simp
  then have "list_store m2 fl (as @ b # cs)"
    using list_store_inserted[OF ls ins so2] sg seg_head[OF sg] by simp
  then show thesis using that m1(1) m2(1) so2 la by (simp add: relink_def)
qed


section \<open>coalesceFreeList\<close>

lemma seg_ld:
  assumes "seg m p (as @ b # cs) 0"
  shows "ld_size m (baddr b) = Some (bsize b)" "ld_next m (baddr b) = Some (head_addr cs)"
    "baddr b \<noteq> 0"
  using assms seg_head by (auto simp: seg_append seg_Cons)

lemma seg_ld_last:
  assumes "seg m p (as @ cs) 0" "as \<noteq> []"
  shows "ld_size m (last_addr 0 as) = Some (bsize (last as))" "last_addr 0 as = baddr (last as)"
    "last_addr 0 as \<noteq> 0" "ld_next m (last_addr 0 as) = Some (head_addr cs)"
proof -
  have "as @ cs = butlast as @ last as # cs" using assms(2) by simp
  then have "seg m p (butlast as @ last as # cs) 0" using assms(1) by metis
  from seg_ld[OF this] show "ld_size m (last_addr 0 as) = Some (bsize (last as))"
    "last_addr 0 as = baddr (last as)" "last_addr 0 as \<noteq> 0"
    "ld_next m (last_addr 0 as) = Some (head_addr cs)"
    using assms(2) by (auto simp: last_addr_def)
qed

lemma next_differs:
  assumes "tile A (as @ c # cs)" "baddr c \<noteq> 0"
  shows "head_addr cs \<noteq> baddr c"
  using tile_distinct_fst[OF assms(1)] assms(2) by (cases cs) (auto simp: head_addr_def)

text \<open>The size fields that the merges write are the sizes of the merged blocks.\<close>

lemma adjacent_code: "adjacent a b \<longleftrightarrow> baddr a + bsize a + SIZEOF_NODE = baddr b"
  by (simp add: adjacent_def)

text \<open>
  The outcome of a merge on the list \<open>as @ b # c # cs\<close> as \<^verbatim>\<open>MyFree\<close> uses it: the joined list, the
  returned node (\<^verbatim>\<open>NULL\<close> when nothing merged between two neighbours), and whether that node's
  link still leads to \<open>c\<close>.
\<close>

definition coalesce_result :: "block list \<Rightarrow> block \<Rightarrow> block \<Rightarrow> addr" where
  "coalesce_result as b c =
     (if as = [] then baddr b
      else if adjacent b c then baddr (last as)
      else if adjacent (last as) b then baddr b
      else 0)"

lemma coalesce_front_ok:
  assumes ls: "list_store m fl (b # c # cs)"
    and v: "adjacent b c \<Longrightarrow> valid m (baddr b) (24 + unat (bsize (merge b c)))"
  obtains m' where "coalesceFreeList m (baddr b) 0 (baddr c) = Some (baddr b, m')"
    "list_store m' fl (join [] b c cs)"
    "same_on (- free_area (b # c # cs)) m m'"
    "\<exists>x. ld_next m' (baddr b) = Some x \<and> (x = baddr c \<longleftrightarrow> \<not> adjacent b c)"
proof (cases "adjacent b c")
  case False
  have "seg m (head_addr (b # c # cs)) ([] @ b # c # cs) 0" using list_storeD(2)[OF ls] by simp
  from seg_ld[OF this] False that[of m] ls show thesis
    by (simp add: coalesceFreeList_def adjacent_code join_def head_addr_def)
next
  case True
  note l = list_storeD[OF ls]
  have ok: "block_ok b" "block_ok c" "b \<noteq> c" using l(4) by (auto simp: tile_def)
  note me = merge_extent[OF ok(1,2) True]
  have sg: "seg m (head_addr (b # c # cs)) ([] @ b # c # cs) 0"
    "seg m (head_addr (b # c # cs)) ([b] @ c # cs) 0" using l(2) by simp_all
  note lb = seg_ld[OF sg(1)] and lc = seg_ld[OF sg(2)]
  obtain m1 m' where m: "st_size m (baddr b) (bsize (merge b c)) = Some m1"
    "st_next m1 (baddr b) (head_addr cs) = Some m'" "list_store m' fl (merge b c # cs)"
    "same_on (- free_area (b # c # cs)) m m'" "ld_next m' (baddr b) = Some (head_addr cs)"
    "\<forall>z \<in> set (b # c # cs). z \<noteq> b \<longrightarrow>
      ld_next m1 (baddr z) = ld_next m (baddr z) \<and> ld_next m' (baddr z) = ld_next m (baddr z)"
    using absorb_ok[of m fl "[]" b "[c]" cs "merge b c"] ls me(1,2) v[OF True] by auto
  have "coalesceFreeList m (baddr b) 0 (baddr c) = Some (baddr b, m')"
    using lb(1) lc(1,2) m(1,2,6) ok(3) True by (simp add: coalesceFreeList_def adjacent_code merge_def)
  moreover have "head_addr cs \<noteq> baddr c" by (rule next_differs[of _ "[b]" c cs]) (use l(4) lc(3) in auto)
  ultimately show thesis using that m(3-5) True by (auto simp: join_def)
qed

text \<open>Three nodes in a row, and the four outcomes of a merge at the middle one.\<close>

lemma three_nodes:
  assumes "list_store m fl (as @ a # b # c # cs)"
  shows "ld_size m (baddr a) = Some (bsize a)" "ld_size m (baddr b) = Some (bsize b)" "ld_size m (baddr c) = Some (bsize c)"
    "ld_next m (baddr a) = Some (baddr b)" "ld_next m (baddr b) = Some (baddr c)" "ld_next m (baddr c) = Some (head_addr cs)"
    "baddr a \<noteq> 0" "baddr c \<noteq> 0" "block_ok a" "block_ok b" "block_ok c" "a \<noteq> b" "a \<noteq> c" "b \<noteq> c"
    "baddr b \<noteq> baddr c" "head_addr cs \<noteq> baddr c"
proof -
  note l = list_storeD[OF assms]
  let ?xs = "as @ a # b # c # cs"
  have sg: "seg m (head_addr ?xs) (as @ a # b # c # cs) 0"
    "seg m (head_addr ?xs) ((as @ [a]) @ b # c # cs) 0"
    "seg m (head_addr ?xs) ((as @ [a, b]) @ c # cs) 0" using l(2) by simp_all
  from seg_ld[OF sg(1)] seg_ld[OF sg(2)] seg_ld[OF sg(3)]
  show "ld_size m (baddr a) = Some (bsize a)" "ld_size m (baddr b) = Some (bsize b)" "ld_size m (baddr c) = Some (bsize c)"
    "ld_next m (baddr a) = Some (baddr b)" "ld_next m (baddr b) = Some (baddr c)" "ld_next m (baddr c) = Some (head_addr cs)"
    "baddr a \<noteq> 0" and c: "baddr c \<noteq> 0" by (simp_all add: head_addr_def)
  show "head_addr cs \<noteq> baddr c"
    by (rule next_differs[of _ "as @ [a, b]" c cs]) (use l(4) c in auto)
  show "block_ok a" "block_ok b" "block_ok c" "a \<noteq> b" "a \<noteq> c" "b \<noteq> c" "baddr b \<noteq> baddr c"
    using l(4) tile_distinct_fst[OF l(4)] by (auto simp: tile_def)
qed

lemma coalesce_both:
  assumes ls: "list_store m fl (as @ a # b # c # cs)" and ad: "adjacent a b" "adjacent b c"
    and V: "\<And>y. block_ok y \<Longrightarrow> extent y \<subseteq> free_area (as @ a # b # c # cs)
              \<Longrightarrow> valid m (baddr y) (24 + unat (bsize y))"
  obtains m' where "coalesceFreeList m (baddr b) (baddr a) (baddr c) = Some (baddr a, m')"
    "list_store m' fl (as @ merge a (merge b c) # cs)" "same_on (- free_area (as @ a # b # c # cs)) m m'"
    "ld_next m' (baddr a) = Some (head_addr cs)"
proof -
  note n = three_nodes[OF ls]
  note m1 = merge_extent[OF n(10,11) ad(2)]
  have "adjacent a (merge b c)" using ad(1) by (simp add: adjacent_def)
  note m2 = merge_extent[OF n(9) m1(2) this]
  let ?y = "merge a (merge b c)"
  have e: "extent ?y = extent a \<union> free_area [b, c]" using m1(1) m2(1) by simp
  have "valid m (baddr ?y) (24 + unat (bsize ?y))" by (rule V) (use m2(2) e in auto)
  then obtain m1 m' where m: "st_size m (baddr a) (bsize ?y) = Some m1"
    "st_next m1 (baddr a) (head_addr cs) = Some m'" "list_store m' fl (as @ ?y # cs)"
    "same_on (- free_area (as @ a # b # c # cs)) m m'" "ld_next m' (baddr a) = Some (head_addr cs)"
    "\<forall>z \<in> set (as @ a # b # c # cs). z \<noteq> a \<longrightarrow>
      ld_next m1 (baddr z) = ld_next m (baddr z) \<and> ld_next m' (baddr z) = ld_next m (baddr z)"
    using absorb_ok[of m fl as a "[b, c]" cs ?y] ls m2(2) e by auto
  moreover have "coalesceFreeList m (baddr b) (baddr a) (baddr c) = Some (baddr a, m')"
    using n m(1,2,6) ad by (simp add: coalesceFreeList_def adjacent_code merge_def ac_simps)
  ultimately show thesis using that by blast
qed

lemma coalesce_following:
  assumes ls: "list_store m fl (as @ a # b # c # cs)" and ad: "\<not> adjacent a b" "adjacent b c"
    and V: "\<And>y. block_ok y \<Longrightarrow> extent y \<subseteq> free_area (as @ a # b # c # cs)
              \<Longrightarrow> valid m (baddr y) (24 + unat (bsize y))"
  obtains m' where "coalesceFreeList m (baddr b) (baddr a) (baddr c) = Some (baddr a, m')"
    "list_store m' fl (as @ a # merge b c # cs)" "same_on (- free_area (as @ a # b # c # cs)) m m'"
    "ld_next m' (baddr a) = Some (baddr b)"
proof -
  note n = three_nodes[OF ls]
  note me = merge_extent[OF n(10,11) ad(2)]
  have "valid m (baddr (merge b c)) (24 + unat (bsize (merge b c)))" by (rule V) (use me in auto)
  then obtain m1 m' where m: "st_size m (baddr b) (bsize (merge b c)) = Some m1"
    "st_next m1 (baddr b) (head_addr cs) = Some m'" "list_store m' fl (as @ a # merge b c # cs)"
    "same_on (- free_area (as @ a # b # c # cs)) m m'" "ld_next m' (baddr b) = Some (head_addr cs)"
    "\<forall>z \<in> set (as @ a # b # c # cs). z \<noteq> b \<longrightarrow>
      ld_next m1 (baddr z) = ld_next m (baddr z) \<and> ld_next m' (baddr z) = ld_next m (baddr z)"
    using absorb_ok[of m fl "as @ [a]" b "[c]" cs "merge b c"] ls me(1,2) by auto
  moreover have "coalesceFreeList m (baddr b) (baddr a) (baddr c) = Some (baddr a, m')"
    using n m(1,2,6) ad by (simp add: coalesceFreeList_def adjacent_code merge_def)
  ultimately show thesis using that n(4,12) by simp
qed

lemma coalesce_preceding:
  assumes ls: "list_store m fl (as @ a # b # c # cs)" and ad: "adjacent a b" "\<not> adjacent b c"
    and V: "\<And>y. block_ok y \<Longrightarrow> extent y \<subseteq> free_area (as @ a # b # c # cs)
              \<Longrightarrow> valid m (baddr y) (24 + unat (bsize y))"
  obtains m' where "coalesceFreeList m (baddr b) (baddr a) (baddr c) = Some (baddr b, m')"
    "list_store m' fl (as @ merge a b # c # cs)" "same_on (- free_area (as @ a # b # c # cs)) m m'"
    "ld_next m' (baddr b) = Some (baddr c)"
proof -
  note n = three_nodes[OF ls]
  note me = merge_extent[OF n(9,10) ad(1)]
  have h: "head_addr (c # cs) = baddr c" by (simp add: head_addr_def)
  have "valid m (baddr (merge a b)) (24 + unat (bsize (merge a b)))" by (rule V) (use me in auto)
  then obtain m1 m' where m: "st_size m (baddr a) (bsize (merge a b)) = Some m1"
    "st_next m1 (baddr a) (baddr c) = Some m'" "list_store m' fl (as @ merge a b # c # cs)"
    "same_on (- free_area (as @ a # b # c # cs)) m m'" "ld_next m' (baddr a) = Some (baddr c)"
    "\<forall>z \<in> set (as @ a # b # c # cs). z \<noteq> a \<longrightarrow>
      ld_next m1 (baddr z) = ld_next m (baddr z) \<and> ld_next m' (baddr z) = ld_next m (baddr z)"
    using absorb_ok[of m fl as a "[b]" "c # cs" "merge a b"] ls me(1,2) by (auto simp: h)
  moreover have "coalesceFreeList m (baddr b) (baddr a) (baddr c) = Some (baddr b, m')"
    using n m(1,2,6) ad by (simp add: coalesceFreeList_def adjacent_code merge_def)
  ultimately show thesis using that n(5,12) by simp
qed

lemma coalesce_neither:
  assumes ls: "list_store m fl (as @ a # b # c # cs)" and ad: "\<not> adjacent a b" "\<not> adjacent b c"
  shows "coalesceFreeList m (baddr b) (baddr a) (baddr c) = Some (0, m)"
  using three_nodes[OF ls] ad by (simp add: coalesceFreeList_def adjacent_code)

lemma coalesce_middle_ok:
  assumes ls: "list_store m fl (as @ b # c # cs)" and as: "as \<noteq> []"
    and V: "\<And>y. block_ok y \<Longrightarrow> extent y \<subseteq> free_area (as @ b # c # cs)
              \<Longrightarrow> valid m (baddr y) (24 + unat (bsize y))"
  obtains m' where
    "coalesceFreeList m (baddr b) (last_addr 0 as) (baddr c) = Some (coalesce_result as b c, m')"
    "list_store m' fl (join as b c cs)"
    "same_on (- free_area (as @ b # c # cs)) m m'"
    "adjacent b c \<or> adjacent (last as) b \<Longrightarrow>
       \<exists>x. ld_next m' (coalesce_result as b c) = Some x \<and> (x = baddr c \<longleftrightarrow> \<not> adjacent b c)"
proof -
  define a where "a = last as"
  obtain as' where asa: "as = as' @ [a]" using as by (metis a_def append_butlast_last_id)
  have xs: "as @ b # c # cs = as' @ a # b # c # cs" using asa by simp
  have prev: "last_addr 0 (as' @ [a]) = baddr a" by (simp add: last_addr_def)
  note ls' = ls[unfolded xs] and n = three_nodes[OF ls[unfolded xs]]
  consider (both) "adjacent a b" "adjacent b c" | (nxt) "\<not> adjacent a b" "adjacent b c"
    | (prv) "adjacent a b" "\<not> adjacent b c" | (none) "\<not> adjacent a b" "\<not> adjacent b c" by blast
  then show thesis
  proof cases
    case both
    obtain m' where "coalesceFreeList m (baddr b) (baddr a) (baddr c) = Some (baddr a, m')"
      "list_store m' fl (as' @ merge a (merge b c) # cs)" "same_on (- free_area (as' @ a # b # c # cs)) m m'"
      "ld_next m' (baddr a) = Some (head_addr cs)"
      by (rule coalesce_both[OF ls' both V[unfolded xs]])
    then show thesis by (intro that[of m']) (use n both in \<open>simp_all add: coalesce_result_def join_def asa prev\<close>)
  next
    case nxt
    obtain m' where "coalesceFreeList m (baddr b) (baddr a) (baddr c) = Some (baddr a, m')"
      "list_store m' fl (as' @ a # merge b c # cs)" "same_on (- free_area (as' @ a # b # c # cs)) m m'"
      "ld_next m' (baddr a) = Some (baddr b)"
      by (rule coalesce_following[OF ls' nxt V[unfolded xs]])
    then show thesis by (intro that[of m']) (use n nxt in \<open>simp_all add: coalesce_result_def join_def asa prev\<close>)
  next
    case prv
    obtain m' where "coalesceFreeList m (baddr b) (baddr a) (baddr c) = Some (baddr b, m')"
      "list_store m' fl (as' @ merge a b # c # cs)" "same_on (- free_area (as' @ a # b # c # cs)) m m'"
      "ld_next m' (baddr b) = Some (baddr c)"
      by (rule coalesce_preceding[OF ls' prv V[unfolded xs]])
    then show thesis by (intro that[of m']) (use n prv in \<open>simp_all add: coalesce_result_def join_def asa prev\<close>)
  next
    case none
    with coalesce_neither[OF ls' none] show thesis
      by (intro that[of m]) (use ls' in \<open>simp_all add: coalesce_result_def join_def asa prev\<close>)
  qed
qed

end
