(* ===== verification/FreeHeap.thy ===== *)
theory FreeHeap
  imports FreeProps
begin

text \<open>
  \<^verbatim>\<open>MyFree\<close> on a well-formed heap: it computes \<open>insert_free\<close>, keeps the heap invariant and the
  payloads of the blocks still allocated, or follows the null pointer that \<open>insert_free\<close> names.
\<close>

section \<open>Insertion into the list\<close>

lemma ld_next_null: "wf_memory m \<Longrightarrow> ld_next m 0 = None"
  using valid_bound(3)[of m 8 8] by (auto simp: ld_next_def load_u64_def)

lemma join_addrs:
  "baddr ` set (join as b c cs) =
     baddr ` set as \<union> (if as \<noteq> [] \<and> adjacent (last as) b then {} else {baddr b})
     \<union> (if adjacent b c then {} else {baddr c}) \<union> baddr ` set cs"
proof (cases "as = []")
  case False
  then have "set as = insert (last as) (set (butlast as))"
    by (metis append_butlast_last_id list.simps(15) rotate1.simps(2) set_rotate1)
  then show ?thesis using False by (auto simp: join_def)
qed (auto simp: join_def)

text \<open>The last step of an insertion: the roving pointer follows a merge of the block it names.\<close>

lemma fix_rover_ok:
  assumes ls: "list_store m fl ys" and nf: "ld_nextFree m fl = Some nf"
    and x: "nf = cur \<Longrightarrow> ld_next m q = Some x"
    and mem: "(if nf = cur \<and> x \<noteq> cur then q else nf) \<in> insert 0 (baddr ` set ys)"
  obtains m' where "fix_rover m fl cur q = Some m'"
    "free_store m' fl ys (if nf = cur \<and> x \<noteq> cur then q else nf)"
    "same_on (- rng fl 16) m m'"
proof (cases "nf = cur \<and> x \<noteq> cur")
  case False
  then show thesis
    using that[of m] ls nf x mem by (auto simp: fix_rover_def free_store_iff)
next
  case True
  note l = list_storeD[OF ls]
  obtain m' where m': "st_nextFree m fl q = Some m'" "ld_nextFree m' fl = Some q"
    "same_on (- {unat fl + 8 ..< unat fl + 16}) m m'" using st_nextFree_ok[OF l(3)] .
  have so: "same_on (- rng fl 16) m m'" by (rule same_on_mono[OF m'(3)]) (auto simp: rng_def)
  have h: "ld_head m' fl = Some (head_addr ys)" using ld_list_frames(1)[OF m'(3) l(3)] l(1) by simp
  have "seg m' (head_addr ys) ys 0" using seg_frame[OF so, of ys] l(2,5,6) by blast
  then have "list_store m' fl ys"
    using ls h same_on_valid[OF so] list_ok_same_on[OF so] by (auto simp: list_store_def)
  then show thesis
    using that[of m'] True m' nf x mem so by (auto simp: fix_rover_def free_store_iff)
qed

lemma rover_field:
  "{unat fl + 8 ..< unat fl + 16} \<subseteq> rng fl 16" "{unat fl + 8 ..< unat fl + 16} \<inter> rng fl 8 = {}"
  by (auto simp: rng_def)

lemma rover_apart:
  assumes ls: "list_store m fl xs" and so: "same_on (- free_area xs) m m'"
  shows "ld_nextFree m' fl = ld_nextFree m fl"
proof (rule ld_list_frames(2)[OF so list_storeD(3)[OF ls]])
  show "{unat fl + 8 ..< unat fl + 16} \<subseteq> - free_area xs"
    using list_storeD(5)[OF ls] by (auto simp: rng_def)
qed

text \<open>The merge at the inserted block does not touch the roving pointer, and the step after it leaves a right one.\<close>

lemma rover_after_merge:
  assumes ls: "list_store m fl (as @ b # c # cs)" and nf: "ld_nextFree m fl = Some nf"
      "nf \<in> insert 0 (baddr ` set (as @ c # cs))"
    and so: "same_on (- free_area (as @ b # c # cs)) m m'" and ls': "list_store m' fl (join as b c cs)"
    and x: "nf = baddr c \<Longrightarrow> \<exists>x. ld_next m' q = Some x \<and> (x = baddr c \<longleftrightarrow> \<not> adjacent b c)"
    and q: "adjacent b c \<Longrightarrow> q \<in> insert 0 (baddr ` set (join as b c cs))"
  obtains m'' where "fix_rover m' fl (baddr c) q = Some m''"
    "free_store m'' fl (join as b c cs) (if nf = baddr c \<and> adjacent b c then q else nf)"
    "same_on (- (free_area (as @ b # c # cs) \<union> rng fl 16)) m m''"
proof -
  have nf': "ld_nextFree m' fl = Some nf" using rover_apart[OF ls so] nf(1) by simp
  obtain x where x: "nf = baddr c \<Longrightarrow> ld_next m' q = Some x" "nf = baddr c \<Longrightarrow> x = baddr c \<longleftrightarrow> \<not> adjacent b c"
    using x by blast
  have e: "(if nf = baddr c \<and> x \<noteq> baddr c then q else nf) = (if nf = baddr c \<and> adjacent b c then q else nf)"
    using x(2) by auto
  have mem: "(if nf = baddr c \<and> x \<noteq> baddr c then q else nf) \<in> insert 0 (baddr ` set (join as b c cs))"
    unfolding e using nf(2) q by (auto simp: join_addrs)
  obtain m'' where m: "fix_rover m' fl (baddr c) q = Some m''"
    "free_store m'' fl (join as b c cs) (if nf = baddr c \<and> adjacent b c then q else nf)"
    "same_on (- rng fl 16) m' m''"
    using fix_rover_ok[OF ls' nf' x(1) mem, unfolded e] .
  have "same_on (- (free_area (as @ b # c # cs) \<union> rng fl 16)) m m''"
    by (rule same_on_mono[OF same_on_trans[OF so m(3)]]) auto
  with that m(1,2) show thesis by blast
qed

text \<open>The insertion before the first node.\<close>

lemma insert_front_ok:
  assumes ls: "list_store m fl (c # cs)" and ins: "insertable m fl (c # cs) b"
    and nf: "ld_nextFree m fl = Some nf" "nf \<in> insert 0 (baddr ` set (c # cs))"
    and V: "\<And>y. block_ok y \<Longrightarrow> extent y \<subseteq> free_area (b # c # cs)
              \<Longrightarrow> valid m (baddr y) (24 + unat (bsize y))"
    and walk: "free_scan m (baddr b) (baddr c) 0 = Some (baddr c, 0)"
  obtains m' where "free_insert m fl (baddr b) = Some m'"
    "free_store m' fl (join [] b c cs) (if nf = baddr c \<and> adjacent b c then baddr b else nf)"
    "same_on (- (free_area (b # c # cs) \<union> rng fl 16)) m m'"
proof -
  have hc: "head_addr (c # cs) = baddr c" by (simp add: head_addr_def)
  obtain m1 m2 where m2: "st_next m (baddr b) (baddr c) = Some m1"
    "st_head m1 fl (baddr b) = Some m2" "list_store m2 fl (b # c # cs)"
    "same_on (- (rng (baddr b) 24 \<union> rng fl 8)) m m2" "same_on (- rng (baddr b) 24) m m1"
    using link_front_ok[OF ls ins, unfolded hc] .
  have ok: "block_ok b" "block_ok c" using list_storeD(4)[OF m2(3)] by (auto simp: tile_def)
  have "valid m2 (baddr b) (24 + unat (bsize (merge b c)))" if "adjacent b c"
    using V[of "merge b c"] merge_extent[OF ok that] same_on_valid[OF m2(4)] by auto
  then obtain m3 where m3: "coalesceFreeList m2 (baddr b) 0 (baddr c) = Some (baddr b, m3)"
    "list_store m3 fl (join [] b c cs)" "same_on (- free_area (b # c # cs)) m2 m3"
    "\<exists>x. ld_next m3 (baddr b) = Some x \<and> (x = baddr c \<longleftrightarrow> \<not> adjacent b c)"
    using coalesce_front_ok[OF m2(3)] by blast
  have "extent b \<inter> rng fl 16 = {}" using ins by (simp add: insertable_def)
  then have "{unat fl + 8 ..< unat fl + 16} \<subseteq> - (rng (baddr b) 24 \<union> rng fl 8)"
    using rng_header_extent[of b] rover_field[of fl] by fastforce
  then have n2: "ld_nextFree m2 fl = Some nf"
    using ld_list_frames(2)[OF m2(4) list_storeD(3)[OF ls]] nf(1) by simp
  obtain m4 where m4: "fix_rover m3 fl (baddr c) (baddr b) = Some m4"
    "free_store m4 fl (join [] b c cs) (if nf = baddr c \<and> adjacent b c then baddr b else nf)"
    "same_on (- (free_area (b # c # cs) \<union> rng fl 16)) m2 m4"
    using rover_after_merge[of m2 fl "[]" b c cs nf m3 "baddr b"] m2(3) n2 nf(2) m3(2-4)
    by (auto simp: join_addrs)
  have "same_on (- (free_area (b # c # cs) \<union> rng fl 16)) m m4"
    by (rule same_on_mono[OF same_on_trans[OF m2(4) m4(3)]])
      (use rng_header_extent[of b] in \<open>auto simp: rng_def\<close>)
  moreover have "free_insert m fl (baddr b) = Some m4"
    using list_storeD(1)[OF ls] hc walk m2(1,2) m3(1) m4(1) by (simp add: free_insert_def)
  ultimately show thesis using that m4(2) by blast
qed

text \<open>The insertion between two nodes: a null pointer is followed when nothing merges and the roving pointer is at the second.\<close>

lemma insert_middle_ok:
  assumes ls: "list_store m fl (as @ c # cs)" and ins: "insertable m fl (as @ c # cs) b"
    and as: "as \<noteq> []" and nf: "ld_nextFree m fl = Some nf" "nf \<in> insert 0 (baddr ` set (as @ c # cs))"
    and V: "\<And>y. block_ok y \<Longrightarrow> extent y \<subseteq> free_area (as @ b # c # cs)
              \<Longrightarrow> valid m (baddr y) (24 + unat (bsize y))"
    and walk: "free_scan m (baddr b) (head_addr (as @ c # cs)) 0 = Some (baddr c, last_addr 0 as)"
  defines "stuck \<equiv> \<not> adjacent b c \<and> \<not> adjacent (last as) b \<and> nf = baddr c"
  shows "stuck \<Longrightarrow> free_insert m fl (baddr b) = None"
    and "\<not> stuck \<Longrightarrow> \<exists>m'. free_insert m fl (baddr b) = Some m'
         \<and> free_store m' fl (join as b c cs) (if nf = baddr c \<and> adjacent b c then baddr (last as) else nf)
         \<and> same_on (- (free_area (as @ b # c # cs) \<union> rng fl 16)) m m'"
proof -
  have hc: "head_addr (c # cs) = baddr c" by (simp add: head_addr_def)
  obtain m1 m2 where m2: "st_next m (last_addr 0 as) (baddr b) = Some m1"
    "st_next m1 (baddr b) (baddr c) = Some m2" "list_store m2 fl (as @ b # c # cs)"
    "same_on (- (free_area as \<union> rng (baddr b) 24 \<union> rng fl 8)) m m2"
    using link_middle_ok[OF ls ins as, unfolded hc] .
  have V2: "valid m2 (baddr y) (24 + unat (bsize y))"
    if "block_ok y" "extent y \<subseteq> free_area (as @ b # c # cs)" for y
    using V[OF that] same_on_valid[OF m2(4)] by simp
  obtain m3 where m3: "coalesceFreeList m2 (baddr b) (last_addr 0 as) (baddr c) = Some (coalesce_result as b c, m3)"
    "list_store m3 fl (join as b c cs)" "same_on (- free_area (as @ b # c # cs)) m2 m3"
    "adjacent b c \<or> adjacent (last as) b \<Longrightarrow>
       \<exists>x. ld_next m3 (coalesce_result as b c) = Some x \<and> (x = baddr c \<longleftrightarrow> \<not> adjacent b c)"
    using coalesce_middle_ok[OF m2(3) as V2] by blast
  have "extent b \<inter> rng fl 16 = {}" using ins by (simp add: insertable_def)
  then have "{unat fl + 8 ..< unat fl + 16} \<subseteq> - (free_area as \<union> rng (baddr b) 24 \<union> rng fl 8)"
    using list_storeD(5)[OF ls] rng_header_extent[of b] rover_field[of fl] by fastforce
  then have n2: "ld_nextFree m2 fl = Some nf" using ld_list_frames(2)[OF m2(4) list_storeD(3)[OF ls]] nf(1) by simp
  have n: "baddr c \<noteq> 0" "last_addr 0 as \<noteq> 0"
    using seg_ld(3) seg_ld_last(3)[of m _ as "c # cs"] list_storeD(2)[OF ls] as by blast+
  have code: "free_insert m fl (baddr b) = fix_rover m3 fl (baddr c) (coalesce_result as b c)"
    using list_storeD(1)[OF ls] walk m2(1,2) m3(1) n by (simp add: free_insert_def)
  show "free_insert m fl (baddr b) = None" if stuck
    using that as rover_apart[OF m2(3) m3(3)] n2 ld_next_null[of m3] list_storeD(3)[OF m3(2)]
    unfolding code by (simp add: stuck_def fix_rover_def coalesce_result_def list_ok_def)
  assume "\<not> stuck"
  then have x: "nf = baddr c \<Longrightarrow>
      \<exists>x. ld_next m3 (coalesce_result as b c) = Some x \<and> (x = baddr c \<longleftrightarrow> \<not> adjacent b c)"
    using m3(4) by (auto simp: stuck_def)
  have q: "adjacent b c \<Longrightarrow> coalesce_result as b c \<in> insert 0 (baddr ` set (join as b c cs))"
    using as by (auto simp: coalesce_result_def join_addrs)
  obtain m4 where m4: "fix_rover m3 fl (baddr c) (coalesce_result as b c) = Some m4"
    "free_store m4 fl (join as b c cs) (if nf = baddr c \<and> adjacent b c then coalesce_result as b c else nf)"
    "same_on (- (free_area (as @ b # c # cs) \<union> rng fl 16)) m2 m4"
    using rover_after_merge[OF m2(3) n2 nf(2) m3(3,2) x q] .
  have "same_on (- (free_area (as @ b # c # cs) \<union> rng fl 16)) m m4"
    by (rule same_on_mono[OF same_on_trans[OF m2(4) m4(3)]])
      (use rng_header_extent[of b] in \<open>auto simp: rng_def\<close>)
  with m4(1,2) as show "\<exists>m'. free_insert m fl (baddr b) = Some m'
         \<and> free_store m' fl (join as b c cs) (if nf = baddr c \<and> adjacent b c then baddr (last as) else nf)
         \<and> same_on (- (free_area (as @ b # c # cs) \<union> rng fl 16)) m m'"
    unfolding code by (auto simp: coalesce_result_def cong: if_cong)
qed

text \<open>The insertion as a whole computes \<open>insert_free\<close>, or follows a null pointer where it is \<open>None\<close>.\<close>

lemma free_insert_ok:
  assumes fs: "free_store m fl xs nf" and ne: "xs \<noteq> []" and ins: "insertable m fl xs b"
    and V: "\<And>y. block_ok y \<Longrightarrow> extent y \<subseteq> extent b \<union> free_area xs
              \<Longrightarrow> valid m (baddr y) (24 + unat (bsize y))"
  shows "case insert_free b nf xs of
      None \<Rightarrow> free_insert m fl (baddr b) = None
    | Some (ys, nf') \<Rightarrow> \<exists>m'. free_insert m fl (baddr b) = Some m' \<and> free_store m' fl ys nf'
        \<and> same_on (- (free_area (b # xs) \<union> rng fl 16)) m m'"
proof -
  obtain as bs where sc: "scan (baddr b) xs = (as, bs)" by fastforce
  then obtain c cs where bs: "bs = c # cs"
    using scan_nonempty[OF ne, of "baddr b"] by (cases bs) auto
  have xs: "xs = as @ c # cs" using scan_split[OF sc] bs by simp
  have ls: "list_store m fl (as @ c # cs)" and n: "ld_nextFree m fl = Some nf"
    "nf \<in> insert 0 (baddr ` set (as @ c # cs))" and ins': "insertable m fl (as @ c # cs) b"
    using fs ins xs by (auto simp: free_store_iff)
  have walk: "free_scan m (baddr b) (head_addr (as @ c # cs)) 0 = Some (baddr c, last_addr 0 as)"
    using free_scan_seg[OF list_storeD(2)[OF ls], of "baddr b" 0] sc bs xs by (simp add: head_addr_def)
  have V': "valid m (baddr y) (24 + unat (bsize y))"
    if "block_ok y" "extent y \<subseteq> free_area (as @ b # c # cs)" for y
    by (rule V[OF that(1)]) (use that(2) xs in auto)
  have fa: "free_area (as @ b # c # cs) = free_area (b # xs)" using xs by auto
  show ?thesis
  proof (cases "as = []")
    case True
    then have w: "free_scan m (baddr b) (baddr c) 0 = Some (baddr c, 0)"
      using walk by (simp add: head_addr_def last_addr_def)
    obtain m' where "free_insert m fl (baddr b) = Some m'"
      "free_store m' fl (join [] b c cs) (if nf = baddr c \<and> adjacent b c then baddr b else nf)"
      "same_on (- (free_area (b # c # cs) \<union> rng fl 16)) m m'"
      by (rule insert_front_ok[OF _ _ n(1) _ _ w]) (use ls ins' n V' True in auto)
    then show ?thesis using sc bs True xs by (auto simp: insert_free_def)
  next
    case False
    note mid = insert_middle_ok[OF ls ins' False n V' walk, unfolded fa]
    show ?thesis using mid sc bs False by (auto simp: insert_free_def)
  qed
qed


section \<open>MyFree\<close>

lemma first_free_ok:
  assumes fs: "free_store m fl [] nf" and ins: "insertable m fl [] b"
  obtains m1 m2 where "st_head m fl (baddr b) = Some m1" "st_next m1 (baddr b) 0 = Some m2"
    "free_store m2 fl [b] nf" "same_on (- (rng (baddr b) 24 \<union> rng fl 16)) m m2"
proof -
  have ls: "list_store m fl []" and nf: "ld_nextFree m fl = Some nf" "nf = 0"
    using fs by (auto simp: free_store_iff)
  note lk = list_storeD(3)[OF ls]
  have nb: "node_ok m (baddr b)" by (rule insertable_node[OF ls ins])
  have i: "block_ok b" "extent b \<inter> rng fl 16 = {}" "ld_size m (baddr b) = Some (bsize b)"
    "valid m (baddr b) (24 + unat (bsize b))"
    using ins by (auto simp: insertable_def)
  obtain m1 where m1: "st_head m fl (baddr b) = Some m1" "ld_head m1 fl = Some (baddr b)"
    "same_on (- {unat fl ..< unat fl + 8}) m m1" using st_head_ok[OF lk] .
  have ok1: "node_ok m1 (baddr b)" "list_ok m1 fl"
    using nb lk node_ok_same_on[OF m1(3)] list_ok_same_on[OF m1(3)] by auto
  obtain m2 where m2: "st_next m1 (baddr b) 0 = Some m2" "ld_next m2 (baddr b) = Some 0"
    "same_on (- {unat (baddr b) + 8 ..< unat (baddr b) + 16}) m1 m2" using st_next_ok[OF ok1(1)] .
  have f: "{unat fl ..< unat fl + 8} \<subseteq> rng fl 16" by (auto simp: rng_def)
  have w: "{unat (baddr b) + 8 ..< unat (baddr b) + 16} \<subseteq> extent b"
    "{unat (baddr b) ..< unat (baddr b) + 8} \<subseteq> extent b"
    using interval_extent[of 16 b 8] interval_extent[of 8 b 0] by simp_all
  have "ld_size m1 (baddr b) = Some (bsize b)"
    using ld_frames(1)[OF m1(3) nb] i(2,3) f w(2) by fastforce
  then have "ld_size m2 (baddr b) = Some (bsize b)" using ld_frames(1)[OF m2(3) ok1(1)] by simp
  then have sg: "seg m2 (baddr b) [b] 0"
    using m2(2) node_ok_offsets(6)[OF nb] by (simp add: seg_Cons)
  have h: "ld_head m2 fl = Some (baddr b)"
    using ld_list_frames(1)[OF m2(3) ok1(2)] m1(2) i(2) f w(1) by fastforce
  have n: "ld_nextFree m2 fl = Some nf"
    using ld_list_frames(2)[OF m2(3) ok1(2)] ld_list_frames(2)[OF m1(3) lk] nf(1) i(2) rover_field(1)[of fl] w(1)
    by fastforce
  have so: "same_on (- (rng (baddr b) 24 \<union> rng fl 16)) m m2"
    by (rule same_on_mono[OF same_on_trans[OF m1(3) m2(3)]]) (auto simp: rng_def)
  have "free_store m2 fl [b] nf"
    unfolding free_store_iff list_store_def
    using h n sg i nf(2) lk list_ok_same_on[OF so] same_on_valid[OF so]
    by (auto simp: head_addr_def tile_Cons)
  with that[OF m1(1) m2(1)] so show thesis by blast
qed

text \<open>A block of a well-formed heap passes the checks of \<^verbatim>\<open>MyFree\<close>.\<close>

lemma in_heap_bounds:
  assumes inv: "heap_inv s nf xs us" and b: "b \<in> set us"
  shows "baddr b + SIZEOF_NODE \<noteq> 0" "\<not> baddr b < heapBlockHeader s"
    "\<not> heapBlockHeader s + heapCapacity s < baddr b"
    "ld_magic (mem s) (baddr b) = Some MAGIC_NUMBER" "ld_isFreed (mem s) (baddr b) = Some 0"
proof -
  have t: "tile (heap_area s) (xs @ us)" and al: "allocated (mem s) b"
    and v: "valid (mem s) (heapBlockHeader s) (unat (heapCapacity s))" and wf: "wf_memory (mem s)"
    using inv b by (auto simp: heap_inv_def free_store_def list_ok_def)
  have e: "extent b \<subseteq> heap_area s" using tile_sub[OF t] b by simp
  then have "unat (baddr b) \<in> heap_area s" "unat (baddr b) + 23 \<in> heap_area s"
    by (auto simp: extent_def)
  then have r: "unat (heapBlockHeader s) \<le> unat (baddr b)"
    "unat (baddr b) + 23 < unat (heapBlockHeader s) + unat (heapCapacity s)"
    by (auto simp: heap_area_def)
  note bd = valid_bound(4)[OF wf v]
  have "unat (heapBlockHeader s + heapCapacity s) = unat (heapBlockHeader s) + unat (heapCapacity s)"
    using bd by (intro unat_add_no_wrap) simp
  then show "\<not> heapBlockHeader s + heapCapacity s < baddr b" "\<not> baddr b < heapBlockHeader s"
    using r by (auto simp: word_less_nat_alt)
  have "unat (baddr b + SIZEOF_NODE) = unat (baddr b) + 24"
    using r bd by (subst unat_add_no_wrap) auto
  then show "baddr b + SIZEOF_NODE \<noteq> 0" by (auto simp: word_unat_eq_iff)
  show "ld_magic (mem s) (baddr b) = Some MAGIC_NUMBER" "ld_isFreed (mem s) (baddr b) = Some 0"
    using al by (auto simp: allocated_def)
qed

lemma isFreed_written:
  assumes inv: "heap_inv s nf xs us" and b: "b \<in> set us" "b \<noteq> list_block s"
  obtains m0 where "st_isFreed (mem s) (baddr b) 1 = Some m0"
    "free_store m0 (p_sharedFreeList s) xs nf" "insertable m0 (p_sharedFreeList s) xs b"
    "same_on (- rng (baddr b) 24) (mem s) m0"
proof -
  let ?fl = "p_sharedFreeList s"
  note a = allocated_apart[OF inv b(1)]
  obtain m0 where m0: "st_isFreed (mem s) (baddr b) 1 = Some m0" "ld_isFreed m0 (baddr b) = Some 1"
    "same_on (- {unat (baddr b) + 20 ..< unat (baddr b) + 24}) (mem s) m0"
    using st_isFreed_ok[OF a(4)] .
  have so: "same_on (- rng (baddr b) 24) (mem s) m0"
    by (rule same_on_mono[OF m0(3)]) (auto simp: rng_def)
  have r: "rng (baddr b) 24 \<subseteq> extent b" by (rule rng_header_extent)
  have fs: "free_store (mem s) ?fl xs nf" using inv by (simp add: heap_inv_def)
  have "free_area xs \<union> rng ?fl 16 \<subseteq> - rng (baddr b) 24" using a(1,2) r by blast
  then have fs0: "free_store m0 ?fl xs nf" using free_store_frame[OF fs so] by blast
  have "ld_size m0 (baddr b) = Some (bsize b)"
    using ld_frames(1)[OF m0(3) a(4)] inv b(1) by (auto simp: heap_inv_def allocated_def)
  then have "insertable m0 ?fl xs b"
    using a(1) a(3)[OF b(2)] a(5,6) same_on_valid[OF so] by (simp add: insertable_def)
  with that m0(1) fs0 so show thesis by blast
qed

lemma tile_appendI:
  assumes "tile B ys" "B \<subseteq> A" "tile (A - B) zs"
  shows "tile A (ys @ zs)"
  using assms
proof (induction ys arbitrary: A B)
  case (Cons y ys)
  have "(A - extent y) - (B - extent y) = A - B" using Cons.prems(1) by (auto simp: tile_Cons)
  then show ?case
    using Cons.IH[of "B - extent y" "A - extent y"] Cons.prems by (auto simp: tile_Cons)
qed simp

text \<open>What is left of the invariant is a statement about lists, once the memory is right.\<close>

lemma freed_heap_inv:
  assumes inv: "heap_inv s nf xs us" and b: "b \<in> set us" "b \<noteq> list_block s" "b \<noteq> mutex_block s"
    and so: "same_on (- (free_area (b # xs) \<union> rng (p_sharedFreeList s) 16)) (mem s) m'"
    and fs: "free_store m' (p_sharedFreeList s) ys nf'" and t: "tile (free_area (b # xs)) ys"
  shows "heap_inv (s\<lparr>mem := m'\<rparr>) nf' ys (remove1 b us)"
proof -
  have t0: "tile (heap_area s) (xs @ us)" using inv by (simp add: heap_inv_def)
  have "tile (heap_area s) ((b # xs) @ remove1 b us)"
    by (rule iffD1[OF tile_mset t0]) (use b(1) in simp)
  from tile_append_rest[OF this] t have t1: "tile (heap_area s) (ys @ remove1 b us)"
    using tile_appendI by blast
  have d: "distinct us" using t0 by (auto simp: tile_def)
  have al: "allocated m' c" if c: "c \<in> set (remove1 b us)" for c
  proof -
    have cu: "c \<in> set us" "c \<noteq> b" using c d by auto
    note a = allocated_apart[OF inv cu(1)]
    have "extent c \<inter> extent b = {}" using tile_disjoint[OF t0] cu b(1) by auto
    then have "rng (baddr c) 24 \<subseteq> - (free_area (b # xs) \<union> rng (p_sharedFreeList s) 16)"
      using a(1,2) rng_header_extent[of c] by auto
    from allocated_frame[OF so a(4) this] show ?thesis using inv cu(1) by (simp add: heap_inv_def)
  qed
  show ?thesis
    using inv fs t1 al b d same_on_valid[OF so]
    by (auto simp: heap_inv_def heap_area_def list_block_def mutex_block_def)
qed

lemma freed_tile:
  assumes "heap_inv s nf xs us" "b \<in> set us"
  shows "tile (free_area (b # xs)) (b # xs)"
proof -
  have t: "tile (heap_area s) (xs @ us)" using assms(1) by (simp add: heap_inv_def)
  have "tile (heap_area s) ((b # xs) @ remove1 b us)"
    by (rule iffD1[OF tile_mset t]) (use assms(2) in simp)
  moreover from this have "distinct (b # xs)" unfolding tile_def by auto
  ultimately show ?thesis by (intro tile_subset) auto
qed

lemma MyFree_unfold:
  assumes inv: "heap_inv s nf xs us" and b: "b \<in> set us"
    and m0: "st_isFreed (mem s) (baddr b) 1 = Some m0" "ld_head m0 (p_sharedFreeList s) = Some h"
  shows "MyFree (baddr b + SIZEOF_NODE) s =
    (if h = 0
     then do { m \<leftarrow> st_head m0 (p_sharedFreeList s) (baddr b); m \<leftarrow> st_next m (baddr b) 0;
               Some (0, s\<lparr>mem := m\<rparr>) }
     else do { m \<leftarrow> free_insert m0 (p_sharedFreeList s) (baddr b); Some (0, s\<lparr>mem := m\<rparr>) })"
proof -
  have un: "heapBlockHeader s \<noteq> 0" "\<not> mutex_held s" using inv by (auto simp: heap_inv_def)
  have up: "s\<lparr>mutex_held := True, mem := m, mutex_held := False\<rparr> = s\<lparr>mem := m\<rparr>" for m
    using un(2) by simp
  show ?thesis
    using un in_heap_bounds[OF inv b] m0
    by (simp add: MyFree_def pthread_mutex_lock_def pthread_mutex_unlock_def Let_def up cong: if_cong)
qed

lemma heap_block_valid:
  assumes inv: "heap_inv s nf xs us" and b: "b \<in> set us" and y: "extent y \<subseteq> extent b \<union> free_area xs"
  shows "valid (mem s) (baddr y) (24 + unat (bsize y))"
proof -
  have t: "tile (heap_area s) (xs @ us)" and vh: "valid (mem s) (heapBlockHeader s) (unat (heapCapacity s))"
    using inv by (auto simp: heap_inv_def)
  have "extent y \<subseteq> heap_area s"
    using tile_sub[OF t, of b] tile_free_area_sub[OF t] b y by auto
  then show ?thesis by (intro valid_sub[OF vh]) (auto simp: extent_def heap_area_def)
qed

lemma head_addr_zero:
  assumes "free_store m fl xs nf"
  shows "head_addr xs = 0 \<longleftrightarrow> xs = []"
proof (cases xs)
  case (Cons c cs)
  then show ?thesis using seg_ld(3)[of m _ "[]" c cs] assms
    by (auto simp: free_store_iff list_store_def head_addr_def)
qed (simp add: head_addr_def)

text \<open>\<^verbatim>\<open>MyFree\<close> after its checks, on the memory where the block is marked as free.\<close>

lemma marked_free_ok:
  assumes fs: "free_store m fl xs nf" and ins: "insertable m fl xs b"
    and V: "\<And>y. extent y \<subseteq> extent b \<union> free_area xs \<Longrightarrow> valid m (baddr y) (24 + unat (bsize y))"
  defines "r \<equiv> (if head_addr xs = 0 then do { m \<leftarrow> st_head m fl (baddr b); st_next m (baddr b) 0 }
    else free_insert m fl (baddr b))"
  shows "case insert_free b nf xs of
      None \<Rightarrow> r = None
    | Some (ys, nf') \<Rightarrow> \<exists>m'. r = Some m' \<and> free_store m' fl ys nf'
        \<and> same_on (- (free_area (b # xs) \<union> rng fl 16)) m m'"
proof (cases "xs = []")
  case True
  obtain m1 m2 where "st_head m fl (baddr b) = Some m1" "st_next m1 (baddr b) 0 = Some m2"
    "free_store m2 fl [b] nf" "same_on (- (rng (baddr b) 24 \<union> rng fl 16)) m m2"
    using first_free_ok[of m fl nf b] fs ins True by auto
  then show ?thesis
    using True head_addr_zero[OF fs] rng_header_extent[of b]
    by (auto simp: insert_free_def r_def elim!: same_on_mono)
next
  case False
  then have r: "r = free_insert m fl (baddr b)" using head_addr_zero[OF fs] by (simp add: r_def)
  show ?thesis unfolding r using V by (intro free_insert_ok[OF fs False ins])
qed

lemma MyFree_ok:
  assumes inv: "heap_inv s nf xs us" and b: "b \<in> set us" "b \<noteq> list_block s" "b \<noteq> mutex_block s"
  shows "insert_free b nf xs = None \<Longrightarrow> MyFree (baddr b + SIZEOF_NODE) s = None"
    and "insert_free b nf xs = Some (ys, nf') \<Longrightarrow>
      \<exists>m'. MyFree (baddr b + SIZEOF_NODE) s = Some (0, s\<lparr>mem := m'\<rparr>)
        \<and> heap_inv (s\<lparr>mem := m'\<rparr>) nf' ys (remove1 b us)
        \<and> same_on (- (free_area (b # xs) \<union> rng (p_sharedFreeList s) 16)) (mem s) m'"
proof -
  let ?fl = "p_sharedFreeList s" and ?W = "- (free_area (b # xs) \<union> rng (p_sharedFreeList s) 16)"
  obtain m0 where m0: "st_isFreed (mem s) (baddr b) 1 = Some m0" "free_store m0 ?fl xs nf"
    "insertable m0 ?fl xs b" "same_on (- rng (baddr b) 24) (mem s) m0"
    using isFreed_written[OF inv b(1,2)] .
  have V: "valid m0 (baddr y) (24 + unat (bsize y))" if "extent y \<subseteq> extent b \<union> free_area xs" for y
    using heap_block_valid[OF inv b(1) that] same_on_valid[OF m0(4)] by simp
  note r = marked_free_ok[OF m0(2,3) V]
  have "ld_head m0 ?fl = Some (head_addr xs)" using m0(2) by (simp add: free_store_iff list_store_def)
  note code = MyFree_unfold[OF inv b(1) m0(1) this]
  show "MyFree (baddr b + SIZEOF_NODE) s = None" if "insert_free b nf xs = None"
    using that r code by (auto split: if_splits bind_splits)
  assume i: "insert_free b nf xs = Some (ys, nf')"
  then obtain m' where m': "MyFree (baddr b + SIZEOF_NODE) s = Some (0, s\<lparr>mem := m'\<rparr>)"
    "free_store m' ?fl ys nf'" "same_on ?W m0 m'"
    using r code by (auto split: if_splits bind_splits)
  have "same_on ?W (mem s) m'"
    by (rule same_on_mono[OF same_on_trans[OF m0(4) m'(3)]]) (use rng_header_extent[of b] in auto)
  moreover have "tile (free_area (b # xs)) ys" by (rule insert_free_tile[OF freed_tile[OF inv b(1)] i])
  ultimately show "\<exists>m'. MyFree (baddr b + SIZEOF_NODE) s = Some (0, s\<lparr>mem := m'\<rparr>)
        \<and> heap_inv (s\<lparr>mem := m'\<rparr>) nf' ys (remove1 b us) \<and> same_on ?W (mem s) m'"
    using m' freed_heap_inv[OF inv b] by blast
qed

end
