(* ===== verification/BlockOrder.thy ===== *)
theory BlockOrder
  imports BlockSpec
begin

text \<open>
  Address order of the free list: when allocating and freeing keep the list sorted with no two
  neighbours that touch, the shape \<^verbatim>\<open>coalesceFreeList\<close> and \<^verbatim>\<open>DumpFreeList\<close> are written for.
\<close>

definition ordered :: "block list \<Rightarrow> bool" where
  "ordered xs \<longleftrightarrow> sorted_wrt (\<lambda>a b. baddr a < baddr b) xs"

text \<open>No block touches its successor in the list.\<close>

definition coalesced :: "block list \<Rightarrow> bool" where
  "coalesced xs \<longleftrightarrow> successively (\<lambda>a b. \<not> adjacent a b) xs"

text \<open>In a sorted list that has a block above the freed one, the walk splits it around the address.\<close>

lemma scan_ordered:
  assumes "ordered xs" "scan p xs = (as, c # cs)" "\<exists>d \<in> set xs. p < baddr d"
  shows "p < baddr c" "\<forall>a \<in> set as. baddr a \<le> p"
  using assms
proof (induction p xs arbitrary: as rule: scan.induct)
  case (3 p x y zs)
  obtain as' bs' where s: "scan p (y # zs) = (as', bs')" by fastforce
  {
    case 1
    with "3.IH" s show ?case by (auto simp: ordered_def split: if_splits)
  next
    case 2
    with "3.IH" s show ?case by (auto simp: ordered_def split: if_splits)
  }
qed auto

lemma scan_at:
  assumes "\<forall>a \<in> set as. baddr a \<le> p" "p < baddr c"
  shows "scan p (as @ c # cs) = (as, c # cs)"
  using assms
proof (induction as)
  case Nil
  then show ?case by (cases cs) auto
next
  case (Cons a as)
  obtain y ys where "as @ c # cs = y # ys" by (cases as) auto
  then show ?case using Cons by (auto simp: not_less)
qed

lemma tile_Cons_above:
  assumes t: "tile A bs" and x: "x \<in> set bs" "y \<in> set bs" and lt: "baddr x < baddr y"
  shows "unat (baddr x) + 24 + unat (bsize x) \<le> unat (baddr y)"
proof (rule ccontr)
  assume "\<not> ?thesis"
  then have "unat (baddr y) \<in> extent x" using lt by (auto simp: extent_def word_less_nat_alt)
  moreover have "extent x \<inter> extent y = {}" using tile_disjoint[OF t x] lt by auto
  ultimately show False using fst_in_extent[of y] by blast
qed

lemma ordered_append:
  "ordered (xs @ ys) \<longleftrightarrow> ordered xs \<and> ordered ys \<and> (\<forall>x \<in> set xs. \<forall>y \<in> set ys. baddr x < baddr y)"
  by (auto simp: ordered_def sorted_wrt_append)

lemma ordered_Cons: "ordered (x # ys) \<longleftrightarrow> (\<forall>y \<in> set ys. baddr x < baddr y) \<and> ordered ys"
  by (simp add: ordered_def)

lemma ordered_simps [simp]: "ordered []"
  by (simp add: ordered_def)

lemma coalesced_append:
  "coalesced (xs @ ys) \<longleftrightarrow> coalesced xs \<and> coalesced ys
     \<and> (xs \<noteq> [] \<and> ys \<noteq> [] \<longrightarrow> \<not> adjacent (last xs) (hd ys))"
  by (auto simp: coalesced_def successively_append_iff)

lemma coalesced_Cons: "coalesced (x # ys) \<longleftrightarrow> coalesced ys \<and> (ys \<noteq> [] \<longrightarrow> \<not> adjacent x (hd ys))"
  by (cases ys) (auto simp: coalesced_def)

lemma coalesced_Nil [simp]: "coalesced []"
  by (simp add: coalesced_def)

section \<open>Freeing\<close>

text \<open>The two halves of \<open>join\<close>: first the successor, then the predecessor.\<close>

lemma join_ordered:
  assumes "ordered (as @ b # c # cs)"
  shows "ordered (join as b c cs)"
  using assms
  by (cases as rule: rev_cases) (auto simp: join_def ordered_append ordered_Cons Let_def)

lemma adjacent_to_merge [simp]: "adjacent a (merge b c) = adjacent a b"
  by (simp add: adjacent_def)

lemma join_coalesced:
  assumes "coalesced as" "coalesced (c # cs)"
  shows "coalesced (join as b c cs)"
  using assms
  by (cases as rule: rev_cases)
    (auto simp: join_def coalesced_append coalesced_Cons adjacent_merge Let_def)

lemma insert_free_ordered:
  assumes o: "ordered xs" and b: "baddr b \<notin> baddr ` set xs" and above: "\<exists>d \<in> set xs. baddr b < baddr d"
    and i: "insert_free b nf xs = Some (ys, nf')"
  shows "ordered ys" "coalesced xs \<Longrightarrow> coalesced ys"
proof -
  obtain as bs where sc: "scan (baddr b) xs = (as, bs)" by fastforce
  have "xs \<noteq> []" using above by auto
  then have "bs \<noteq> []" using scan_nonempty[of xs "baddr b"] sc by simp
  then obtain c cs where bs: "bs = c # cs" by (cases bs) auto
  have xs: "xs = as @ c # cs" using scan_split[OF sc] bs by simp
  have y: "ys = join as b c cs" using i sc bs by (auto simp: insert_free_def split: if_splits)
  note so = scan_ordered[OF o sc[unfolded bs] above]
  have "baddr a < baddr b" if "a \<in> set as" for a
  proof -
    have "baddr a \<le> baddr b" using so(2) that by simp
    moreover have "baddr a \<in> baddr ` set xs" using that xs by simp
    then have "baddr a \<noteq> baddr b" using b by metis
    ultimately show ?thesis by simp
  qed
  moreover have "baddr b < baddr d" if "d \<in> set (c # cs)" for d
    using that o xs so(1) by (auto simp: ordered_append ordered_Cons)
  ultimately have "ordered (as @ b # c # cs)"
    using o xs by (auto simp: ordered_append ordered_Cons)
  then show "ordered ys" using join_ordered y by simp
  assume "coalesced xs"
  then show "coalesced ys" using join_coalesced y xs by (simp add: coalesced_append)
qed

section \<open>Allocating\<close>

lemma residue_addr:
  assumes "block_ok b" "r \<in> set (residue b n)" "n \<le> bsize b"
  shows "unat (baddr r) = unat (baddr b) + 24 + unat n"
    "unat (baddr r) + 24 + unat (bsize r) = unat (baddr b) + 24 + unat (bsize b)"
    "baddr r + bsize r = baddr b + bsize b"
proof -
  have c: "n + SIZEOF_NODE < bsize b" and r: "r = Block (baddr b + SIZEOF_NODE + n) (bsize b - n - SIZEOF_NODE)"
    using assms(2) by (auto simp: residue_def split: if_splits)
  note e = extent_split[of "baddr b" "bsize b" n, simplified, OF assms(1,3) c]
  show "unat (baddr r) = unat (baddr b) + 24 + unat n"
    "unat (baddr r) + 24 + unat (bsize r) = unat (baddr b) + 24 + unat (bsize b)"
    "baddr r + bsize r = baddr b + bsize b"
    using e(5,6) r by simp_all
qed

lemma take_out_ordered:
  assumes t: "tile A xs" and o: "ordered xs" and b: "b \<in> set xs" "n \<le> bsize b"
  shows "ordered (take_out b n xs)" "coalesced xs \<Longrightarrow> coalesced (take_out b n xs)"
proof -
  obtain as cs where xs: "xs = as @ b # cs" using b(1) by (auto dest: split_list)
  have "baddr b \<notin> baddr ` set as" using tile_distinct_fst[OF t] xs by auto
  then have out: "take_out b n xs = as @ residue b n @ cs" by (simp add: xs take_out_append)
  have ok: "block_ok b" using tile_block_ok[OF t b(1)] .
  note ra = residue_addr[OF ok _ b(2)]
  have lo: "baddr b < baddr r" if "r \<in> set (residue b n)" for r
    using ra(1)[OF that] by (simp add: word_less_nat_alt)
  have hi: "baddr r < baddr c" if r: "r \<in> set (residue b n)" and c: "c \<in> set cs" for r c
  proof -
    have "baddr b < baddr c" using o c xs by (auto simp: ordered_append ordered_Cons)
    then have "unat (baddr b) + 24 + unat (bsize b) \<le> unat (baddr c)"
      using tile_Cons_above[OF t b(1)] c xs by auto
    then show ?thesis using ra(1,2)[OF r] by (simp add: word_less_nat_alt)
  qed
  have r1: "ordered (residue b n)" "coalesced (residue b n)"
    by (auto simp: residue_def ordered_Cons coalesced_Cons)
  have ac: "baddr a < baddr c" if "a \<in> set as" "c \<in> set cs" for a c
    using o that xs by (auto simp: ordered_append)
  have ab: "baddr a < baddr b" if "a \<in> set as" for a using o that xs by (auto simp: ordered_append)
  have ar: "baddr a < baddr r" if "a \<in> set as" "r \<in> set (residue b n)" for a r
    using ab[OF that(1)] lo[OF that(2)] by simp
  show "ordered (take_out b n xs)"
    using o xs r1(1) ac ar hi unfolding out by (auto simp: ordered_append ordered_Cons)
  assume co: "coalesced xs"
  have na: "\<not> adjacent a d" if a: "a \<in> set as" and d: "baddr b < baddr d" "block_ok d" for a d
  proof
    assume "adjacent a d"
    moreover have "block_ok a" using tile_block_ok[OF t] a xs by simp
    ultimately have "unat (baddr d) = unat (baddr a) + unat (bsize a) + 24" using adjacent_unat d(2) by blast
    moreover have "unat (baddr a) + 24 + unat (bsize a) \<le> unat (baddr b)"
      using tile_Cons_above[OF t _ b(1) ab[OF a]] a xs by simp
    ultimately show False using d(1) by (simp add: word_less_nat_alt)
  qed
  have okr: "block_ok r" if "r \<in> set (residue b n)" for r
    using tile_block_ok[OF granted_residue(1)[OF ok b(2)]] that by simp
  have okc: "block_ok c" "baddr b < baddr c" if "c \<in> set cs" for c
    using tile_block_ok[OF t] o that xs by (auto simp: ordered_append ordered_Cons)
  have rc: "\<not> adjacent r c" if r: "r \<in> set (residue b n)" and c: "cs = c # cs'" for r c cs'
    using ra(3)[OF r] co xs c by (auto simp: coalesced_append coalesced_Cons adjacent_def)
  have "as \<noteq> [] \<Longrightarrow> residue b n @ cs \<noteq> [] \<Longrightarrow> \<not> adjacent (last as) (hd (residue b n @ cs))"
    using na[of "last as" "hd (residue b n @ cs)"] lo okr okc
    by (cases "residue b n"; cases cs) auto
  moreover have "coalesced (residue b n @ cs)"
    using r1(2) co xs rc by (cases cs) (auto simp: coalesced_append coalesced_Cons)
  ultimately show "coalesced (take_out b n xs)"
    using co xs unfolding out by (auto simp: coalesced_append)
qed

section \<open>Freeing what was just allocated\<close>

text \<open>A block that was split comes back whole when it is freed at once.\<close>

lemma take_out_insert_free:
  assumes t: "tile A xs" and o: "ordered xs" "coalesced xs" and b: "b \<in> set xs" "n \<le> bsize b"
    and split: "n + SIZEOF_NODE < bsize b"
  shows "\<exists>nf'. insert_free (granted b n) nf (take_out b n xs) = Some (xs, nf')"
proof -
  obtain as cs where xs: "xs = as @ b # cs" using b(1) by (auto dest: split_list)
  have "baddr b \<notin> baddr ` set as" using tile_distinct_fst[OF t] xs by auto
  then have out: "take_out b n xs = as @ residue b n @ cs" by (simp add: xs take_out_append)
  have ok: "block_ok b" using tile_block_ok[OF t b(1)] .
  define g where "g = granted b n"
  define r where "r = Block (baddr b + SIZEOF_NODE + n) (bsize b - n - SIZEOF_NODE)"
  have rr: "residue b n = [r]" using split by (simp add: residue_def r_def)
  have g: "baddr g = baddr b" "g = Block (baddr b) n" using split by (simp_all add: g_def granted_def)
  have adj: "adjacent g r" by (simp add: g r_def adjacent_def ac_simps)
  have mg: "merge g r = b" by (cases b) (simp add: merge_def g r_def)
  have br: "baddr b < baddr r"
    using residue_addr(1)[OF ok _ b(2), of r] rr by (simp add: word_less_nat_alt)
  have "\<forall>a \<in> set as. baddr a \<le> baddr g"
    using o(1) xs g(1) by (auto simp: ordered_append intro: less_imp_le)
  then have sc': "scan (baddr g) (as @ r # cs) = (as, r # cs)" using br g(1) by (simp add: scan_at)
  have nadj: "as \<noteq> [] \<Longrightarrow> \<not> adjacent (last as) g"
    using o(2) xs g(1) by (auto simp: coalesced_append adjacent_def)
  have "join as g r cs = xs" using adj mg nadj xs by (auto simp: join_def Let_def)
  then show ?thesis
    unfolding out rr g_def[symmetric] using sc' adj by (simp add: insert_free_def)
qed

end
