(* ===== verification/AllocatorProps.thy ===== *)
theory AllocatorProps
  imports FreeHeap BlockOrder
begin

text \<open>
  The properties of the shared memory allocator, stated over its entry points, and a concrete
  heap they are applied to: one page at address \<open>0x100000\<close>.
\<close>

section \<open>A concrete heap\<close>

definition linux :: os where
  "linux = \<lparr>page_size = 4096, mmap = (\<lambda>_. Some 0x100000)\<rparr>"

definition boot_state :: heap_state where
  "boot_state = \<lparr>mem = \<lparr>content = (\<lambda>_. 0), mapped = [(0x7000, 4096)]\<rparr>, heapBlockHeader = 0,
     p_sharedFreeList = 0, mutex = 0, heapCapacity = 0, mutex_held = False, messages = []\<rparr>"

lemma boot_facts:
  "wf_memory (mem boot_state)" "valid (mem boot_state) 0x7000 16"
  "fresh_region (mem boot_state) 0x100000 4096" "heapBlockHeader boot_state = 0"
  by (simp_all add: boot_state_def wf_memory_def valid_def fresh_region_def)

section \<open>InitMyMalloc\<close>

lemma round_cases:
  fixes page n :: int
  assumes "0 < page" "0 < n"
  shows "n mod page = 0 \<Longrightarrow> page dvd n"
    and "n < (1 + n div page) * page" "(1 + n div page) * page \<le> n + page"
    "n mod page \<noteq> 0 \<Longrightarrow> (1 + n div page) * page < n + page"
proof -
  have e: "n = n div page * page + n mod page" by simp
  have b: "0 \<le> n mod page" "n mod page < page" using assms(1) by simp_all
  show "n mod page = 0 \<Longrightarrow> page dvd n" by (simp add: dvd_eq_mod_eq_0)
  have r: "(1 + n div page) * page = n - n mod page + page"
    using e by (simp add: algebra_simps)
  show "n < (1 + n div page) * page" "(1 + n div page) * page \<le> n + page"
    "n mod page \<noteq> 0 \<Longrightarrow> (1 + n div page) * page < n + page"
    unfolding r using b by auto
qed

text \<open>The rounded heap size is the least multiple of the page size that holds the request;
  the C addition overflows exactly when that multiple is above \<^verbatim>\<open>INT_MAX\<close>.\<close>

theorem round_heap_size_least:
  assumes "0 < page" "0 < n" "n \<le> INT_MAX"
  shows "case round_heap_size page n of
      Some r \<Rightarrow> page dvd r \<and> n \<le> r \<and> r < n + page \<and> r \<le> INT_MAX
    | None \<Rightarrow> \<forall>r. page dvd r \<and> n \<le> r \<longrightarrow> INT_MAX < r"
proof (cases "n mod page = 0")
  case True
  then show ?thesis using assms by (simp add: round_heap_size_def dvd_eq_mod_eq_0)
next
  case False
  note c = round_cases[OF assms(1,2)]
  have least: "(1 + n div page) * page \<le> r" if r: "page dvd r" "n \<le> r" for r
  proof -
    obtain k where k: "r = k * page" using r(1) by (metis dvdE mult.commute)
    have "n div page * page < n" using False assms(1) pos_mod_sign[of page n] div_mult_mod_eq[of n page]
      by linarith
    then have "n div page * page < k * page" using r(2) k by linarith
    then have "n div page < k" using assms(1) by (simp add: mult_less_cancel_right)
    then have "(1 + n div page) * page \<le> k * page" using assms(1) by (intro mult_right_mono) auto
    then show ?thesis using k by simp
  qed
  have d: "page dvd (1 + n div page) * page" by simp
  show ?thesis
  proof (cases "(1 + n div page) * page \<le> INT_MAX")
    case True
    then have "round_heap_size page n = Some ((1 + n div page) * page)"
      using False by (simp add: round_heap_size_def Let_def)
    then show ?thesis using True c(2) c(4)[OF False] d by simp
  next
    case big: False
    then have "round_heap_size page n = None" using False by (simp add: round_heap_size_def Let_def)
    moreover have "INT_MAX < r" if "page dvd r \<and> n \<le> r" for r
      using least[of r] that big by linarith
    ultimately show ?thesis by simp
  qed
qed

theorem round_heap_size_least_witness: "round_heap_size 4096 5000 = Some 8192 \<and> (4096 :: int) dvd 8192"
  using round_heap_size_least[of 4096 5000] by (simp add: round_heap_size_def INT_MAX_def)

lemma rounded_bounds:
  assumes "0 < n" "n \<le> INT_MAX" "128 < page" "round_heap_size page n = Some H"
  shows "128 < H" "H \<le> INT_MAX"
proof -
  have "page \<le> H" "H \<le> INT_MAX"
    using assms zdvd_imp_le[of page n]
    by (auto simp: round_heap_size_def Let_def dvd_eq_mod_eq_0 pos_imp_zdiv_nonneg_iff
      algebra_simps split: if_splits)
  then show "128 < H" "H \<le> INT_MAX" using assms(3) by auto
qed

text \<open>C13. Initialising a heap: the call returns 0 and leaves one free block, behind the two
  blocks that hold the allocator's own list structure and its mutex.\<close>

theorem InitMyMalloc_ok:
  assumes "heapBlockHeader s = 0" "0 < n" "n \<le> INT_MAX" "128 < page_size w"
    and "round_heap_size (page_size w) n = Some H" "mmap w (word_of_int H) = Some heap"
    and "wf_memory (mem s)" "valid (mem s) stk 16" "fresh_region (mem s) heap (nat H)"
  shows "\<exists>s'. InitMyMalloc w stk n s = Some (0, s')
    \<and> heap_inv s' (heap + 104) [Block (heap + 104) (word_of_int H - 128)]
         [Block (heap + 40) SIZEOF_MUTEX, Block heap SIZEOF_FREELIST]
    \<and> heapBlockHeader s' = heap \<and> heapCapacity s' = word_of_int H"
proof -
  note H = rounded_bounds[OF assms(2-5)]
  obtain s' where "init_heap stk heap H s = Some s'"
    "heap_inv s' (heap + 104) [Block (heap + 104) (word_of_int H - 128)]
       [Block (heap + 40) SIZEOF_MUTEX, Block heap SIZEOF_FREELIST]"
    "heapBlockHeader s' = heap" "heapCapacity s' = word_of_int H"
    by (rule init_heap_ok[OF assms(7-9) H])
  then show ?thesis using assms(1,2,5,6) by (auto simp: InitMyMalloc_def)
qed

theorem InitMyMalloc_ok_witness:
  "\<exists>s'. InitMyMalloc linux 0x7000 4000 boot_state = Some (0, s')
    \<and> heap_inv s' 0x100068 [Block 0x100068 3968] [Block 0x100028 40, Block 0x100000 16]
    \<and> heapBlockHeader s' = 0x100000 \<and> heapCapacity s' = 4096"
  using InitMyMalloc_ok[where s = boot_state and n = 4000 and w = linux and H = 4096
      and heap = "0x100000" and stk = "0x7000"] boot_facts
  by (simp add: INT_MAX_def linux_def round_heap_size_def)

text \<open>Initialisation is refused, with a message and nothing else changed, when there is a heap
  already, when the requested size is not positive and when the system has no memory.\<close>

theorem InitMyMalloc_refuses:
  assumes "heapBlockHeader s \<noteq> 0 \<or> n \<le> 0
    \<or> (\<exists>H. round_heap_size (page_size w) n = Some H \<and> mmap w (word_of_int H) = None)"
  shows "InitMyMalloc w stk n s = Some (-1,
    say (if heapBlockHeader s \<noteq> 0 then ''Heap is already initialized''
         else if n \<le> 0 then ''Invalid heap size'' else ''Failed to allocate heap'') s)"
  using assms by (auto simp: InitMyMalloc_def)

theorem InitMyMalloc_refuses_witness:
  "InitMyMalloc linux 0x7000 0 boot_state = Some (-1, say ''Invalid heap size'' boot_state)"
  using InitMyMalloc_refuses[of boot_state 0 linux "0x7000"] by (simp add: boot_state_def)

section \<open>MyMalloc\<close>

lemma demo_heap:
  obtains s where "InitMyMalloc linux 0x7000 4000 boot_state = Some (0, s)"
    "heap_inv s 0x100068 [Block 0x100068 3968] [Block 0x100028 40, Block 0x100000 16]"
    "list_block s = Block 0x100000 16" "mutex_block s = Block 0x100028 40"
    "heapBlockHeader s = 0x100000" "heapCapacity s = 4096"
proof -
  obtain s' where "init_heap 0x7000 0x100000 4096 boot_state = Some s'"
    "heap_inv s' 0x100068 [Block 0x100068 3968] [Block 0x100028 40, Block 0x100000 16]"
    "list_block s' = Block 0x100000 16" "mutex_block s' = Block 0x100028 40"
    "heapBlockHeader s' = 0x100000" "heapCapacity s' = 4096"
    by (rule init_heap_ok[of boot_state "0x7000" "0x100000" 4096]) (use boot_facts in \<open>simp_all add: INT_MAX_def\<close>)
  then show thesis
    using that boot_facts(4) by (simp add: InitMyMalloc_def linux_def round_heap_size_def INT_MAX_def)
qed

text \<open>C1. An allocation with any of the four strategies takes exactly the block the strategy
  selects: the pointer is past that block's header, what is left of the block goes back into the
  list, the roving pointer moves on, the heap stays well formed. With no block that fits the
  result is \<^verbatim>\<open>NULL\<close> and nothing changes.\<close>

theorem MyMalloc_correct:
  assumes "heap_inv s nf xs us"
  shows "case select st n nf xs of
      None \<Rightarrow> MyMalloc n (strategy_code st) s = Some (0, s)
    | Some b \<Rightarrow> \<exists>s'. MyMalloc n (strategy_code st) s = Some (baddr b + SIZEOF_NODE, s')
        \<and> heap_inv s' (rover b n xs) (take_out b n xs) (granted b n # us)"
proof (cases "select st n nf xs")
  case None
  then have "\<forall>b \<in> set xs. bsize b < n" using select_None by blast
  then show ?thesis using MyMalloc_fail[OF assms] None by simp
next
  case (Some b)
  then show ?thesis using MyMalloc_success[OF assms Some] by auto
qed

theorem MyMalloc_correct_witness:
  "\<exists>s s'. InitMyMalloc linux 0x7000 4000 boot_state = Some (0, s)
     \<and> MyMalloc 100 0 s = Some (0x100080, s')
     \<and> heap_inv s' 0x1000e4 [Block 0x1000e4 3844]
         [Block 0x100068 100, Block 0x100028 40, Block 0x100000 16]"
proof (rule demo_heap)
  fix s
  assume s: "InitMyMalloc linux 0x7000 4000 boot_state = Some (0, s)"
    "heap_inv s 0x100068 [Block 0x100068 3968] [Block 0x100028 40, Block 0x100000 16]"
  show ?thesis
    using MyMalloc_correct[OF s(2), where st = BEST_FIT and n = 100] s(1)
    by (auto simp: granted_def residue_def rover_def head_addr_def)
qed

text \<open>C2. The memory handed out is safe to use: at least as large as asked for, inside the heap, and
  apart from every block in use; no byte of another block's payload changes.\<close>

theorem MyMalloc_region:
  assumes "heap_inv s nf xs us" "MyMalloc n (strategy_code st) s = Some (p, s')" "p \<noteq> 0"
  shows "\<exists>b. p = baddr b + SIZEOF_NODE \<and> n \<le> bsize b \<and> payload b \<subseteq> heap_area s
    \<and> (\<forall>c \<in> set us. payload b \<inter> extent c = {})
    \<and> (\<forall>c \<in> set us - {list_block s}. \<forall>x. unat x \<in> payload c \<longrightarrow> content (mem s') x = content (mem s) x)"
proof (cases "select st n nf xs")
  case None
  then show ?thesis using MyMalloc_fail[OF assms(1)] assms(2,3) by (simp add: select_None)
next
  case (Some b)
  obtain s1 where s1: "MyMalloc n (strategy_code st) s = Some (baddr b + SIZEOF_NODE, s1)"
    "heap_inv s1 (rover b n xs) (take_out b n xs) (granted b n # us)"
    "same_on (- (free_area xs \<union> rng (p_sharedFreeList s) 16)) (mem s) (mem s1)"
    using MyMalloc_success[OF assms(1) Some] by blast
  note e = select_Some[OF Some]
  have t: "tile (heap_area s) (xs @ us)" using assms(1) by (simp add: heap_inv_def)
  have bx: "b \<in> set (xs @ us)" using e by simp
  have gr: "extent (granted b n) \<subseteq> extent b" "n \<le> bsize (granted b n)"
    using granted_residue[OF tile_block_ok[OF t bx], of n] e by (auto simp: tile_Cons)
  have "extent b \<inter> extent c = {}" if "c \<in> set us" for c
    using allocated_apart(1)[OF assms(1) that] extent_free_area[of b xs] e by blast
  then show ?thesis
    using s1 assms(2) gr payload_extent[of "granted b n"] tile_sub[OF t bx] payload_kept[OF assms(1) _ _ s1(3)]
    by (intro exI[of _ "granted b n"]) auto
qed

theorem MyMalloc_region_witness:
  "\<exists>s s' b. MyMalloc 100 0 s = Some (0x100080, s') \<and> 0x100080 = baddr b + SIZEOF_NODE
     \<and> 100 \<le> bsize b \<and> payload b \<subseteq> heap_area s"
proof (rule demo_heap)
  fix s
  assume s: "heap_inv s 0x100068 [Block 0x100068 3968] [Block 0x100028 40, Block 0x100000 16]"
  obtain s' where m: "MyMalloc 100 (strategy_code BEST_FIT) s = Some (0x100080, s')"
    using MyMalloc_success[OF s, of BEST_FIT 100 "Block 0x100068 3968"] by auto
  show ?thesis using MyMalloc_region[OF s m] m by auto
qed

text \<open>An allocation fails exactly when no free block is large enough; an unknown strategy
  number always fails.\<close>

theorem MyMalloc_null_iff:
  assumes "heap_inv s nf xs us"
  shows "(\<exists>s'. MyMalloc n k s = Some (0, s')) \<longleftrightarrow>
    (k \<in> range strategy_code \<longrightarrow> (\<forall>b \<in> set xs. bsize b < n))"
proof (cases "k \<in> range strategy_code")
  case True
  then obtain st where k: "k = strategy_code st" by blast
  show ?thesis
  proof (cases "select st n nf xs")
    case None
    then show ?thesis using MyMalloc_fail[OF assms] k select_None by blast
  next
    case (Some b)
    obtain s' where s': "MyMalloc n (strategy_code st) s = Some (baddr b + SIZEOF_NODE, s')"
      "heap_inv s' (rover b n xs) (take_out b n xs) (granted b n # us)"
      using MyMalloc_success[OF assms Some] by blast
    have "baddr b + SIZEOF_NODE \<noteq> 0" using in_heap_bounds(1)[OF s'(2), of "granted b n"] by simp
    moreover have "\<not> (\<forall>b \<in> set xs. bsize b < n)" using select_Some[OF Some] by (auto simp: not_less)
    ultimately show ?thesis using k s'(1) True by auto
  qed
next
  case False
  have "k \<noteq> strategy_code st" for st using False by auto
  then have "MyMalloc n k s = Some (0, s\<lparr>mutex_held := False\<rparr>)"
    using assms by (simp add: MyMalloc_def heap_inv_def pthread_mutex_lock_def pthread_mutex_unlock_def
      del: strategy_code.simps)
  then show ?thesis using False by auto
qed

theorem MyMalloc_null_iff_witness:
  "\<exists>s. heap_inv s 0x100068 [Block 0x100068 3968] [Block 0x100028 40, Block 0x100000 16]
     \<and> (\<exists>s'. MyMalloc 3969 2 s = Some (0, s')) \<and> \<not> (\<exists>s'. MyMalloc 3968 2 s = Some (0, s'))
     \<and> (\<exists>s'. MyMalloc 1 4 s = Some (0, s'))"
proof (rule demo_heap)
  fix s
  assume s: "heap_inv s 0x100068 [Block 0x100068 3968] [Block 0x100028 40, Block 0x100000 16]"
  have "(2 :: int) = strategy_code FIRST_FIT" by simp
  then have r: "(2 :: int) \<in> range strategy_code" by (rule range_eqI)
  have "(4 :: int) \<noteq> strategy_code st" for st by (cases st) simp_all
  then have u: "(4 :: int) \<notin> range strategy_code" by auto
  show ?thesis
    using MyMalloc_null_iff[OF s, of 3969 2] MyMalloc_null_iff[OF s, of 3968 2]
      MyMalloc_null_iff[OF s, of 1 4] r u s
    by (intro exI[of _ s]) auto
qed

fun choice_ok :: "Strategy \<Rightarrow> size_t \<Rightarrow> addr \<Rightarrow> block list \<Rightarrow> block \<Rightarrow> bool" where
  "choice_ok BEST_FIT n nf xs b = (\<forall>c \<in> set xs. n \<le> bsize c \<longrightarrow> bsize b \<le> bsize c)"
| "choice_ok WORST_FIT n nf xs b = (\<forall>c \<in> set xs. bsize c \<le> bsize b)"
| "choice_ok FIRST_FIT n nf xs b = (\<exists>as cs. xs = as @ b # cs \<and> (\<forall>a \<in> set as. bsize a < n))"
| "choice_ok NEXT_FIT n nf xs b =
     (\<exists>as cs. rotate_to nf xs = as @ b # cs \<and> (\<forall>a \<in> set as. bsize a < n))"

lemma find_first: "find P xs = Some b \<Longrightarrow> \<exists>as cs. xs = as @ b # cs \<and> (\<forall>a \<in> set as. \<not> P a)"
proof (induction xs)
  case (Cons x xs)
  show ?case
  proof (cases "P x")
    case True
    then have "x # xs = [] @ b # xs \<and> (\<forall>a \<in> set []. \<not> P a)" using Cons.prems by simp
    then show ?thesis by blast
  next
    case False
    then obtain as cs where "xs = as @ b # cs" "\<forall>a \<in> set as. \<not> P a" using Cons by auto
    then have "x # xs = (x # as) @ b # cs \<and> (\<forall>a \<in> set (x # as). \<not> P a)" using False by simp
    then show ?thesis by blast
  qed
qed simp

lemma select_choice: "select st n nf xs = Some b \<Longrightarrow> choice_ok st n nf xs b"
proof (cases st)
  case BEST_FIT
  assume "select st n nf xs = Some b"
  then show ?thesis using BEST_FIT smallest_Some by fastforce
next
  case WORST_FIT
  assume "select st n nf xs = Some b"
  then have l: "largest (filter (\<lambda>c. n \<le> bsize c) xs) = Some b" using WORST_FIT by simp
  have "bsize c \<le> bsize b" if "c \<in> set xs" for c
    using largest_Some[OF l] that by (cases "n \<le> bsize c") auto
  then show ?thesis using WORST_FIT by simp
next
  case FIRST_FIT
  assume "select st n nf xs = Some b"
  then show ?thesis using FIRST_FIT find_first[of "\<lambda>c. n \<le> bsize c" xs b] by (auto simp: not_le)
next
  case NEXT_FIT
  assume "select st n nf xs = Some b"
  then show ?thesis
    using NEXT_FIT find_first[of "\<lambda>c. n \<le> bsize c" "rotate_to nf xs" b] by (auto simp: not_le)
qed

text \<open>C3. What the strategies promise: best fit a smallest block that is large enough, worst fit a
  largest one, first fit the first of the list, next fit the first from the roving pointer on,
  wrapping around.\<close>

theorem MyMalloc_policy:
  assumes "heap_inv s nf xs us" "MyMalloc n (strategy_code st) s = Some (p, s')" "p \<noteq> 0"
  shows "\<exists>b \<in> set xs. p = baddr b + SIZEOF_NODE \<and> n \<le> bsize b \<and> choice_ok st n nf xs b"
proof (cases "select st n nf xs")
  case None
  then have "\<forall>b \<in> set xs. bsize b < n" using select_None by blast
  then show ?thesis using MyMalloc_fail[OF assms(1)] assms(2,3) by simp
next
  case (Some b)
  obtain s1 where "MyMalloc n (strategy_code st) s = Some (baddr b + SIZEOF_NODE, s1)"
    using MyMalloc_success[OF assms(1) Some] by blast
  then show ?thesis using assms(2) select_Some[OF Some] select_choice[OF Some] by auto
qed

theorem MyMalloc_policy_witness:
  "\<exists>s s'. MyMalloc 100 1 s = Some (0x100080, s')
     \<and> choice_ok WORST_FIT 100 0x100068 [Block 0x100068 3968] (Block 0x100068 3968)"
proof (rule demo_heap)
  fix s
  assume s: "heap_inv s 0x100068 [Block 0x100068 3968] [Block 0x100028 40, Block 0x100000 16]"
  obtain s' where m: "MyMalloc 100 (strategy_code WORST_FIT) s = Some (0x100080, s')"
    using MyMalloc_success[OF s, of WORST_FIT 100 "Block 0x100068 3968"] by auto
  show ?thesis using MyMalloc_policy[OF s m] m by auto
qed

section \<open>MyFree\<close>

text \<open>C4. Freeing a block in use computes \<open>insert_free\<close> on the free list: the result is 0, the heap
  stays well formed without the block, and the payloads of the other blocks in use are untouched.
  Where \<open>insert_free\<close> has no value the call follows a null pointer and does not return.\<close>

theorem MyFree_correct:
  assumes "heap_inv s nf xs us" "b \<in> set us - {list_block s, mutex_block s}"
  shows "case insert_free b nf xs of
      None \<Rightarrow> MyFree (baddr b + SIZEOF_NODE) s = None
    | Some (ys, nf') \<Rightarrow> \<exists>s'. MyFree (baddr b + SIZEOF_NODE) s = Some (0, s')
        \<and> heap_inv s' nf' ys (remove1 b us)
        \<and> (\<forall>c \<in> set us - {b, list_block s}. \<forall>x. unat x \<in> payload c \<longrightarrow> content (mem s') x = content (mem s) x)"
proof (cases "insert_free b nf xs")
  case None
  then show ?thesis using MyFree_ok(1)[OF assms(1)] assms(2) by auto
next
  case (Some r)
  obtain ys nf' where r: "insert_free b nf xs = Some (ys, nf')" using Some by (cases r) auto
  obtain m' where m': "MyFree (baddr b + SIZEOF_NODE) s = Some (0, s\<lparr>mem := m'\<rparr>)"
    "heap_inv (s\<lparr>mem := m'\<rparr>) nf' ys (remove1 b us)"
    "same_on (- (free_area (b # xs) \<union> rng (p_sharedFreeList s) 16)) (mem s) m'"
    using MyFree_ok(2)[OF assms(1) _ _ _ r] assms(2) by blast
  have "content m' x = content (mem s) x"
    if c: "c \<in> set us - {b, list_block s}" and x: "unat x \<in> payload c" for c x
  proof -
    have cu: "c \<in> set us" "c \<noteq> list_block s" using c by auto
    note a = allocated_apart(1)[OF assms(1) cu(1)] allocated_apart(3)[OF assms(1) cu]
    have t: "tile (heap_area s) (xs @ us)" using assms(1) by (simp add: heap_inv_def)
    have "extent c \<inter> extent b = {}" using tile_disjoint[OF t, of c b] c assms(2) by auto
    then have "unat x \<in> - (free_area (b # xs) \<union> rng (p_sharedFreeList s) 16)"
      using a x payload_extent[of c] by auto
    then show ?thesis using m'(3) unfolding same_on_def by blast
  qed
  then show ?thesis using m'(1,2) r by auto
qed

text \<open>Four blocks of 100 bytes at the start of the heap, by first fit.\<close>

abbreviation "blkA \<equiv> Block 0x100068 100"
abbreviation "blkB \<equiv> Block 0x1000e4 100"
abbreviation "blkC \<equiv> Block 0x100160 100"
abbreviation "blkD \<equiv> Block 0x1001dc 100"
abbreviation "restR \<equiv> Block 0x100258 3472"

lemma demo_four:
  obtains s0 s1 s2 s3 s where "InitMyMalloc linux 0x7000 4000 boot_state = Some (0, s0)"
    "MyMalloc 100 2 s0 = Some (0x100080, s1)" "MyMalloc 100 2 s1 = Some (0x1000fc, s2)"
    "MyMalloc 100 2 s2 = Some (0x100178, s3)" "MyMalloc 100 2 s3 = Some (0x1001f4, s)"
    "heap_inv s 0x100258 [restR] [blkD, blkC, blkB, blkA, Block 0x100028 40, Block 0x100000 16]"
    "list_block s = Block 0x100000 16" "mutex_block s = Block 0x100028 40"
proof (rule demo_heap)
  fix s0
  assume s0: "InitMyMalloc linux 0x7000 4000 boot_state = Some (0, s0)"
    "heap_inv s0 0x100068 [Block 0x100068 3968] [Block 0x100028 40, Block 0x100000 16]"
    "list_block s0 = Block 0x100000 16" "mutex_block s0 = Block 0x100028 40"
  note defs = granted_def residue_def rover_def head_addr_def
  obtain s1 where s1: "MyMalloc 100 2 s0 = Some (0x100080, s1)"
    "heap_inv s1 0x1000e4 [Block 0x1000e4 3844] [blkA, Block 0x100028 40, Block 0x100000 16]"
    "list_block s1 = Block 0x100000 16" "mutex_block s1 = Block 0x100028 40"
    by (rule MyMalloc_success[OF s0(2), of FIRST_FIT 100 "Block 0x100068 3968"])
      (use s0 in \<open>simp_all add: defs\<close>)
  obtain s2 where s2: "MyMalloc 100 2 s1 = Some (0x1000fc, s2)"
    "heap_inv s2 0x100160 [Block 0x100160 3720] [blkB, blkA, Block 0x100028 40, Block 0x100000 16]"
    "list_block s2 = Block 0x100000 16" "mutex_block s2 = Block 0x100028 40"
    by (rule MyMalloc_success[OF s1(2), of FIRST_FIT 100 "Block 0x1000e4 3844"])
      (use s1 in \<open>simp_all add: defs\<close>)
  obtain s3 where s3: "MyMalloc 100 2 s2 = Some (0x100178, s3)"
    "heap_inv s3 0x1001dc [Block 0x1001dc 3596] [blkC, blkB, blkA, Block 0x100028 40, Block 0x100000 16]"
    "list_block s3 = Block 0x100000 16" "mutex_block s3 = Block 0x100028 40"
    by (rule MyMalloc_success[OF s2(2), of FIRST_FIT 100 "Block 0x100160 3720"])
      (use s2 in \<open>simp_all add: defs\<close>)
  obtain s where s: "MyMalloc 100 2 s3 = Some (0x1001f4, s)"
    "heap_inv s 0x100258 [restR] [blkD, blkC, blkB, blkA, Block 0x100028 40, Block 0x100000 16]"
    "list_block s = Block 0x100000 16" "mutex_block s = Block 0x100028 40"
    by (rule MyMalloc_success[OF s3(2), of FIRST_FIT 100 "Block 0x1001dc 3596"])
      (use s3 in \<open>simp_all add: defs\<close>)
  show thesis using that s0(1) s1(1) s2(1) s3(1) s by blast
qed

text \<open>The first free of a script: the first block goes back to the front of the list.\<close>

lemma demo_free_A:
  obtains s s' where
    "heap_inv s 0x100258 [restR] [blkD, blkC, blkB, blkA, Block 0x100028 40, Block 0x100000 16]"
    "list_block s = Block 0x100000 16" "mutex_block s = Block 0x100028 40"
    "MyFree 0x100080 s = Some (0, s')"
    "heap_inv s' 0x100258 [blkA, restR] [blkD, blkC, blkB, Block 0x100028 40, Block 0x100000 16]"
    "list_block s' = Block 0x100000 16" "mutex_block s' = Block 0x100028 40"
proof (rule demo_four)
  fix s
  assume s: "heap_inv s 0x100258 [restR] [blkD, blkC, blkB, blkA, Block 0x100028 40, Block 0x100000 16]"
    "list_block s = Block 0x100000 16" "mutex_block s = Block 0x100028 40"
  have i: "insert_free blkA 0x100258 [restR] = Some ([blkA, restR], 0x100258)"
    by (simp add: insert_free_def join_def adjacent_def)
  obtain m' where m': "MyFree (baddr blkA + SIZEOF_NODE) s = Some (0, s\<lparr>mem := m'\<rparr>)"
    "heap_inv (s\<lparr>mem := m'\<rparr>) 0x100258 [blkA, restR]
       (remove1 blkA [blkD, blkC, blkB, blkA, Block 0x100028 40, Block 0x100000 16])"
    using MyFree_ok(2)[OF s(1) _ _ _ i] s(2,3) by auto
  then show thesis
    using that[of s "s\<lparr>mem := m'\<rparr>"] s by (simp add: list_block_def mutex_block_def)
qed

theorem MyFree_correct_witness:
  "\<exists>s s'. heap_inv s 0x100258 [restR] [blkD, blkC, blkB, blkA, Block 0x100028 40, Block 0x100000 16]
     \<and> MyFree 0x100080 s = Some (0, s')
     \<and> heap_inv s' 0x100258 [blkA, restR] [blkD, blkC, blkB, Block 0x100028 40, Block 0x100000 16]"
proof (rule demo_four)
  fix s
  assume s: "heap_inv s 0x100258 [restR] [blkD, blkC, blkB, blkA, Block 0x100028 40, Block 0x100000 16]"
    "list_block s = Block 0x100000 16" "mutex_block s = Block 0x100028 40"
  have "blkA \<in> set [blkD, blkC, blkB, blkA, Block 0x100028 40, Block 0x100000 16] - {list_block s, mutex_block s}"
    using s by simp
  from MyFree_correct[OF s(1) this] s show ?thesis
    by (auto simp: insert_free_def join_def adjacent_def)
qed

text \<open>C10. A crash: freeing a block between two free blocks that touch neither side, while the roving
  pointer names the block after it, makes \<^verbatim>\<open>MyFree\<close> read the \<^verbatim>\<open>next\<close> field of the null pointer that
  \<^verbatim>\<open>coalesceFreeList\<close> returns when nothing merges. Allocating four blocks and freeing the first
  and the third is enough.\<close>

theorem MyFree_null_dereference:
  assumes "heap_inv s (baddr c) (as @ c # cs) us" "b \<in> set us - {list_block s, mutex_block s}"
    and "ordered (as @ c # cs)" "as \<noteq> []" "baddr (last as) < baddr b" "baddr b < baddr c"
    and "\<not> adjacent (last as) b" "\<not> adjacent b c"
  shows "MyFree (baddr b + SIZEOF_NODE) s = None"
proof -
  have lo: "baddr a < baddr b" if "a \<in> set as" for a
  proof (cases "a = last as")
    case False
    have "as = butlast as @ [last as]" using assms(4) by simp
    moreover from this have "a \<in> set (butlast as)"
      using that False by (metis UnE empty_iff empty_set set_ConsD set_append)
    ultimately have "baddr a < baddr (last as)"
      using assms(3) by (metis ordered_append list.set_intros(1))
    then show ?thesis using assms(5) by simp
  qed (use assms(5) in simp)
  have "scan (baddr b) (as @ c # cs) = (as, c # cs)"
    using lo assms(6) by (intro scan_at) (auto intro: less_imp_le)
  then have "insert_free b (baddr c) (as @ c # cs) = None"
    using assms(4,7,8) by (simp add: insert_free_def)
  then show ?thesis using MyFree_ok(1)[OF assms(1)] assms(2) by auto
qed

theorem MyFree_null_dereference_witness:
  "\<exists>s s'. MyFree 0x100080 s = Some (0, s') \<and> MyFree 0x100178 s' = None"
proof (rule demo_free_A)
  fix s s'
  assume s: "MyFree 0x100080 s = Some (0, s')"
    "heap_inv s' 0x100258 [blkA, restR] [blkD, blkC, blkB, Block 0x100028 40, Block 0x100000 16]"
    "list_block s' = Block 0x100000 16" "mutex_block s' = Block 0x100028 40"
  have "MyFree (baddr blkC + SIZEOF_NODE) s' = None"
    by (rule MyFree_null_dereference[where as = "[blkA]" and c = restR and cs = "[]"
      and us = "[blkD, blkC, blkB, Block 0x100028 40, Block 0x100000 16]"])
      (use s in \<open>simp_all add: ordered_Cons adjacent_def\<close>)
  then show ?thesis using s(1) by auto
qed

text \<open>\<^verbatim>\<open>MyFree\<close> refuses, with a message and without touching the heap: any call before
  initialisation, the null pointer, a block header outside the heap, a header without the magic
  number, and a block that is marked free.\<close>

theorem MyFree_refuses:
  assumes "\<not> mutex_held s"
    and "heapBlockHeader s = 0 \<or> ptr = 0 \<or> ptr - SIZEOF_NODE < heapBlockHeader s
      \<or> heapBlockHeader s + heapCapacity s < ptr - SIZEOF_NODE
      \<or> (\<exists>g. ld_magic (mem s) (ptr - SIZEOF_NODE) = Some g
           \<and> (g \<noteq> MAGIC_NUMBER \<or> ld_isFreed (mem s) (ptr - SIZEOF_NODE) = Some 1))"
  shows "MyFree ptr s = Some (-1, say (if heapBlockHeader s = 0 then ''Heap is not initialized''
                                      else ''Invalid pointer'') s)"
  using assms
  by (auto simp: MyFree_def pthread_mutex_lock_def pthread_mutex_unlock_def say_def Let_def)

theorem MyFree_refuses_witness:
  "\<exists>s. MyFree 0 s = Some (-1, say ''Invalid pointer'' s)
     \<and> MyFree 0xFFF s = Some (-1, say ''Invalid pointer'' s)
     \<and> MyFree 8 boot_state = Some (-1, say ''Heap is not initialized'' boot_state)"
proof (rule demo_heap)
  fix s
  assume s: "heapBlockHeader s = 0x100000"
    "heap_inv s 0x100068 [Block 0x100068 3968] [Block 0x100028 40, Block 0x100000 16]"
  then have h: "\<not> mutex_held s" by (simp add: heap_inv_def)
  have b: "\<not> mutex_held boot_state" "heapBlockHeader boot_state = 0" by (simp_all add: boot_state_def)
  show ?thesis
    using MyFree_refuses[OF h, of 0] MyFree_refuses[OF h, of "0xFFF"] MyFree_refuses[OF b(1), of 8] s b
    by (intro exI[of _ s]) simp
qed

section \<open>Double frees\<close>

text \<open>What \<^verbatim>\<open>MyFree\<close> writes into headers: sizes and links only, once the block is marked.\<close>

lemma store_u64_writes: "store_u64 m a v = Some m' \<Longrightarrow> wf_memory m \<Longrightarrow> same_on (- rng a 8) m m'"
  using store_u64_ok[of m a v] by (metis option.inject option.distinct(1) store_u64_def)

lemma st_writes:
  assumes "wf_memory m"
  shows "st_size m p v = Some m' \<Longrightarrow> same_on (- rng p 16) m m'"
    and "st_next m p v = Some m' \<Longrightarrow> same_on (- rng p 16) m m'"
    and "st_head m p v = Some m' \<Longrightarrow> same_on (- rng p 16) m m'"
    and "st_nextFree m p v = Some m' \<Longrightarrow> same_on (- rng p 16) m m'"
proof -
  have a: "same_on (- rng p 16) m m'" if "store_u64 m p v = Some m'"
    by (rule same_on_mono[OF store_u64_writes[OF that assms]]) (auto simp: rng_def)
  have b: "same_on (- rng p 16) m m'" if st: "store_u64 m (p + 8) v = Some m'"
  proof -
    have v: "valid m (p + 8) 8" using st by (auto simp: store_u64_def split: if_splits)
    have "unat p + 8 < 2 ^ 64"
    proof (rule ccontr)
      assume "\<not> ?thesis"
      then have "unat (p + 8) = unat p + 8 - 2 ^ 64"
        using unat_lt64[of p] by (simp add: unat_word_ariths le_mod_geq)
      then show False using valid_bound(3)[OF assms v] unat_lt64[of p] by simp
    qed
    then have "unat (p + 8) = unat p + 8" by (subst unat_add_no_wrap) auto
    then show ?thesis
      by (intro same_on_mono[OF store_u64_writes[OF st assms]]) (auto simp: rng_def)
  qed
  show "st_size m p v = Some m' \<Longrightarrow> same_on (- rng p 16) m m'"
    "st_next m p v = Some m' \<Longrightarrow> same_on (- rng p 16) m m'"
    "st_head m p v = Some m' \<Longrightarrow> same_on (- rng p 16) m m'"
    "st_nextFree m p v = Some m' \<Longrightarrow> same_on (- rng p 16) m m'"
    using a b by (auto simp: st_size_def st_next_def st_head_def st_nextFree_def)
qed

text \<open>\<open>writes W m m'\<close>: a computation that stays well formed and only changes \<open>W\<close>.\<close>

definition writes :: "nat set \<Rightarrow> memory \<Rightarrow> memory \<Rightarrow> bool" where
  "writes W m m' \<longleftrightarrow> (wf_memory m \<longrightarrow> wf_memory m' \<and> same_on (- W) m m')"

lemma writes_refl [simp, intro]: "writes W m m"
  by (simp add: writes_def)

lemma writes_trans: "writes W m m' \<Longrightarrow> writes W m' m'' \<Longrightarrow> writes W m m''"
  by (auto simp: writes_def dest: same_on_trans)

lemma writes_st:
  assumes "rng p 16 \<subseteq> W"
  shows "st_size m p v = Some m' \<Longrightarrow> writes W m m'"
    and "st_next m p v = Some m' \<Longrightarrow> writes W m m'"
    and "st_head m p v = Some m' \<Longrightarrow> writes W m m'"
    and "st_nextFree m p v = Some m' \<Longrightarrow> writes W m m'"
  using assms same_on_wf[of "- rng p 16" m m'] same_on_mono[of "- rng p 16" m m' "- W"]
    st_writes[of m p v m']
  by (auto simp: writes_def)

lemma coalesceFreeList_writes:
  assumes "coalesceFreeList m b prev nxt = Some (q, m')" "rng b 16 \<subseteq> W" "rng prev 16 \<subseteq> W"
  shows "writes W m m'"
  using assms writes_st[of b W] writes_st[of prev W]
  by (auto simp: coalesceFreeList_def bind_Some_iff split: if_splits) (meson writes_trans)+

lemma free_insert_writes:
  assumes "free_insert m fl b = Some m'" "ld_head m fl = Some h"
    and "free_scan m b h 0 = Some (current, prev)"
    and W: "rng b 16 \<subseteq> W" "rng fl 16 \<subseteq> W" "rng prev 16 \<subseteq> W"
  shows "writes W m m'"
proof -
  have fx: "fix_rover m1 fl cur q = Some m2 \<Longrightarrow> writes W m1 m2" for m1 m2 cur q
    using writes_st(4)[OF W(2)] by (auto simp: fix_rover_def bind_Some_iff split: if_splits)
  have co: "coalesceFreeList m1 b prev nxt = Some (q, m2) \<Longrightarrow> writes W m1 m2" for m1 m2 nxt q
    using coalesceFreeList_writes W(1,3) by blast
  note st = writes_st[OF W(1)] writes_st[OF W(2)] writes_st[OF W(3)]
  show ?thesis
    using assms(1-3) st fx co
    by (auto simp: free_insert_def bind_Some_iff split: if_splits) (meson writes_trans)+
qed

text \<open>After the mark, \<^verbatim>\<open>MyFree\<close> writes links and sizes only: not the mark, nor the magic number of the block.\<close>

lemma marked_free_writes:
  assumes ls: "list_store m fl xs" and ins: "insertable m fl xs b"
    and r: "(if head_addr xs = 0 then do { m \<leftarrow> st_head m fl (baddr b); st_next m (baddr b) 0 }
      else free_insert m fl (baddr b)) = Some m'"
  obtains W where "writes W m m'" "{unat (baddr b) + 16 ..< unat (baddr b) + 24} \<inter> W = {}"
proof (cases "head_addr xs = 0")
  let ?H = "{unat (baddr b) + 16 ..< unat (baddr b) + 24}"
  have H: "?H \<subseteq> extent b" "?H \<inter> rng (baddr b) 16 = {}" by (auto simp: extent_def rng_def)
  have ef: "extent b \<inter> rng fl 16 = {}" "extent b \<inter> free_area xs = {}" using ins by (auto simp: insertable_def)
  {
    case True
    then obtain m1 where m: "st_head m fl (baddr b) = Some m1" "st_next m1 (baddr b) 0 = Some m'"
      using r by (auto simp: bind_Some_iff)
    have "writes (rng (baddr b) 16 \<union> rng fl 16) m m'"
      by (rule writes_trans[OF writes_st(3)[OF _ m(1)] writes_st(2)[OF _ m(2)]]) auto
    then show thesis by (rule that) (use H ef in blast)
  next
    case False
    note l = list_storeD[OF ls]
    define as where "as = fst (scan (baddr b) xs)"
    have "?H \<inter> rng (last_addr 0 as) 16 = {}"
    proof (cases "as = []")
      case True
      have "4096 \<le> unat (baddr b)"
        using valid_bound(3) insertable_node[OF ls ins] by (auto simp: node_ok_def)
      then show ?thesis using True by (simp add: rng_def last_addr_def)
    next
      case False
      then have "last as \<in> set (as @ snd (scan (baddr b) xs))" by simp
      then have "last as \<in> set xs" unfolding as_def scan_append .
      then have "rng (last_addr 0 as) 16 \<subseteq> free_area xs"
        using rng16_extent extent_free_area False by (fastforce simp: last_addr_def)
      then show ?thesis using H(1) ef(2) by auto
    qed
    moreover have "writes (rng (baddr b) 16 \<union> rng fl 16 \<union> rng (last_addr 0 as) 16) m m'"
      using False r by (intro free_insert_writes[OF _ l(1) free_scan_seg[OF l(2)]]) (auto simp: as_def)
    ultimately show thesis using that H ef by blast
  }
qed

lemma freed_header:
  assumes inv: "heap_inv s nf xs us" and b: "b \<in> set us" "b \<noteq> list_block s"
    and fr: "MyFree (baddr b + SIZEOF_NODE) s = Some (r, s')"
  obtains m' where "s' = s\<lparr>mem := m'\<rparr>" "r = 0"
    "ld_magic m' (baddr b) = Some MAGIC_NUMBER" "ld_isFreed m' (baddr b) = Some 1"
proof -
  let ?fl = "p_sharedFreeList s"
  note a = allocated_apart[OF inv b(1)]
  obtain m0 where m0: "st_isFreed (mem s) (baddr b) 1 = Some m0" "free_store m0 ?fl xs nf" "insertable m0 ?fl xs b"
    using isFreed_written[OF inv b(1,2)] .
  obtain m0' where m0': "st_isFreed (mem s) (baddr b) 1 = Some m0'" "ld_isFreed m0' (baddr b) = Some 1"
    "same_on (- {unat (baddr b) + 20 ..< unat (baddr b) + 24}) (mem s) m0'"
    using st_isFreed_ok[OF a(4)] .
  have h0: "ld_magic m0 (baddr b) = Some MAGIC_NUMBER" "ld_isFreed m0 (baddr b) = Some 1"
    using m0(1) m0' ld_frames(3)[OF m0'(3) a(4)] in_heap_bounds(4)[OF inv b(1)] by auto
  note ls = m0(2)[unfolded free_store_iff, THEN conjunct1]
  note nb = insertable_node[OF ls m0(3)]
  obtain m' where m': "s' = s\<lparr>mem := m'\<rparr>" "r = 0"
    "(if head_addr xs = 0 then do { m \<leftarrow> st_head m0 ?fl (baddr b); st_next m (baddr b) 0 }
      else free_insert m0 ?fl (baddr b)) = Some m'"
    using fr MyFree_unfold[OF inv b(1) m0(1) list_storeD(1)[OF ls]] by (auto simp: bind_Some_iff split: if_splits)
  obtain W where w: "writes W m0 m'" "{unat (baddr b) + 16 ..< unat (baddr b) + 24} \<inter> W = {}"
    using marked_free_writes[OF ls m0(3) m'(3)] .
  have so: "same_on (- W) m0 m'" using w(1) nb by (simp add: writes_def node_ok_def)
  have "{unat (baddr b) + 16 ..< unat (baddr b) + 20} \<subseteq> - W" "{unat (baddr b) + 20 ..< unat (baddr b) + 24} \<subseteq> - W"
    using w(2) by (auto simp: disjoint_iff)
  then show thesis
    using that m'(1,2) h0 ld_frames(3,4)[OF so nb] by auto
qed

text \<open>C5. Freeing the same pointer twice in a row is always caught: the header keeps its mark even
  when the block has been merged into a neighbour, so the second call reports an invalid pointer
  and changes nothing else.\<close>

theorem double_free_refused:
  assumes "heap_inv s nf xs us" "b \<in> set us - {list_block s, mutex_block s}"
    and "MyFree (baddr b + SIZEOF_NODE) s = Some (r, s')"
  shows "MyFree (baddr b + SIZEOF_NODE) s' = Some (-1, say ''Invalid pointer'' s')"
proof -
  have b: "b \<in> set us" "b \<noteq> list_block s" using assms(2) by auto
  obtain m' where m': "s' = s\<lparr>mem := m'\<rparr>" "ld_magic m' (baddr b) = Some MAGIC_NUMBER"
    "ld_isFreed m' (baddr b) = Some 1"
    using freed_header[OF assms(1) b assms(3)] by metis
  then show ?thesis
    using in_heap_bounds[OF assms(1) b(1)] assms(1)
    by (simp add: MyFree_def heap_inv_def pthread_mutex_lock_def pthread_mutex_unlock_def say_def)
qed

theorem double_free_refused_witness:
  "\<exists>s s'. MyFree 0x100080 s = Some (0, s')
     \<and> MyFree 0x100080 s' = Some (-1, say ''Invalid pointer'' s')"
proof (rule demo_free_A)
  fix s s'
  assume s: "heap_inv s 0x100258 [restR] [blkD, blkC, blkB, blkA, Block 0x100028 40, Block 0x100000 16]"
    "list_block s = Block 0x100000 16" "mutex_block s = Block 0x100028 40"
    "MyFree 0x100080 s = Some (0, s')"
  have "MyFree (baddr blkA + SIZEOF_NODE) s' = Some (-1, say ''Invalid pointer'' s')"
    by (rule double_free_refused[OF s(1)]) (use s in simp_all)
  then show ?thesis using s(4) by auto
qed

end
