(* ===== verification/HeapSession.thy ===== *)
theory HeapSession
  imports AllocatorProps
begin

text \<open>
  Properties of whole runs of the allocator: freeing what was allocated, the order of the free
  list, sessions of calls as a step relation with its invariant, the lines of \<^verbatim>\<open>DumpFreeList\<close>,
  and the end of a heap by \<^verbatim>\<open>unInitMyMalloc\<close>.
\<close>

section \<open>Allocating and freeing\<close>

lemma granted_new:
  assumes "heap_inv s nf xs (granted b n # us)"
  shows "granted b n \<notin> set us"
  using assms by (auto simp: heap_inv_def tile_def)

text \<open>C7. On a heap whose free list is sorted and coalesced, an allocation that splits the block it finds
  (one larger than the request and a header), followed at once by the free of its pointer, succeeds and restores the
  free list, block for block. A block that is handed out whole is not covered: it may come back at another place of the
  list (C11), or not at all (C10).\<close>

theorem malloc_free_roundtrip:
  assumes "heap_inv s nf xs us" "ordered xs" "coalesced xs"
    and "select st n nf xs = Some b" "n + SIZEOF_NODE < bsize b"
  shows "\<exists>p s' s'' nf'. MyMalloc n (strategy_code st) s = Some (p, s') \<and> p \<noteq> 0
    \<and> MyFree p s' = Some (0, s'') \<and> heap_inv s'' nf' xs us"
proof -
  obtain s' where s': "MyMalloc n (strategy_code st) s = Some (baddr b + SIZEOF_NODE, s')"
    "heap_inv s' (rover b n xs) (take_out b n xs) (granted b n # us)"
    "list_block s' = list_block s" "mutex_block s' = mutex_block s"
    using MyMalloc_success[OF assms(1,4)] by blast
  note e = select_Some[OF assms(4)]
  have t: "tile (free_area xs) xs" using assms(1) by (simp add: heap_inv_def free_store_def)
  obtain nf' where i: "insert_free (granted b n) (rover b n xs) (take_out b n xs) = Some (xs, nf')"
    using take_out_insert_free[OF t assms(2,3) _ _ assms(5)] e by blast
  have "granted b n \<notin> set us" by (rule granted_new[OF s'(2)])
  moreover have "list_block s \<in> set us" "mutex_block s \<in> set us"
    using assms(1) by (auto simp: heap_inv_def)
  ultimately have "granted b n \<noteq> list_block s'" "granted b n \<noteq> mutex_block s'" using s'(3,4) by auto
  then obtain m' where "MyFree (baddr b + SIZEOF_NODE) s' = Some (0, s'\<lparr>mem := m'\<rparr>)"
    "heap_inv (s'\<lparr>mem := m'\<rparr>) nf' xs us"
    using MyFree_ok(2)[OF s'(2) _ _ _ i] by auto
  moreover have "baddr b + SIZEOF_NODE \<noteq> 0" using in_heap_bounds(1)[OF s'(2), of "granted b n"] by simp
  ultimately show ?thesis using s'(1) by blast
qed

theorem malloc_free_roundtrip_witness:
  "\<exists>s p s' s'' nf'. MyMalloc 10 3 s = Some (p, s') \<and> MyFree p s' = Some (0, s'')
     \<and> heap_inv s'' nf' [Block 0x100068 3968] [Block 0x100028 40, Block 0x100000 16]"
proof (rule demo_heap)
  fix s
  assume s: "heap_inv s 0x100068 [Block 0x100068 3968] [Block 0x100028 40, Block 0x100000 16]"
  have "\<exists>p s' s'' nf'. MyMalloc 10 (strategy_code NEXT_FIT) s = Some (p, s') \<and> p \<noteq> 0
    \<and> MyFree p s' = Some (0, s'') \<and> heap_inv s'' nf' [Block 0x100068 3968] [Block 0x100028 40, Block 0x100000 16]"
    by (rule malloc_free_roundtrip[OF s, of NEXT_FIT 10 "Block 0x100068 3968"])
      (simp_all add: ordered_Cons coalesced_Cons rotate_to_def)
  then show ?thesis unfolding strategy_code.simps by blast
qed

section \<open>The order of the free list\<close>

text \<open>Allocating keeps the free list sorted by address and coalesced.\<close>

theorem MyMalloc_keeps_order:
  assumes "heap_inv s nf xs us" "ordered xs" "coalesced xs"
    and "MyMalloc n (strategy_code st) s = Some (p, s')"
  shows "\<exists>nf' xs' us'. heap_inv s' nf' xs' us' \<and> ordered xs' \<and> coalesced xs'"
proof (cases "select st n nf xs")
  case None
  then have "\<forall>b \<in> set xs. bsize b < n" using select_None by blast
  then show ?thesis using MyMalloc_fail[OF assms(1)] assms by auto
next
  case (Some b)
  obtain s1 where s1: "MyMalloc n (strategy_code st) s = Some (baddr b + SIZEOF_NODE, s1)"
    "heap_inv s1 (rover b n xs) (take_out b n xs) (granted b n # us)"
    using MyMalloc_success[OF assms(1) Some] by blast
  have t: "tile (free_area xs) xs" using assms(1) by (simp add: heap_inv_def free_store_def)
  show ?thesis
    using take_out_ordered[OF t assms(2), of b n] select_Some[OF Some] assms(3,4) s1 by auto
qed

theorem MyMalloc_keeps_order_witness:
  "\<exists>s s' nf xs us. MyMalloc 100 2 s = Some (0x100080, s') \<and> heap_inv s' nf xs us \<and> ordered xs \<and> coalesced xs"
proof (rule demo_heap)
  fix s
  assume s: "heap_inv s 0x100068 [Block 0x100068 3968] [Block 0x100028 40, Block 0x100000 16]"
  obtain s' where m: "MyMalloc 100 (strategy_code FIRST_FIT) s = Some (0x100080, s')"
    using MyMalloc_success[OF s, of FIRST_FIT 100 "Block 0x100068 3968"] by auto
  have "\<exists>nf' xs' us'. heap_inv s' nf' xs' us' \<and> ordered xs' \<and> coalesced xs'"
    by (rule MyMalloc_keeps_order[OF s _ _ m]) (simp_all add: ordered_Cons coalesced_Cons)
  then show ?thesis using m unfolding strategy_code.simps by blast
qed

text \<open>C8. Freeing keeps the list sorted and coalesced as long as some free block lies above the
  freed one.\<close>

theorem MyFree_keeps_order:
  assumes "heap_inv s nf xs us" "ordered xs" "coalesced xs"
    and "b \<in> set us - {list_block s, mutex_block s}" "\<exists>d \<in> set xs. baddr b < baddr d"
    and "MyFree (baddr b + SIZEOF_NODE) s = Some (r, s')"
  shows "\<exists>nf' xs'. heap_inv s' nf' xs' (remove1 b us) \<and> ordered xs' \<and> coalesced xs'
    \<and> free_area xs' = extent b \<union> free_area xs"
proof -
  have b: "b \<in> set us" "b \<noteq> list_block s" "b \<noteq> mutex_block s" using assms(4) by auto
  have "insert_free b nf xs \<noteq> None" by (rule notI) (use MyFree_ok(1)[OF assms(1) b] assms(6) in simp)
  then obtain ys nf' where i: "insert_free b nf xs = Some (ys, nf')" by (metis option.exhaust surj_pair)
  then have s': "heap_inv s' nf' ys (remove1 b us)"
    using MyFree_ok(2)[OF assms(1) b] assms(6) by fastforce
  have tb: "tile (free_area (b # xs)) (b # xs)" by (rule freed_tile[OF assms(1) b(1)])
  then have "baddr b \<notin> baddr ` set xs" using tile_distinct_fst by fastforce
  from insert_free_ordered[OF assms(2) this assms(5) i]
  have "ordered ys" "coalesced ys" using assms(3) by auto
  moreover have "free_area ys = extent b \<union> free_area xs"
    using tile_is_free_area[OF insert_free_tile[OF tb i]] by simp
  ultimately show ?thesis using s' by blast
qed

theorem MyFree_keeps_order_witness:
  "\<exists>s s' nf xs us. MyFree 0x100080 s = Some (0, s') \<and> heap_inv s' nf xs us \<and> ordered xs \<and> coalesced xs"
proof (rule demo_free_A)
  fix s s'
  assume s: "heap_inv s 0x100258 [restR] [blkD, blkC, blkB, blkA, Block 0x100028 40, Block 0x100000 16]"
    "list_block s = Block 0x100000 16" "mutex_block s = Block 0x100028 40"
    "MyFree 0x100080 s = Some (0, s')"
  have b: "blkA \<in> set [blkD, blkC, blkB, blkA, Block 0x100028 40, Block 0x100000 16] - {list_block s, mutex_block s}"
    using s(2,3) by simp
  have "\<exists>nf' xs'. heap_inv s' nf' xs' (remove1 blkA [blkD, blkC, blkB, blkA, Block 0x100028 40, Block 0x100000 16])
    \<and> ordered xs' \<and> coalesced xs' \<and> free_area xs' = extent blkA \<union> free_area [restR]"
    by (rule MyFree_keeps_order[OF s(1) _ _ b, of 0]) (use s(4) in \<open>simp_all add: ordered_Cons coalesced_Cons\<close>)
  then show ?thesis using s(4) by blast
qed



section \<open>Sessions\<close>

text \<open>The number of bytes of a list of blocks, headers included.\<close>

definition footprint :: "block list \<Rightarrow> nat" where
  "footprint bs = sum_list (map (\<lambda>b. 24 + unat (bsize b)) bs)"

lemma tile_card: "tile A bs \<Longrightarrow> finite A \<and> card A = footprint bs"
proof (induction bs arbitrary: A)
  case (Cons b bs)
  then have f: "finite (A - extent b)" "card (A - extent b) = footprint bs" "extent b \<subseteq> A"
    by (auto simp: tile_Cons)
  have fe: "finite (extent b)" "card (extent b) = 24 + unat (bsize b)" by (auto simp: extent_def)
  have fA: "finite A" using f fe by (metis finite_Diff2)
  have "card A = card (A - extent b) + card (extent b)"
    using card_Diff_subset[OF fe(1) f(3)] card_mono[OF fA f(3)] by simp
  then show ?case using f(2) fe(2) fA by (simp add: footprint_def)
qed (simp add: footprint_def)

text \<open>A client's own store into the payload of a block it holds.\<close>

definition client_write :: "addr \<Rightarrow> byte \<Rightarrow> heap_state \<Rightarrow> heap_state" where
  "client_write x v s = s\<lparr>mem := (mem s)\<lparr>content := (content (mem s))(x := v)\<rparr>\<rparr>"

lemma payload_write_inv:
  assumes inv: "heap_inv s nf xs us" and b: "b \<in> set us" "b \<noteq> list_block s"
    and so: "same_on (- payload b) (mem s) m'"
  shows "heap_inv (s\<lparr>mem := m'\<rparr>) nf xs us"
proof -
  note a = allocated_apart(1)[OF inv b(1)] allocated_apart(3)[OF inv b]
  have t: "tile (heap_area s) (xs @ us)" using inv by (simp add: heap_inv_def)
  have "free_store (mem s) (p_sharedFreeList s) xs nf" using inv by (simp add: heap_inv_def)
  then have fs: "free_store m' (p_sharedFreeList s) xs nf"
    using free_store_frame[OF _ so] a payload_extent[of b] by blast
  have al: "allocated m' c" if c: "c \<in> set us" for c
  proof -
    have "rng (baddr c) 24 \<subseteq> - payload b"
    proof (cases "c = b")
      case True
      then show ?thesis using header_payload(1) by blast
    next
      case False
      then have "extent c \<inter> extent b = {}" using tile_disjoint[OF t] c b(1) by auto
      then show ?thesis using rng_header_extent[of c] payload_extent[of b] by blast
    qed
    from allocated_frame[OF so allocated_apart(4)[OF inv c] this] show ?thesis
      using inv c by (simp add: heap_inv_def)
  qed
  show ?thesis
    using inv fs al same_on_valid[OF so]
    by (auto simp: heap_inv_def heap_area_def list_block_def mutex_block_def)
qed

lemma client_write_inv:
  assumes "heap_inv s nf xs us" "b \<in> set us" "b \<noteq> list_block s" "unat x \<in> payload b"
  shows "heap_inv (client_write x v s) nf xs us"
  unfolding client_write_def using assms(4) by (intro payload_write_inv[OF assms(1-3)]) (auto simp: same_on_def)

text \<open>
  What a client program can do with the allocator: the state and the pointers it holds. The
  only rules of use are that a client writes to and frees the blocks it holds; other pointers
  may be passed to \<^verbatim>\<open>MyFree\<close> as long as the call refuses them. A call that does not return ends
  the session.
\<close>

inductive session :: "os \<Rightarrow> addr \<Rightarrow> heap_state \<Rightarrow> int \<Rightarrow> heap_state \<Rightarrow> addr list \<Rightarrow> bool"
  for w stk s0 n where
  start: "InitMyMalloc w stk n s0 = Some (0, s) \<Longrightarrow> session w stk s0 n s []"
| alloc: "session w stk s0 n s ps \<Longrightarrow> MyMalloc k (strategy_code st) s = Some (p, s') \<Longrightarrow> p \<noteq> 0
    \<Longrightarrow> session w stk s0 n s' (p # ps)"
| alloc_fails: "session w stk s0 n s ps \<Longrightarrow> MyMalloc k (strategy_code st) s = Some (0, s')
    \<Longrightarrow> session w stk s0 n s' ps"
| release: "session w stk s0 n s ps \<Longrightarrow> p \<in> set ps \<Longrightarrow> MyFree p s = Some (r, s')
    \<Longrightarrow> session w stk s0 n s' (remove1 p ps)"
| refused: "session w stk s0 n s ps \<Longrightarrow> MyFree p s = Some (-1, s') \<Longrightarrow> session w stk s0 n s' ps"
| use_block: "session w stk s0 n s ps \<Longrightarrow> p \<in> set ps \<Longrightarrow> ld_size (mem s) (p - SIZEOF_NODE) = Some sz
    \<Longrightarrow> unat p \<le> unat x \<Longrightarrow> unat x < unat p + unat sz
    \<Longrightarrow> session w stk s0 n (client_write x v s) ps"

inductive_cases session_emptyE: "session w stk s0 n s (p # ps)"

text \<open>The state of a session: the clients hold exactly the blocks in use besides the allocator's own.\<close>

definition session_ok :: "heap_state \<Rightarrow> addr list \<Rightarrow> block list \<Rightarrow> block list \<Rightarrow> bool" where
  "session_ok s ps xs vs \<longleftrightarrow> (\<exists>nf. heap_inv s nf xs (vs @ [mutex_block s, list_block s]))
     \<and> ps = map (\<lambda>b. baddr b + SIZEOF_NODE) vs"

lemma session_okD:
  assumes "session_ok s ps xs vs" "b \<in> set vs"
  shows "b \<noteq> list_block s" "b \<noteq> mutex_block s"
  using assms by (auto simp: session_ok_def heap_inv_def tile_def)

lemma refused_state:
  assumes "MyFree p s = Some (-1, s')" "\<not> mutex_held s"
  shows "\<exists>msg. s' = say msg s"
  using assms
  by (cases s) (auto simp: MyFree_def pthread_mutex_lock_def pthread_mutex_unlock_def say_def Let_def
      bind_Some_iff split: if_splits)

lemma heap_inv_say: "heap_inv (say msg s) nf xs us = heap_inv s nf xs us"
  by (simp add: heap_inv_def say_def heap_area_def list_block_def mutex_block_def)

lemma session_ok_say: "session_ok (say msg s) ps xs vs = session_ok s ps xs vs"
  by (simp add: session_ok_def heap_inv_say) (simp add: say_def list_block_def mutex_block_def)

lemma map_remove1_inj:
  "inj_on f (set xs) \<Longrightarrow> x \<in> set xs \<Longrightarrow> remove1 (f x) (map f xs) = map f (remove1 x xs)"
  by (induction xs) (auto simp: inj_on_def)

lemma session_alloc_ok:
  assumes "session_ok s ps xs vs" "MyMalloc k (strategy_code st) s = Some (p, s')"
  shows "if p = 0 then session_ok s' ps xs vs else \<exists>xs' vs'. session_ok s' (p # ps) xs' vs'"
proof -
  obtain nf where inv: "heap_inv s nf xs (vs @ [mutex_block s, list_block s])"
    and ps: "ps = map (\<lambda>b. baddr b + SIZEOF_NODE) vs"
    using assms(1) by (auto simp: session_ok_def)
  show ?thesis
  proof (cases "select st k nf xs")
    case None
    then have "\<forall>b \<in> set xs. bsize b < k" using select_None by blast
    then show ?thesis using MyMalloc_fail[OF inv] assms by auto
  next
    case (Some b)
    obtain s1 where s1: "MyMalloc k (strategy_code st) s = Some (baddr b + SIZEOF_NODE, s1)"
      "heap_inv s1 (rover b k xs) (take_out b k xs) (granted b k # vs @ [mutex_block s, list_block s])"
      "list_block s1 = list_block s" "mutex_block s1 = mutex_block s"
      using MyMalloc_success[OF inv Some] by blast
    have "p \<noteq> 0" using in_heap_bounds(1)[OF s1(2), of "granted b k"] s1(1) assms(2) by simp
    moreover have "session_ok s1 (p # ps) (take_out b k xs) (granted b k # vs)"
      using s1 ps assms(2) by (auto simp: session_ok_def)
    ultimately show ?thesis using s1(1) assms(2) by auto
  qed
qed

lemma session_release_ok:
  assumes "session_ok s ps xs vs" "p \<in> set ps" "MyFree p s = Some (r, s')"
  shows "r = 0 \<and> (\<exists>xs' vs'. session_ok s' (remove1 p ps) xs' vs')"
proof -
  obtain nf where inv: "heap_inv s nf xs (vs @ [mutex_block s, list_block s])"
    and ps: "ps = map (\<lambda>b. baddr b + SIZEOF_NODE) vs"
    using assms(1) by (auto simp: session_ok_def)
  then obtain b where b: "b \<in> set vs" "p = baddr b + SIZEOF_NODE" using assms(2) by auto
  note nb = session_okD[OF assms(1) b(1)]
  have bu: "b \<in> set (vs @ [mutex_block s, list_block s])" using b(1) by simp
  have "insert_free b nf xs \<noteq> None"
    by (rule notI) (use MyFree_ok(1)[OF inv bu nb] assms(3) b(2) in simp)
  then obtain ys nf' where i: "insert_free b nf xs = Some (ys, nf')" by (metis option.exhaust surj_pair)
  then obtain m' where m': "MyFree p s = Some (0, s\<lparr>mem := m'\<rparr>)"
    "heap_inv (s\<lparr>mem := m'\<rparr>) nf' ys (remove1 b (vs @ [mutex_block s, list_block s]))"
    using MyFree_ok(2)[OF inv bu nb] b(2) by blast
  have "inj_on baddr (set vs)"
    using inv tile_distinct_fst[of "heap_area s" "xs @ vs @ [mutex_block s, list_block s]"]
    by (auto simp: heap_inv_def distinct_map inj_on_Un)
  then have "inj_on (\<lambda>b. baddr b + SIZEOF_NODE) (set vs)" by (auto simp: inj_on_def)
  from map_remove1_inj[OF this b(1)] have "remove1 p ps = map (\<lambda>b. baddr b + SIZEOF_NODE) (remove1 b vs)"
    using ps b(2) by simp
  then show ?thesis
    using m' assms(3) b(1)
    by (auto simp: session_ok_def remove1_append list_block_def mutex_block_def)
qed

lemma session_write_ok:
  assumes "session_ok s ps xs vs" "p \<in> set ps" "ld_size (mem s) (p - SIZEOF_NODE) = Some sz"
    and x: "unat p \<le> unat x" "unat x < unat p + unat sz"
  shows "session_ok (client_write x v s) ps xs vs"
proof -
  obtain nf where inv: "heap_inv s nf xs (vs @ [mutex_block s, list_block s])"
    and ps: "ps = map (\<lambda>b. baddr b + SIZEOF_NODE) vs"
    using assms(1) by (auto simp: session_ok_def)
  then obtain b where b: "b \<in> set vs" "p = baddr b + SIZEOF_NODE" using assms(2) by auto
  have bu: "b \<in> set (vs @ [mutex_block s, list_block s])" using b(1) by simp
  have "sz = bsize b" using inv bu b(2) assms(3) by (auto simp: heap_inv_def allocated_def)
  moreover have "wf_memory (mem s)" using inv by (simp add: heap_inv_def free_store_def list_ok_def)
  from valid_bound(4)[OF this allocated_apart(6)[OF inv bu]] have "unat p = unat (baddr b) + 24"
    unfolding b(2) by (subst unat_add_no_wrap) auto
  ultimately have "unat x \<in> payload b" using x by (simp add: payload_def)
  from client_write_inv[OF inv bu session_okD(1)[OF assms(1) b(1)] this]
  show ?thesis using ps
    by (auto simp: session_ok_def client_write_def list_block_def mutex_block_def)
qed

lemma session_start_ok:
  assumes "InitMyMalloc w stk n s0 = Some (0, s)" "n \<le> INT_MAX" "128 < page_size w"
    and "wf_memory (mem s0)" "valid (mem s0) stk 16"
    and "\<And>H heap. round_heap_size (page_size w) n = Some H \<Longrightarrow> mmap w (word_of_int H) = Some heap
      \<Longrightarrow> fresh_region (mem s0) heap (nat H)"
  shows "\<exists>xs. session_ok s [] xs []"
proof -
  obtain H heap where H: "0 < n" "round_heap_size (page_size w) n = Some H"
    "mmap w (word_of_int H) = Some heap" "init_heap stk heap H s0 = Some s"
    using assms(1) by (auto simp: InitMyMalloc_def bind_Some_iff split: if_splits option.splits)
  show ?thesis
    by (rule init_heap_ok[OF assms(4,5) assms(6)[OF H(2,3)] rounded_bounds[OF H(1) assms(2,3) H(2)]])
      (use H(4) in \<open>auto simp: session_ok_def\<close>)
qed

text \<open>C6. Every state a client program can reach is a well-formed heap: the pointers it holds are
  exactly the blocks in use, all disjoint, and the bytes of the free blocks, of the blocks in use and
  of the allocator's own 104 bytes add up to the capacity of the heap, so none is ever lost.\<close>

theorem session_conserves:
  assumes "session w stk s0 n s ps" "n \<le> INT_MAX" "128 < page_size w"
    and "wf_memory (mem s0)" "valid (mem s0) stk 16"
    and "\<And>H heap. round_heap_size (page_size w) n = Some H \<Longrightarrow> mmap w (word_of_int H) = Some heap
      \<Longrightarrow> fresh_region (mem s0) heap (nat H)"
  shows "\<exists>xs vs. session_ok s ps xs vs \<and> tile (heap_area s) (xs @ vs @ [mutex_block s, list_block s])
    \<and> footprint xs + footprint vs + 104 = unat (heapCapacity s)"
proof -
  have "\<exists>xs vs. session_ok s ps xs vs"
    using assms(1)
  proof induction
    case (start s)
    then show ?case using session_start_ok[OF start assms(2-6)] by blast
  next
    case (alloc s ps k st p s')
    then show ?case using session_alloc_ok by (metis (full_types))
  next
    case (alloc_fails s ps k st s')
    then show ?case using session_alloc_ok by (metis (full_types))
  next
    case (release s ps p r s')
    then show ?case using session_release_ok by blast
  next
    case (refused s ps p s')
    then obtain xs vs where "session_ok s ps xs vs" by blast
    moreover from this have "\<not> mutex_held s" by (auto simp: session_ok_def heap_inv_def)
    from refused_state[OF refused(2) this] obtain msg where "s' = say msg s" by blast
    ultimately show ?case using session_ok_say by blast
  next
    case (use_block s ps p sz x v)
    then show ?case using session_write_ok by blast
  qed
  then obtain xs vs where ok: "session_ok s ps xs vs" by blast
  then have t: "tile (heap_area s) (xs @ vs @ [mutex_block s, list_block s])"
    by (auto simp: session_ok_def heap_inv_def)
  then have "footprint (xs @ vs @ [mutex_block s, list_block s]) = unat (heapCapacity s)"
    using tile_card[OF t] by (simp add: heap_area_def)
  then have "footprint xs + footprint vs + 104 = unat (heapCapacity s)"
    by (simp add: footprint_def mutex_block_def list_block_def)
  then show ?thesis using ok t by blast
qed

theorem session_conserves_witness:
  "\<exists>s. session linux 0x7000 boot_state 4000 s [0x1000fc, 0x100080]
    \<and> (\<exists>xs vs. footprint xs + footprint vs + 104 = unat (heapCapacity s))"
proof (rule demo_four)
  fix s0 s1 s2
  assume s: "InitMyMalloc linux 0x7000 4000 boot_state = Some (0, s0)"
    "MyMalloc 100 2 s0 = Some (0x100080, s1)" "MyMalloc 100 2 s1 = Some (0x1000fc, s2)"
  have "session linux 0x7000 boot_state 4000 s2 [0x1000fc, 0x100080]"
    using s by (auto intro!: session.alloc[where st = FIRST_FIT] session.start)
  moreover have "\<exists>xs vs. session_ok s2 [0x1000fc, 0x100080] xs vs
    \<and> tile (heap_area s2) (xs @ vs @ [mutex_block s2, list_block s2])
    \<and> footprint xs + footprint vs + 104 = unat (heapCapacity s2)"
    by (rule session_conserves[OF calculation])
      (use boot_facts in \<open>auto simp: INT_MAX_def linux_def round_heap_size_def split: if_splits\<close>)
  ultimately show ?thesis by blast
qed

section \<open>DumpFreeList\<close>

fun line_start :: "dump_line \<Rightarrow> nat" where
  "line_start (Free_line a n) = unat a"
| "line_start (Full_line a n) = unat a"

fun line_bytes :: "dump_line \<Rightarrow> nat" where
  "line_bytes (Free_line a n) = unat n"
| "line_bytes (Full_line a n) = unat n"

fun is_free_line :: "dump_line \<Rightarrow> bool" where
  "is_free_line (Free_line a n) = True"
| "is_free_line (Full_line a n) = False"

text \<open>The lines describe the bytes from \<open>a\<close> to \<open>e\<close> without a gap or an overlap.\<close>

fun lines_cover :: "nat \<Rightarrow> nat \<Rightarrow> dump_line list \<Rightarrow> bool" where
  "lines_cover a e [] = (a = e)"
| "lines_cover a e (l # ls) = (line_start l = a \<and> lines_cover (a + line_bytes l) e ls)"

fun dump_lines :: "addr \<Rightarrow> block list \<Rightarrow> dump_line list" where
  "dump_lines base [] = []"
| "dump_lines base [c] = []"
| "dump_lines base (c # d # cs) =
     Free_line (baddr c - base) (bsize c + SIZEOF_NODE)
     # Full_line (baddr c + bsize c + SIZEOF_NODE - base) (baddr d - (baddr c + bsize c + SIZEOF_NODE))
     # dump_lines base (d # cs)"

lemma dump_loop_seg:
  assumes "seg m cur ys 0" "ys \<noteq> []"
  shows "dump_loop m base cur out = Some (baddr (last ys), out @ dump_lines base ys)"
  using assms
proof (induction base ys arbitrary: cur out rule: dump_lines.induct)
  case (2 base c)
  then show ?case by (subst dump_loop.simps) (auto simp: seg_Cons)
next
  case (3 base c d cs)
  from "3.prems" obtain nx where c: "cur = baddr c" "ld_next m cur = Some nx"
    "ld_size m cur = Some (bsize c)" "seg m nx (d # cs) 0" "nx \<noteq> 0" "nx = baddr d"
    by (auto simp: seg_Cons)
  then show ?case using "3.IH"[OF c(4)] by (subst dump_loop.simps) simp
qed simp

lemma lines_cover_appendI:
  "lines_cover a k xs \<Longrightarrow> lines_cover k e ys \<Longrightarrow> lines_cover a e (xs @ ys)"
  by (induction xs arbitrary: a) auto

text \<open>A block inside the heap: its end, and the distance to a later address, do not wrap.\<close>

definition placed :: "addr \<Rightarrow> nat \<Rightarrow> block \<Rightarrow> bool" where
  "placed base cap b \<longleftrightarrow> unat base \<le> unat (baddr b)
     \<and> unat (baddr b) + 24 + unat (bsize b) \<le> unat base + cap"

lemma placed_ends:
  assumes "placed base cap b" "unat base + cap < 2 ^ 64"
  shows "unat (baddr b - base) = unat (baddr b) - unat base"
    "unat (bsize b + SIZEOF_NODE) = unat (bsize b) + 24"
    "unat (baddr b + bsize b + SIZEOF_NODE) = unat (baddr b) + unat (bsize b) + 24"
    "unat (baddr b + bsize b + SIZEOF_NODE - base) = unat (baddr b) + unat (bsize b) + 24 - unat base"
proof -
  have b: "unat base \<le> unat (baddr b)" "unat (baddr b) + 24 + unat (bsize b) < 2 ^ 64"
    using assms by (auto simp: placed_def)
  show "unat (baddr b - base) = unat (baddr b) - unat base" using b by (intro unat_sub_no_wrap)
  show "unat (bsize b + SIZEOF_NODE) = unat (bsize b) + 24" using b by (subst unat_add_no_wrap) auto
  have s: "unat (baddr b + bsize b) = unat (baddr b) + unat (bsize b)"
    using b by (intro unat_add_no_wrap) simp
  show e: "unat (baddr b + bsize b + SIZEOF_NODE) = unat (baddr b) + unat (bsize b) + 24"
    using b s by (subst unat_add_no_wrap) auto
  show "unat (baddr b + bsize b + SIZEOF_NODE - base) = unat (baddr b) + unat (bsize b) + 24 - unat base"
    using b e by (subst unat_sub_no_wrap) auto
qed

lemma dump_lines_cover:
  assumes "\<forall>c \<in> set ys. placed base cap c" "unat base + cap < 2 ^ 64" "ys \<noteq> []"
    and "successively (\<lambda>c d. unat (baddr c) + 24 + unat (bsize c) \<le> unat (baddr d)) ys"
  shows "lines_cover (unat (baddr (hd ys)) - unat base) (unat (baddr (last ys)) - unat base) (dump_lines base ys)
    \<and> filter is_free_line (dump_lines base ys) =
        map (\<lambda>c. Free_line (baddr c - base) (bsize c + SIZEOF_NODE)) (butlast ys)"
  using assms
proof (induction base ys rule: dump_lines.induct)
  case (3 base c d cs)
  have p: "placed base cap c" "placed base cap d" using "3.prems"(1) by auto
  note e = placed_ends[OF p(1) "3.prems"(2)]
  have g: "unat (baddr c) + 24 + unat (bsize c) \<le> unat (baddr d)" using "3.prems"(4) by simp
  have gap: "unat (baddr d - (baddr c + bsize c + SIZEOF_NODE)) = unat (baddr d) - (unat (baddr c) + unat (bsize c) + 24)"
    using e(3) g by (subst unat_sub_no_wrap) auto
  have b: "unat base \<le> unat (baddr c)" using p by (simp add: placed_def)
  then have sums: "unat (baddr c) - unat base + (unat (bsize c) + 24)
      = unat (baddr c) + unat (bsize c) + 24 - unat base"
    "unat (baddr c) + unat (bsize c) + 24 - unat base + (unat (baddr d) - (unat (baddr c) + unat (bsize c) + 24))
      = unat (baddr d) - unat base"
    using g by auto
  have ih: "lines_cover (unat (baddr d) - unat base) (unat (baddr (last (d # cs))) - unat base) (dump_lines base (d # cs))"
    "filter is_free_line (dump_lines base (d # cs)) =
       map (\<lambda>c. Free_line (baddr c - base) (bsize c + SIZEOF_NODE)) (butlast (d # cs))"
    using "3.IH" "3.prems" by simp_all
  show ?case using e gap sums ih by simp
qed auto

text \<open>The lines before the first and from the last free block on.\<close>

definition first_lines :: "addr \<Rightarrow> block \<Rightarrow> dump_line list" where
  "first_lines base c = (if base < baddr c then [Full_line 0 (baddr c - base)] else [])"

definition last_lines :: "addr \<Rightarrow> addr \<Rightarrow> block \<Rightarrow> dump_line list" where
  "last_lines base cap z = Free_line (baddr z - base) (bsize z + SIZEOF_NODE)
     # (if baddr z + bsize z + SIZEOF_NODE < base + cap
        then [Full_line (baddr z + bsize z - base + SIZEOF_NODE) (cap - (baddr z - base + bsize z + SIZEOF_NODE))]
        else [])"

lemma first_lines_cover:
  "unat base \<le> unat (baddr c) \<Longrightarrow> lines_cover 0 (unat (baddr c) - unat base) (first_lines base c)"
  by (auto simp: first_lines_def unat_sub_no_wrap word_less_nat_alt)

lemma last_lines_cover:
  assumes "placed base (unat cap) z" "unat base + unat cap < 2 ^ 64"
  shows "lines_cover (unat (baddr z) - unat base) (unat cap) (last_lines base cap z)"
proof -
  note ez = placed_ends[OF assms]
  have pz: "unat base \<le> unat (baddr z)" "unat (baddr z) + 24 + unat (bsize z) \<le> unat base + unat cap"
    using assms(1) by (auto simp: placed_def)
  have ub: "unat (base + cap) = unat base + unat cap" using assms(2) by (intro unat_add_no_wrap)
  have r: "baddr z + bsize z - base + SIZEOF_NODE = baddr z + bsize z + SIZEOF_NODE - base"
    "baddr z - base + bsize z + SIZEOF_NODE = baddr z + bsize z + SIZEOF_NODE - base"
    by (simp_all add: algebra_simps)
  have sum: "unat (baddr z) - unat base + (unat (bsize z) + 24) = unat (baddr z) + unat (bsize z) + 24 - unat base"
    using pz(1) by simp
  show ?thesis
  proof (cases "baddr z + bsize z + SIZEOF_NODE < base + cap")
    case True
    have "unat (cap - (baddr z + bsize z + SIZEOF_NODE - base))
        = unat cap - (unat (baddr z) + unat (bsize z) + 24 - unat base)"
      using ez(4) pz by (subst unat_sub_no_wrap) auto
    then show ?thesis using True ez pz sum unfolding last_lines_def r by simp
  next
    case False
    then have "unat (baddr z) + unat (bsize z) + 24 = unat base + unat cap"
      using ez(3) ub pz by (simp add: word_less_nat_alt)
    then show ?thesis using False ez sum by (simp add: last_lines_def)
  qed
qed

lemma heap_inv_bounds:
  assumes "heap_inv s nf xs us"
  shows "unat (heapBlockHeader s) + unat (heapCapacity s) < 2 ^ 64"
    and "x \<in> set xs \<Longrightarrow> placed (heapBlockHeader s) (unat (heapCapacity s)) x"
proof -
  have fs: "list_store (mem s) (p_sharedFreeList s) xs" and t: "tile (heap_area s) (xs @ us)"
    and v: "valid (mem s) (heapBlockHeader s) (unat (heapCapacity s))"
    using assms by (auto simp: heap_inv_def free_store_iff)
  show "unat (heapBlockHeader s) + unat (heapCapacity s) < 2 ^ 64"
    using valid_bound(4)[OF _ v] list_storeD(3)[OF fs] by (simp add: list_ok_def)
  assume "x \<in> set xs"
  then have "extent x \<subseteq> heap_area s" using tile_sub[OF t] by simp
  then show "placed (heapBlockHeader s) (unat (heapCapacity s)) x"
    by (auto simp: placed_def extent_def heap_area_def)
qed

lemma ordered_gaps:
  assumes "heap_inv s nf xs us" "ordered xs"
  shows "successively (\<lambda>c d. unat (baddr c) + 24 + unat (bsize c) \<le> unat (baddr d)) xs"
proof -
  have t: "tile (heap_area s) (xs @ us)" using assms(1) by (simp add: heap_inv_def)
  have "sorted_wrt (\<lambda>c d. unat (baddr c) + 24 + unat (bsize c) \<le> unat (baddr d)) xs"
    using assms(2) unfolding ordered_def
    by (rule sorted_wrt_mono_rel[rotated]) (use tile_Cons_above[OF t] in auto)
  then show ?thesis by (rule successively_if_sorted_wrt)
qed

lemma DumpFreeList_eq:
  assumes "heap_inv s nf (c # cs) us"
  shows "DumpFreeList s = Some (first_lines (heapBlockHeader s) c @ dump_lines (heapBlockHeader s) (c # cs)
    @ last_lines (heapBlockHeader s) (heapCapacity s) (last (c # cs)), s)"
proof -
  have un: "heapBlockHeader s \<noteq> 0" "\<not> mutex_held s" using assms by (auto simp: heap_inv_def)
  then have up: "s\<lparr>mutex_held := True, mutex_held := False\<rparr> = s" by simp
  have fs: "list_store (mem s) (p_sharedFreeList s) (c # cs)" using assms by (auto simp: heap_inv_def free_store_iff)
  note l = list_storeD[OF fs]
  have c0: "baddr c \<noteq> 0" using seg_ld(3)[of _ _ "[]" c cs] l(2) by fastforce
  have zs: "ld_size (mem s) (baddr (last (c # cs))) = Some (bsize (last (c # cs)))"
    using seg_ld_last(1,2)[of "mem s" _ "c # cs" "[]"] l(2) by simp
  show ?thesis
    using l(1) un dump_loop_seg[OF l(2)] c0 zs
    by (simp add: DumpFreeList_def pthread_mutex_lock_def pthread_mutex_unlock_def up head_addr_def
      first_lines_def last_lines_def Let_def del: last.simps)
qed

lemma dump_free_lines:
  assumes "xs \<noteq> []"
    and "filter is_free_line (dump_lines base xs) = map (\<lambda>c. Free_line (baddr c - base) (bsize c + SIZEOF_NODE)) (butlast xs)"
  shows "filter is_free_line (first_lines base c @ dump_lines base xs @ last_lines base cap (last xs))
    = map (\<lambda>b. Free_line (baddr b - base) (bsize b + SIZEOF_NODE)) xs"
proof -
  have "map f xs = map f (butlast xs) @ [f (last xs)]" for f :: "block \<Rightarrow> dump_line"
    using assms(1) by (metis append_butlast_last_id list.simps(8,9) map_append)
  then show ?thesis using assms(2) by (simp add: first_lines_def last_lines_def)
qed

text \<open>C12. On a sorted heap \<^verbatim>\<open>DumpFreeList\<close> prints a map of the whole heap: the lines follow each other
  from offset 0 to the capacity, and the lines marked free are the free blocks in order. The heap
  is left as it was.\<close>

theorem DumpFreeList_covers:
  assumes inv: "heap_inv s nf xs us" and o: "ordered xs"
  shows "\<exists>out. DumpFreeList s = Some (out, s) \<and> lines_cover 0 (unat (heapCapacity s)) out
    \<and> filter is_free_line out
       = map (\<lambda>b. Free_line (baddr b - heapBlockHeader s) (bsize b + SIZEOF_NODE)) xs"
proof (cases xs)
  case Nil
  then have "list_store (mem s) (p_sharedFreeList s) []" "heapBlockHeader s \<noteq> 0" "\<not> mutex_held s"
    using inv by (auto simp: heap_inv_def free_store_iff)
  moreover from this(3) have "s\<lparr>mutex_held := True, mutex_held := False\<rparr> = s" by simp
  ultimately show ?thesis using list_storeD(1)[of "mem s" "p_sharedFreeList s" "[]"] Nil
    by (simp add: DumpFreeList_def pthread_mutex_lock_def pthread_mutex_unlock_def head_addr_def)
next
  case (Cons c cs)
  let ?b = "heapBlockHeader s" and ?z = "last xs"
  note bd = heap_inv_bounds(1)[OF inv] and pl = heap_inv_bounds(2)[OF inv]
  have in_xs: "c \<in> set xs" "?z \<in> set xs" "xs \<noteq> []" using Cons by auto
  have "\<forall>x \<in> set xs. placed ?b (unat (heapCapacity s)) x" using pl by blast
  note dl = dump_lines_cover[OF this bd in_xs(3) ordered_gaps[OF inv o]]
  have "lines_cover 0 (unat (baddr c) - unat ?b) (first_lines ?b c)"
    using pl[OF in_xs(1)] by (intro first_lines_cover) (simp add: placed_def)
  moreover have "lines_cover (unat (baddr c) - unat ?b) (unat (baddr ?z) - unat ?b) (dump_lines ?b xs)"
    using dl Cons by simp
  moreover note last_lines_cover[OF pl[OF in_xs(2)] bd]
  ultimately have "lines_cover 0 (unat (heapCapacity s))
      (first_lines ?b c @ dump_lines ?b xs @ last_lines ?b (heapCapacity s) ?z)"
    by (intro lines_cover_appendI)
  then show ?thesis using DumpFreeList_eq[of s nf c cs us] inv Cons dump_free_lines[OF in_xs(3)] dl
    by (intro exI[of _ "first_lines ?b c @ dump_lines ?b xs @ last_lines ?b (heapCapacity s) ?z"]) simp
qed

theorem DumpFreeList_covers_witness:
  "\<exists>s out. DumpFreeList s = Some (out, s) \<and> lines_cover 0 4096 out
     \<and> filter is_free_line out = [Free_line 0x68 3992]"
proof (rule demo_heap)
  fix s
  assume s: "heap_inv s 0x100068 [Block 0x100068 3968] [Block 0x100028 40, Block 0x100000 16]"
    "heapBlockHeader s = 0x100000" "heapCapacity s = 4096"
  show ?thesis
    using DumpFreeList_covers[OF s(1)] s(2,3) by (auto simp: ordered_Cons)
qed

section \<open>unInitMyMalloc\<close>

text \<open>After \<^verbatim>\<open>unInitMyMalloc\<close> the heap's memory is unmapped, every entry point reports that there
  is no heap, and a new heap can be initialised.\<close>

theorem unInitMyMalloc_ends:
  assumes "heapBlockHeader s \<noteq> 0"
  shows "heapBlockHeader (unInitMyMalloc s) = 0
    \<and> (heapBlockHeader s, unat (heapCapacity s)) \<notin> set (mapped (mem (unInitMyMalloc s)))
    \<and> MyMalloc n k (unInitMyMalloc s) = Some (0, say ''Heap is not initialized'' (unInitMyMalloc s))
    \<and> MyFree p (unInitMyMalloc s) = Some (-1, say ''Heap is not initialized'' (unInitMyMalloc s))
    \<and> DumpFreeList (unInitMyMalloc s) = Some ([], say ''Heap is not initialized'' (unInitMyMalloc s))
    \<and> unInitMyMalloc (unInitMyMalloc s) = say ''Heap is not initialized'' (unInitMyMalloc s)
    \<and> (\<forall>w stk m s'. InitMyMalloc w stk m (unInitMyMalloc s) = Some (-1, s') \<longrightarrow>
         m \<le> 0 \<or> (\<exists>H. round_heap_size (page_size w) m = Some H \<and> mmap w (word_of_int H) = None))"
  using assms
  by (auto simp: unInitMyMalloc_def unmap_region_def MyMalloc_def MyFree_def DumpFreeList_def
      InitMyMalloc_def bind_Some_iff split: if_splits option.splits)

theorem unInitMyMalloc_ends_witness:
  "\<exists>s. MyMalloc 1 2 (unInitMyMalloc s) = Some (0, say ''Heap is not initialized'' (unInitMyMalloc s))"
proof (rule demo_heap)
  fix s :: heap_state
  assume s: "heapBlockHeader s = 0x100000"
  show ?thesis using unInitMyMalloc_ends[where s = s and n = 1 and k = 2] s by auto
qed

end
