(* ===== verification/FreeOrder.thy ===== *)
theory FreeOrder
  imports HeapSession
begin

text \<open>
  The order in which blocks are freed. A sorted free list without neighbours that touch is determined by the bytes that
  are free, so two runs that free the same blocks in different orders, and return, end with the same free list.
\<close>

section \<open>Blocks in address order\<close>

instantiation block :: linorder
begin

definition less_eq_block :: "block \<Rightarrow> block \<Rightarrow> bool" where
  "a \<le> b \<longleftrightarrow> baddr a < baddr b \<or> baddr a = baddr b \<and> bsize a \<le> bsize b"

definition less_block :: "block \<Rightarrow> block \<Rightarrow> bool" where
  "a < b \<longleftrightarrow> baddr a < baddr b \<or> baddr a = baddr b \<and> bsize a < bsize b"

instance
  by standard (auto simp: less_eq_block_def less_block_def intro: block.expand)

end

lemma ordered_sorted: "ordered xs \<Longrightarrow> sorted xs \<and> distinct xs"
  by (induction xs) (auto simp: ordered_Cons less_eq_block_def)

section \<open>The free list is determined by the free bytes\<close>

lemma adjacentI:
  assumes "block_ok a" "block_ok b" "unat (baddr b) = unat (baddr a) + unat (bsize a) + 24"
  shows "adjacent a b"
proof -
  have "baddr b = word_of_nat (unat (baddr a) + unat (bsize a) + 24)" by (simp flip: assms(3))
  then show ?thesis by (simp add: adjacent_def)
qed

lemma coalesced_apart:
  assumes "tile A xs" "ordered xs" "coalesced xs" "a \<in> set xs" "b \<in> set xs"
  shows "\<not> adjacent a b"
proof
  assume ad: "adjacent a b"
  have u: "unat (baddr b) = unat (baddr a) + unat (bsize a) + 24"
    using adjacent_unat[OF _ _ ad] tile_block_ok[OF assms(1)] assms(4,5) by blast
  obtain as cs where xs: "xs = as @ a # cs" using assms(4) by (auto dest: split_list)
  have "b \<in> set cs" using assms(2,5) u by (auto simp: xs ordered_append ordered_Cons word_less_nat_alt)
  then obtain c ds where cs: "cs = c # ds" by (cases cs) auto
  show False
  proof (cases "b = c")
    case True
    then show ?thesis using assms(3) ad by (simp add: xs cs coalesced_append coalesced_Cons)
  next
    case False
    then have "baddr a < baddr c" "baddr c < baddr b"
      using assms(2) \<open>b \<in> set cs\<close> by (auto simp: xs cs ordered_append ordered_Cons)
    then show ?thesis
      using tile_Cons_above[OF assms(1,4), of c] u by (auto simp: xs cs word_less_nat_alt)
  qed
qed

text \<open>A free block starts where no free byte precedes it: it starts together with the block of any other such list.\<close>

lemma same_start:
  assumes xs: "tile A xs" "ordered xs" "coalesced xs" and ys: "tile A ys"
    and b: "b \<in> set xs" and c: "c \<in> set ys" "unat (baddr b) \<in> extent c"
  shows "baddr c = baddr b"
proof (rule ccontr)
  assume "baddr c \<noteq> baddr b"
  then have lt: "unat (baddr c) < unat (baddr b)"
    using c(2) by (auto simp: extent_def word_unat_eq_iff)
  then have "unat (baddr b) - 1 \<in> extent c" using c(2) by (auto simp: extent_def)
  then have "unat (baddr b) - 1 \<in> A" using tile_sub[OF ys c(1)] by blast
  then obtain d where d: "d \<in> set xs" "unat (baddr b) - 1 \<in> extent d" using xs(1) by (auto simp: tile_def)
  have "d \<noteq> b" using d(2) lt by (auto simp: extent_def)
  then have "unat (baddr b) \<notin> extent d" using tile_disjoint[OF xs(1) d(1) b] fst_in_extent[of b] by blast
  then have "unat (baddr b) = unat (baddr d) + unat (bsize d) + 24" using d(2) lt by (auto simp: extent_def)
  then have "adjacent d b" using adjacentI tile_block_ok[OF xs(1)] d(1) b by blast
  then show False using coalesced_apart[OF xs d(1) b] by blast
qed

lemma same_end:
  assumes xs: "tile A xs" "ordered xs" "coalesced xs" and ys: "tile A ys"
    and b: "b \<in> set xs" and c: "c \<in> set ys" "baddr c = baddr b"
  shows "unat (bsize c) \<le> unat (bsize b)"
proof (rule ccontr)
  let ?e = "unat (baddr b) + unat (bsize b) + 24"
  assume "\<not> ?thesis"
  then have "?e \<in> extent c" using c(2) by (auto simp: extent_def)
  then have "?e \<in> A" using tile_sub[OF ys c(1)] by blast
  then obtain d where d: "d \<in> set xs" "?e \<in> extent d" using xs(1) by (auto simp: tile_def)
  have "d \<noteq> b" using d(2) by (auto simp: extent_def)
  then have "?e - 1 \<notin> extent d" using tile_disjoint[OF xs(1) b d(1)] by (auto simp: extent_def)
  then have "unat (baddr d) = ?e" using d(2) by (auto simp: extent_def)
  then have "adjacent b d" using adjacentI tile_block_ok[OF xs(1)] d(1) b by blast
  then show False using coalesced_apart[OF xs b d(1)] by blast
qed

lemma canonical_subset:
  assumes xs: "tile A xs" "ordered xs" "coalesced xs" and ys: "tile A ys" "ordered ys" "coalesced ys"
  shows "set xs \<subseteq> set ys"
proof
  fix b assume b: "b \<in> set xs"
  have "unat (baddr b) \<in> A" using tile_sub[OF xs(1) b] fst_in_extent[of b] by blast
  then obtain c where c: "c \<in> set ys" "unat (baddr b) \<in> extent c" using ys(1) by (auto simp: tile_def)
  note st = same_start[OF xs ys(1) b c]
  have "bsize c = bsize b"
    using same_end[OF xs ys(1) b c(1) st] same_end[OF ys xs(1) c(1) b st[symmetric]] by (simp add: word_unat_eq_iff)
  with st have "c = b" by (cases b; cases c) simp
  with c(1) show "b \<in> set ys" by simp
qed

lemma free_list_canonical:
  assumes "tile A xs" "ordered xs" "coalesced xs" "tile A ys" "ordered ys" "coalesced ys"
  shows "xs = ys"
  using sorted_distinct_set_unique[of xs ys] ordered_sorted assms(2,5) canonical_subset assms by blast

section \<open>Freeing in any order\<close>

text \<open>The calls of a client that frees the blocks it holds, as the parent does at the end of the test of several processes.\<close>

fun frees :: "addr list \<Rightarrow> heap_state \<Rightarrow> heap_state option" where
  "frees [] s = Some s"
| "frees (p # ps) s = do { (_, s) \<leftarrow> MyFree p s; frees ps s }"

text \<open>A sorted heap with a free block above every block in use, which freeing preserves.\<close>

definition tidy :: "heap_state \<Rightarrow> block list \<Rightarrow> block list \<Rightarrow> bool" where
  "tidy s xs us \<longleftrightarrow> (\<exists>nf. heap_inv s nf xs us) \<and> ordered xs \<and> coalesced xs
     \<and> (\<forall>u \<in> set us. \<exists>d \<in> set xs. baddr u < baddr d)"

lemma above_kept:
  assumes t: "tile A (ys @ us)" and u: "u \<in> set us" and d: "unat (baddr d) \<in> free_area ys" "baddr u < baddr d"
  shows "\<exists>e \<in> set ys. baddr u < baddr e"
proof -
  obtain e where e: "e \<in> set ys" "unat (baddr d) \<in> extent e" using d(1) by (auto simp: free_area_def)
  have "e \<noteq> u" using t u e(1) by (auto simp: tile_def)
  then have "extent e \<inter> extent u = {}" using tile_disjoint[OF t, of e u] e(1) u by simp
  then have "unat (baddr u) \<notin> extent e" using fst_in_extent[of u] by blast
  then have "baddr u < baddr e" using e(2) d(2) by (auto simp: extent_def word_less_nat_alt)
  with e(1) show ?thesis by blast
qed

lemma tidy_free:
  assumes "tidy s xs us" "b \<in> set us - {list_block s, mutex_block s}" "MyFree (baddr b + SIZEOF_NODE) s = Some (r, s')"
  obtains ys where "tidy s' ys (remove1 b us)" "heap_area s' = heap_area s"
    "list_block s' = list_block s" "mutex_block s' = mutex_block s"
    "heapBlockHeader s' = heapBlockHeader s" "heapCapacity s' = heapCapacity s"
proof -
  obtain nf where inv: "heap_inv s nf xs us" "ordered xs" "coalesced xs" "\<forall>u \<in> set us. \<exists>d \<in> set xs. baddr u < baddr d"
    using assms(1) by (auto simp: tidy_def)
  have b: "b \<in> set us" "b \<noteq> list_block s" "b \<noteq> mutex_block s" using assms(2) by auto
  have up: "\<exists>d \<in> set xs. baddr b < baddr d" using inv(4) b(1) by blast
  obtain ys nf' where y: "heap_inv s' nf' ys (remove1 b us)" "ordered ys" "coalesced ys"
    "free_area ys = extent b \<union> free_area xs"
    using MyFree_keeps_order[OF inv(1-3) assms(2) up assms(3)] by blast
  obtain m' where s': "s' = s\<lparr>mem := m'\<rparr>" using freed_header[OF inv(1) b(1,2) assms(3)] by metis
  have "\<exists>e \<in> set ys. baddr u < baddr e" if u: "u \<in> set (remove1 b us)" for u
  proof -
    have "u \<in> set us" using u by (meson notin_set_remove1)
    then obtain d where d: "d \<in> set xs" "baddr u < baddr d" using inv(4) by blast
    then have "unat (baddr d) \<in> free_area ys" using y(4) extent_free_area[OF d(1)] fst_in_extent[of d] by blast
    then show ?thesis using above_kept[OF _ u _ d(2)] y(1) by (auto simp: heap_inv_def)
  qed
  then have "tidy s' ys (remove1 b us)" using y(1-3) by (auto simp: tidy_def)
  then show thesis by (rule that) (simp_all add: s' heap_area_def list_block_def mutex_block_def)
qed

lemma tidy_used:
  assumes "tidy s xs us"
  shows "tile (heap_area s) (xs @ us)" and "distinct us" and "inj_on baddr (set us)"
proof -
  show t: "tile (heap_area s) (xs @ us)" using assms by (auto simp: tidy_def heap_inv_def)
  show "distinct us" "inj_on baddr (set us)" using tile_distinct_fst[OF t] by (simp_all add: distinct_map)
qed

lemma frees_tidy:
  assumes "tidy s xs us" "distinct ps" "set ps \<subseteq> (\<lambda>b. baddr b + SIZEOF_NODE) ` (set us - {list_block s, mutex_block s})"
    "frees ps s = Some s'"
  shows "\<exists>ys vs. tidy s' ys vs \<and> heap_area s' = heap_area s \<and> heapBlockHeader s' = heapBlockHeader s
    \<and> heapCapacity s' = heapCapacity s \<and> set vs = {b \<in> set us. baddr b + SIZEOF_NODE \<notin> set ps}"
  using assms
proof (induction ps arbitrary: s xs us)
  case Nil
  then show ?case by auto
next
  case (Cons p ps)
  obtain b where b: "b \<in> set us - {list_block s, mutex_block s}" "p = baddr b + SIZEOF_NODE" using Cons.prems(3) by auto
  obtain r t where t: "MyFree p s = Some (r, t)" "frees ps t = Some s'"
    using Cons.prems(4) by (auto simp: bind_eq_Some_conv)
  obtain zs where z: "tidy t zs (remove1 b us)" "heap_area t = heap_area s" "list_block t = list_block s"
    "mutex_block t = mutex_block s" "heapBlockHeader t = heapBlockHeader s" "heapCapacity t = heapCapacity s"
    using tidy_free[OF Cons.prems(1) b(1)] t(1) b(2) by metis
  have left: "set (remove1 b us) = set us - {b}" using tidy_used(2)[OF Cons.prems(1)] by simp
  have "set ps \<subseteq> (\<lambda>b. baddr b + SIZEOF_NODE) ` (set (remove1 b us) - {list_block t, mutex_block t})"
    using Cons.prems(2,3) b(2) by (auto simp: left z(3,4))
  from Cons.IH[OF z(1) _ this t(2)] obtain ys vs where y: "tidy s' ys vs" "heap_area s' = heap_area t"
    "heapBlockHeader s' = heapBlockHeader t" "heapCapacity s' = heapCapacity t"
    "set vs = {c \<in> set us - {b}. baddr c + SIZEOF_NODE \<notin> set ps}"
    using Cons.prems(2) left by auto
  have "set vs = {c \<in> set us. baddr c + SIZEOF_NODE \<notin> set (p # ps)}"
    using inj_onD[OF tidy_used(3)[OF Cons.prems(1)], of _ b] b by (auto simp: y(5))
  with y z(2,5,6) show ?case by auto
qed

lemma free_area_rest:
  assumes "tile A (xs @ us)"
  shows "tile (A - free_area us) xs"
proof -
  have "extent a \<inter> extent u = {}" if "a \<in> set xs" "u \<in> set us" for a u
    using tile_disjoint[OF assms, of a u] assms that by (auto simp: tile_def)
  then have "free_area xs \<inter> free_area us = {}" unfolding free_area_def by blast
  moreover have "A = free_area xs \<union> free_area us" using assms by (simp add: tile_def free_area_def)
  ultimately have "free_area xs = A - free_area us" by blast
  then show ?thesis using assms by (simp add: tile_def free_area_def pairwise_insert pairwise_def)
qed

text \<open>C9. The order of freeing does not matter where every order works: on a heap whose free list is sorted and
  coalesced and has a free block above every block in use, two clients that free the same blocks in different orders,
  and whose calls all return, leave the same free list, whose dump is the same. Only the roving pointer may differ.
  Without the free block above, a block may be inserted out of order (C11), and one of the orders may crash (C10).\<close>

theorem free_order_irrelevant:
  assumes "heap_inv s nf xs us" "ordered xs" "coalesced xs" "\<forall>u \<in> set us. \<exists>d \<in> set xs. baddr u < baddr d"
    and "distinct ps" "mset qs = mset ps"
    and "set ps \<subseteq> (\<lambda>b. baddr b + SIZEOF_NODE) ` (set us - {list_block s, mutex_block s})"
    and "frees ps s = Some s1" "frees qs s = Some s2"
  shows "(\<exists>ys us1 us2 nf1 nf2. heap_inv s1 nf1 ys us1 \<and> heap_inv s2 nf2 ys us2 \<and> set us1 = set us2)
    \<and> map_option fst (DumpFreeList s1) = map_option fst (DumpFreeList s2)"
proof -
  have t: "tidy s xs us" using assms(1-4) by (auto simp: tidy_def)
  have q: "distinct qs" "set qs = set ps" using assms(5,6) by (metis mset_eq_imp_distinct_iff, metis mset_eq_setD)
  obtain ys vs where y: "tidy s1 ys vs" "heap_area s1 = heap_area s" "heapBlockHeader s1 = heapBlockHeader s"
    "heapCapacity s1 = heapCapacity s" "set vs = {b \<in> set us. baddr b + SIZEOF_NODE \<notin> set ps}"
    using frees_tidy[OF t assms(5,7,8)] by blast
  obtain zs ws where z: "tidy s2 zs ws" "heap_area s2 = heap_area s" "heapBlockHeader s2 = heapBlockHeader s"
    "heapCapacity s2 = heapCapacity s" "set ws = {b \<in> set us. baddr b + SIZEOF_NODE \<notin> set ps}"
    using frees_tidy[OF t q(1) _ assms(9)] assms(7) by (auto simp: q(2))
  have "ys = zs"
  proof (rule free_list_canonical)
    show "tile (heap_area s - free_area vs) ys" using free_area_rest[OF tidy_used(1)[OF y(1)]] by (simp add: y(2))
    show "tile (heap_area s - free_area vs) zs"
      using free_area_rest[OF tidy_used(1)[OF z(1)]] by (simp add: z(2) free_area_def y(5) z(5))
  qed (use y(1) z(1) in \<open>auto simp: tidy_def\<close>)
  then obtain nf1 nf2 where h: "heap_inv s1 nf1 ys vs" "heap_inv s2 nf2 ys ws" using y(1) z(1) by (auto simp: tidy_def)
  have "vs \<noteq> []" using h(1) by (auto simp: heap_inv_def)
  then obtain c cs where c: "ys = c # cs" using y(1) by (cases ys; cases vs) (auto simp: tidy_def)
  have "map_option fst (DumpFreeList s1) = map_option fst (DumpFreeList s2)"
    using DumpFreeList_eq[of s1 nf1 c cs vs] DumpFreeList_eq[of s2 nf2 c cs ws] h y(3,4) z(3,4) by (simp add: c)
  moreover have "set vs = set ws" by (simp add: y(5) z(5))
  ultimately show ?thesis using h by blast
qed

lemma frees_two:
  assumes "heap_inv s nf xs us" "{a, b} \<subseteq> set us - {list_block s, mutex_block s}" "a \<noteq> b"
    "insert_free a nf xs = Some (ys, nf1)" "insert_free b nf1 ys = Some (zs, nf2)"
  shows "\<exists>s'. frees [baddr a + SIZEOF_NODE, baddr b + SIZEOF_NODE] s = Some s'"
proof -
  obtain m where m: "MyFree (baddr a + SIZEOF_NODE) s = Some (0, s\<lparr>mem := m\<rparr>)"
    "heap_inv (s\<lparr>mem := m\<rparr>) nf1 ys (remove1 a us)"
    using MyFree_ok(2)[OF assms(1) _ _ _ assms(4)] assms(2) by auto
  have "b \<in> set (remove1 a us)" "b \<noteq> list_block (s\<lparr>mem := m\<rparr>)" "b \<noteq> mutex_block (s\<lparr>mem := m\<rparr>)"
    using assms(2,3) by (auto simp: list_block_def mutex_block_def)
  from MyFree_ok(2)[OF m(2) this assms(5)] show ?thesis using m(1) by auto
qed

theorem free_order_irrelevant_witness:
  "\<exists>s s1 s2. frees [0x100080, 0x1000fc] s = Some s1 \<and> frees [0x1000fc, 0x100080] s = Some s2
     \<and> (\<exists>ys us1 us2 nf1 nf2. heap_inv s1 nf1 ys us1 \<and> heap_inv s2 nf2 ys us2 \<and> set us1 = set us2)
     \<and> map_option fst (DumpFreeList s1) = map_option fst (DumpFreeList s2)"
proof (rule demo_four)
  fix s
  let ?us = "[blkD, blkC, blkB, blkA, Block 0x100028 40, Block 0x100000 16]"
  assume s: "heap_inv s 0x100258 [restR] ?us" "list_block s = Block 0x100000 16" "mutex_block s = Block 0x100028 40"
  have i: "insert_free blkA 0x100258 [restR] = Some ([blkA, restR], 0x100258)"
    "insert_free blkB 0x100258 [blkA, restR] = Some ([merge blkA blkB, restR], 0x100258)"
    "insert_free blkB 0x100258 [restR] = Some ([blkB, restR], 0x100258)"
    "insert_free blkA 0x100258 [blkB, restR] = Some ([merge blkA blkB, restR], 0x100258)"
    by (simp_all add: insert_free_def join_def adjacent_def)
  obtain s1 where s1: "frees [0x100080, 0x1000fc] s = Some s1"
    using frees_two[OF s(1) _ _ i(1,2)] s(2,3) by auto
  obtain s2 where s2: "frees [0x1000fc, 0x100080] s = Some s2"
    using frees_two[OF s(1) _ _ i(3,4)] s(2,3) by auto
  have above: "\<forall>u \<in> set ?us. \<exists>d \<in> set [restR]. baddr u < baddr d" by simp
  have mine: "set [0x100080, 0x1000fc] \<subseteq> (\<lambda>b. baddr b + SIZEOF_NODE) ` (set ?us - {list_block s, mutex_block s})"
    using s(2,3) by (auto intro: image_eqI[of _ _ blkA] image_eqI[of _ _ blkB])
  have "ordered [restR]" "coalesced [restR]" by (simp_all add: ordered_Cons coalesced_Cons)
  then have "(\<exists>ys us1 us2 nf1 nf2. heap_inv s1 nf1 ys us1 \<and> heap_inv s2 nf2 ys us2 \<and> set us1 = set us2)
      \<and> map_option fst (DumpFreeList s1) = map_option fst (DumpFreeList s2)"
    by (intro free_order_irrelevant[OF s(1) _ _ above _ _ mine s1 s2]) simp_all
  with s1 s2 show ?thesis by blast
qed

end
