(* ===== verification/HeapTests.thy ===== *)
theory HeapTests
  imports HeapSession
begin

text \<open>
  The program \<^verbatim>\<open>sharedMalloc/src/main.c\<close>, which drives the allocator: its tests as functions on the
  allocator's state and on what they print. Of the prints the values are kept (pointers, free lists,
  results), the fixed texts are not. What is typed in, the answers of \<^verbatim>\<open>fork\<close>, and the order in which the
  child processes reach the allocator's mutex are parameters.
\<close>

section \<open>Calls and prints\<close>

datatype report =
  Ptr addr
| Lines "dump_line list"
| Returned int
| Request int addr int
| Child nat int "addr option" "size_t option"

record tests =
  heap :: heap_state
  printed :: "report list"

definition print_item :: "report \<Rightarrow> tests \<Rightarrow> tests" where
  "print_item r d = d\<lparr>printed := printed d @ [r]\<rparr>"

definition malloc_t :: "size_t \<Rightarrow> int \<Rightarrow> tests \<Rightarrow> (addr \<times> tests) option" where
  "malloc_t n strategy d = do { (p, s) \<leftarrow> MyMalloc n strategy (heap d); Some (p, d\<lparr>heap := s\<rparr>) }"

definition free_t :: "addr \<Rightarrow> tests \<Rightarrow> (int \<times> tests) option" where
  "free_t p d = do { (r, s) \<leftarrow> MyFree p (heap d); Some (r, d\<lparr>heap := s\<rparr>) }"

definition dump_t :: "tests \<Rightarrow> tests option" where
  "dump_t d = do { (ls, s) \<leftarrow> DumpFreeList (heap d); Some (print_item (Lines ls) (d\<lparr>heap := s\<rparr>)) }"

section \<open>The strategies one by one\<close>

definition singleStrategyTest :: "int \<Rightarrow> tests \<Rightarrow> tests option" where
  "singleStrategyTest strategy d = do {
     (ptr, d) \<leftarrow> malloc_t 10 strategy d;
     d \<leftarrow> dump_t (print_item (Ptr ptr) d);
     (ptr2, d) \<leftarrow> malloc_t 10 strategy d;
     d \<leftarrow> dump_t (print_item (Ptr ptr2) d);
     (ptr3, d) \<leftarrow> malloc_t 10 strategy d;
     d \<leftarrow> dump_t (print_item (Ptr ptr3) d);
     (_, d) \<leftarrow> free_t ptr2 d;
     d \<leftarrow> dump_t d;
     (ptr4, d) \<leftarrow> malloc_t 10 strategy d;
     d \<leftarrow> dump_t (print_item (Ptr ptr4) d);
     (_, d) \<leftarrow> free_t ptr d;
     d \<leftarrow> dump_t d;
     (_, d) \<leftarrow> free_t ptr3 d;
     d \<leftarrow> dump_t d;
     (_, d) \<leftarrow> free_t ptr4 d;
     d \<leftarrow> dump_t d;
     Some d }"

definition testStrategies :: "tests \<Rightarrow> tests option" where
  "testStrategies d = do {
     d \<leftarrow> singleStrategyTest (strategy_code FIRST_FIT) d;
     d \<leftarrow> singleStrategyTest (strategy_code NEXT_FIT) d;
     d \<leftarrow> singleStrategyTest (strategy_code BEST_FIT) d;
     singleStrategyTest (strategy_code WORST_FIT) d }"

section \<open>Using the heap up\<close>

text \<open>One round of the loop: the size asked for is \<open>n\<close>.\<close>

definition utilization_round :: "int \<Rightarrow> tests \<Rightarrow> tests option" where
  "utilization_round n d = do {
     (ptr, d) \<leftarrow> malloc_t (word_of_int n) (strategy_code FIRST_FIT) d;
     d \<leftarrow> dump_t (print_item (Request n ptr (if ptr = 0 then 0 else n)) d);
     (_, d) \<leftarrow> free_t ptr d;
     d \<leftarrow> dump_t d;
     Some d }"

fun utilization_rounds :: "int list \<Rightarrow> tests \<Rightarrow> tests option" where
  "utilization_rounds [] d = Some d"
| "utilization_rounds (n # ns) d = do { d \<leftarrow> utilization_round n d; utilization_rounds ns d }"

definition utilizationTest :: "tests \<Rightarrow> tests option" where
  "utilizationTest d = do {
     d \<leftarrow> dump_t d;
     utilization_rounds [3992 - i * 24 + j. i \<leftarrow> [1, 2], j \<leftarrow> [- 1, 0, 1]] d }"

section \<open>Several processes\<close>

text \<open>
  The loop that reads a strategy and a size for each child. After an invalid strategy the counter
  steps back before the size is read, so that size goes to the entry before; before the first
  entry that is outside the array. The numbers typed in are a list; \<^verbatim>\<open>scanf\<close> at its end is \<open>None\<close>.
\<close>

fun read_requests :: "nat \<Rightarrow> int list \<Rightarrow> int list \<Rightarrow> int list \<Rightarrow> (int list \<times> int list \<times> int list) option" where
  "read_requests i strategies sizes typed =
     (if 4 \<le> i then Some (strategies, sizes, typed)
      else case typed of
        v # n # typed' \<Rightarrow>
          if v < 0 \<or> 3 < v
          then if i = 0 then None
               else read_requests i (strategies[i := v]) (sizes[i - 1 := n]) typed'
          else read_requests (Suc i) (strategies[i := v]) (sizes[i := n]) typed'
      | _ \<Rightarrow> None)"

text \<open>
  A child process: it allocates and stores the pointer in the shared array; when the array is not
  there the store kills this child only.
\<close>

definition child_run :: "addr \<Rightarrow> int list \<Rightarrow> int list \<Rightarrow> nat \<Rightarrow> tests \<Rightarrow> tests option" where
  "child_run pointers strategies sizes i d = do {
     (test, d) \<leftarrow> malloc_t (word_of_int (sizes ! i)) (strategies ! i) d;
     if test = 0 then Some (print_item (Child i (sizes ! i) None None) d)
     else let d = print_item (Child i (sizes ! i) (Some test) (Some (getHeapAddress (heap d) test))) d in
       case store_u64 (mem (heap d)) (pointers + 8 * of_nat i) test of
         None \<Rightarrow> Some d
       | Some m \<Rightarrow> Some (d\<lparr>heap := (heap d)\<lparr>mem := m\<rparr>\<rparr>) }"

fun children :: "addr \<Rightarrow> int list \<Rightarrow> int list \<Rightarrow> nat list \<Rightarrow> tests \<Rightarrow> tests option" where
  "children pointers strategies sizes [] d = Some d"
| "children pointers strategies sizes (i # is) d = do {
     d \<leftarrow> child_run pointers strategies sizes i d;
     children pointers strategies sizes is d }"

text \<open>The parent frees what the array names, then the array.\<close>

fun free_pointers :: "addr \<Rightarrow> nat list \<Rightarrow> tests \<Rightarrow> tests option" where
  "free_pointers pointers [] d = Some d"
| "free_pointers pointers (i # is) d = do {
     p \<leftarrow> load_u64 (mem (heap d)) (pointers + 8 * of_nat i);
     (_, d) \<leftarrow> free_t p d;
     free_pointers pointers is d }"

text \<open>
  \<open>order\<close> lists the children in the order in which they take the mutex; \<open>pids\<close> are the answers of \<^verbatim>\<open>fork\<close>. When
  a \<^verbatim>\<open>fork\<close> fails the program leaves (\<open>Inl\<close>), before it looks at the heap again.
\<close>

definition forkTest :: "(nat \<Rightarrow> int) \<Rightarrow> nat list \<Rightarrow> int list \<Rightarrow> int list \<Rightarrow> int list \<Rightarrow> tests
    \<Rightarrow> (string + tests \<times> int list) option" where
  "forkTest pids order strategies sizes typed d = do {
     (strategies, sizes, typed) \<leftarrow> read_requests 0 strategies sizes typed;
     d \<leftarrow> dump_t d;
     (pointers, d) \<leftarrow> malloc_t (4 * 8) (strategy_code FIRST_FIT) d;
     if \<exists>i \<in> set [0..<4]. pids i = -1 then Some (Inl ''Fork failed'')
     else do {
       d \<leftarrow> children pointers strategies sizes order d;
       d \<leftarrow> dump_t d;
       d \<leftarrow> free_pointers pointers [0..<4] d;
       (_, d) \<leftarrow> free_t pointers d;
       d \<leftarrow> dump_t d;
       Some (Inr (d, typed)) } }"

section \<open>Invalid pointers, and the whole program\<close>

definition invalidPointerTest :: "tests \<Rightarrow> tests option" where
  "invalidPointerTest d = do {
     (ptr, d) \<leftarrow> malloc_t 10 (strategy_code FIRST_FIT) d;
     d \<leftarrow> dump_t (print_item (Ptr ptr) d);
     (r, d) \<leftarrow> free_t ptr d;
     d \<leftarrow> dump_t (print_item (Returned r) d);
     (r, d) \<leftarrow> free_t ptr d;
     d \<leftarrow> dump_t (print_item (Returned r) d);
     (r, d) \<leftarrow> free_t (ptr + 10) d;
     dump_t (print_item (Returned r) d) }"

definition conductTests :: "os \<Rightarrow> addr \<Rightarrow> (nat \<Rightarrow> int) \<Rightarrow> nat list \<Rightarrow> int list \<Rightarrow> int list \<Rightarrow> int list \<Rightarrow> tests
    \<Rightarrow> (string + tests) option" where
  "conductTests w stk pids order strategies sizes typed d = do {
     (r, s) \<leftarrow> InitMyMalloc w stk 4096 (heap d);
     d \<leftarrow> testStrategies (print_item (Returned r) (d\<lparr>heap := s\<rparr>));
     d \<leftarrow> utilizationTest d;
     out \<leftarrow> forkTest pids order strategies sizes typed d;
     case out of
       Inl msg \<Rightarrow> Some (Inl msg)
     | Inr (d, typed) \<Rightarrow> do {
         d \<leftarrow> invalidPointerTest d;
         (ptr, d) \<leftarrow> malloc_t 1 (strategy_code FIRST_FIT) (d\<lparr>heap := unInitMyMalloc (heap d)\<rparr>);
         Some (Inr (print_item (Ptr ptr) d)) } }"

end
