(* ===== verification/HeapTestProps.thy ===== *)
theory HeapTestProps
  imports HeapTests
begin

text \<open>
  What the test program does on a well-formed heap: the calls of the allocator as steps on the list of free
  blocks and the list of blocks in use, and with them the outcome of each test.
\<close>

section \<open>The state of a test\<close>

text \<open>The free list is \<open>xs\<close>, the roving pointer \<open>nf\<close>, and the program holds the blocks \<open>vs\<close>.\<close>

definition holds :: "tests \<Rightarrow> addr \<Rightarrow> block list \<Rightarrow> block list \<Rightarrow> bool" where
  "holds d nf xs vs \<longleftrightarrow> heap_inv (heap d) nf xs (vs @ [mutex_block (heap d), list_block (heap d)])"

fun is_value :: "report \<Rightarrow> bool" where
  "is_value (Lines ls) = False"
| "is_value r = True"

definition shown :: "tests \<Rightarrow> report list" where
  "shown d = filter is_value (printed d)"

lemma holds_print [simp]: "holds (print_item r d) = holds d"
  by (intro ext) (simp add: holds_def print_item_def)

lemma shown_print [simp]:
  "is_value r \<Longrightarrow> shown (print_item r d) = shown d @ [r]" "shown (print_item (Lines ls) d) = shown d"
  by (simp_all add: shown_def print_item_def)

lemma heap_print [simp]: "heap (print_item r d) = heap d"
  by (simp add: print_item_def)

lemma shown_heap [simp]: "shown (d\<lparr>heap := s\<rparr>) = shown d"
  by (simp add: shown_def)

lemma holdsD:
  assumes "holds d nf xs vs" "b \<in> set vs"
  shows "b \<noteq> list_block (heap d)" "b \<noteq> mutex_block (heap d)"
    "b \<in> set (vs @ [mutex_block (heap d), list_block (heap d)])"
  using assms by (auto simp: holds_def heap_inv_def tile_def)

lemma holds_tile: "holds d nf xs vs \<Longrightarrow> tile (heap_area (heap d) - extent (mutex_block (heap d)) - extent (list_block (heap d))) (xs @ vs)"
proof -
  assume "holds d nf xs vs"
  then have "tile (heap_area (heap d)) (xs @ vs @ [mutex_block (heap d), list_block (heap d)])"
    by (simp add: holds_def heap_inv_def)
  then have "tile (heap_area (heap d)) (mutex_block (heap d) # list_block (heap d) # xs @ vs)"
    by (rule iffD1[OF tile_mset, rotated]) simp
  then show ?thesis by (simp add: tile_Cons)
qed

lemma holds_perm: "mset vs = mset vs' \<Longrightarrow> holds d nf xs vs \<Longrightarrow> holds d nf xs vs'"
proof -
  assume m: "mset vs = mset vs'" and h: "holds d nf xs vs"
  let ?r = "[mutex_block (heap d), list_block (heap d)]"
  have "set vs = set vs'" using m by (rule mset_eq_setD)
  moreover have "tile (heap_area (heap d)) (xs @ vs @ ?r) = tile (heap_area (heap d)) (xs @ vs' @ ?r)"
    by (rule tile_mset) (simp add: m)
  ultimately show ?thesis using h by (simp add: holds_def heap_inv_def)
qed

text \<open>Words inside the payloads of the blocks \<open>vs\<close> have the same value in both states.\<close>

definition kept :: "block list \<Rightarrow> tests \<Rightarrow> tests \<Rightarrow> bool" where
  "kept vs d d' \<longleftrightarrow> (\<forall>b \<in> set vs. \<forall>x. rng x 8 \<subseteq> payload b \<longrightarrow>
     load_u64 (mem (heap d')) x = load_u64 (mem (heap d)) x)"

lemma kept_same_on:
  assumes "holds d nf xs vs" "same_on A (mem (heap d)) (mem (heap d'))" "\<And>b. b \<in> set us \<Longrightarrow> payload b \<subseteq> A"
  shows "kept us d d'"
proof -
  have "wf_memory (mem (heap d))" using assms(1) by (auto simp: holds_def heap_inv_def free_store_def list_ok_def)
  then show ?thesis using load_u64_same_on[OF assms(2)] assms(3) unfolding kept_def by blast
qed

lemma kept_print [simp]: "kept us (print_item r d) d' = kept us d d'" "kept us d (print_item r d') = kept us d d'"
  by (simp_all add: kept_def print_item_def)

lemma kept_refl [simp]: "kept us d d"
  by (simp add: kept_def)

lemma kept_trans:
  assumes "kept us d d'" "kept us' d' d''" "set ws \<subseteq> set us" "set ws \<subseteq> set us'"
  shows "kept ws d d''"
  unfolding kept_def
proof (intro ballI allI impI)
  fix b x
  assume b: "b \<in> set ws" "rng x 8 \<subseteq> payload b"
  then have "load_u64 (mem (heap d')) x = load_u64 (mem (heap d)) x"
    using assms(1,3) unfolding kept_def by blast
  moreover have "load_u64 (mem (heap d'')) x = load_u64 (mem (heap d')) x"
    using assms(2,4) b unfolding kept_def by blast
  ultimately show "load_u64 (mem (heap d'')) x = load_u64 (mem (heap d)) x" by simp
qed

text \<open>The concrete heap of one page, before any test.\<close>

lemma demo_tests:
  obtains d where "holds d 0x100068 [Block 0x100068 3968] []" "shown d = []" "heapBlockHeader (heap d) = 0x100000"
proof (rule demo_heap)
  fix s
  assume "heap_inv s 0x100068 [Block 0x100068 3968] [Block 0x100028 40, Block 0x100000 16]"
    "list_block s = Block 0x100000 16" "mutex_block s = Block 0x100028 40" "heapBlockHeader s = 0x100000"
  then show thesis using that[of "\<lparr>heap = s, printed = []\<rparr>"] by (simp add: holds_def shown_def)
qed

section \<open>One call\<close>

lemma malloc_holds:
  assumes "holds d nf xs vs" "select st n nf xs = Some b"
  obtains d' where "malloc_t n (strategy_code st) d = Some (baddr b + SIZEOF_NODE, d')"
    "holds d' (rover b n xs) (take_out b n xs) (granted b n # vs)" "shown d' = shown d" "kept vs d d'"
    "baddr b + SIZEOF_NODE \<noteq> 0" "heapBlockHeader (heap d') = heapBlockHeader (heap d)"
proof -
  note h = assms(1)[unfolded holds_def]
  obtain s where s: "MyMalloc n (strategy_code st) (heap d) = Some (baddr b + SIZEOF_NODE, s)"
    "heap_inv s (rover b n xs) (take_out b n xs) (granted b n # vs @ [mutex_block (heap d), list_block (heap d)])"
    "same_on (- (free_area xs \<union> rng (p_sharedFreeList (heap d)) 16)) (mem (heap d)) (mem s)"
    "list_block s = list_block (heap d)" "mutex_block s = mutex_block (heap d)"
    "heapBlockHeader s = heapBlockHeader (heap d)"
    using MyMalloc_success[OF h assms(2)] by blast
  have apart: "payload c \<subseteq> - (free_area xs \<union> rng (p_sharedFreeList (heap d)) 16)" if "c \<in> set vs" for c
    using allocated_apart(1,3)[OF h holdsD(3)[OF assms(1) that]] holdsD(1)[OF assms(1) that] payload_extent[of c]
    by blast
  have "kept vs d (d\<lparr>heap := s\<rparr>)" by (rule kept_same_on[OF assms(1) _ apart]) (use s(3) in simp)
  moreover have "baddr b + SIZEOF_NODE \<noteq> 0" using in_heap_bounds(1)[OF s(2), of "granted b n"] by simp
  ultimately show thesis using that[of "d\<lparr>heap := s\<rparr>"] s by (simp add: malloc_t_def holds_def)
qed

lemma malloc_null:
  assumes "holds d nf xs vs" "\<forall>b \<in> set xs. bsize b < n"
  shows "malloc_t n (strategy_code st) d = Some (0, d)"
  using MyMalloc_fail[OF assms(1)[unfolded holds_def] assms(2)] by (simp add: malloc_t_def)

lemma free_holds:
  assumes "holds d nf xs vs" "b \<in> set vs" "insert_free b nf xs = Some (ys, nf')"
  obtains d' where "free_t (baddr b + SIZEOF_NODE) d = Some (0, d')" "holds d' nf' ys (remove1 b vs)"
    "shown d' = shown d" "kept (remove1 b vs) d d'" "heapBlockHeader (heap d') = heapBlockHeader (heap d)"
proof -
  note h = assms(1)[unfolded holds_def]
  obtain m where m: "MyFree (baddr b + SIZEOF_NODE) (heap d) = Some (0, (heap d)\<lparr>mem := m\<rparr>)"
    "heap_inv ((heap d)\<lparr>mem := m\<rparr>) nf' ys (remove1 b (vs @ [mutex_block (heap d), list_block (heap d)]))"
    "same_on (- (free_area (b # xs) \<union> rng (p_sharedFreeList (heap d)) 16)) (mem (heap d)) m"
    using MyFree_ok(2)[OF h holdsD(3)[OF assms(1,2)] holdsD(1,2)[OF assms(1,2)] assms(3)] by blast
  have t: "tile (heap_area (heap d)) (xs @ vs @ [mutex_block (heap d), list_block (heap d)])"
    using h by (simp add: heap_inv_def)
  then have dist: "distinct vs" by (simp add: tile_def)
  have apart: "payload c \<subseteq> - (free_area (b # xs) \<union> rng (p_sharedFreeList (heap d)) 16)" if "c \<in> set (remove1 b vs)" for c
  proof -
    have c: "c \<in> set vs" "c \<noteq> b" using that dist by (auto simp: set_remove1_eq)
    then have "extent c \<inter> extent b = {}" using tile_disjoint[OF t] assms(2) by simp
    then show ?thesis
      using allocated_apart(1,3)[OF h holdsD(3)[OF assms(1) c(1)]] holdsD(1)[OF assms(1) c(1)] payload_extent[of c]
      by (auto simp: free_area_def)
  qed
  have "kept (remove1 b vs) d (d\<lparr>heap := (heap d)\<lparr>mem := m\<rparr>\<rparr>)"
    by (rule kept_same_on[OF assms(1) _ apart]) (use m(3) in simp)
  then show thesis
    using that[of "d\<lparr>heap := (heap d)\<lparr>mem := m\<rparr>\<rparr>"] m(1,2) assms(2)
    by (simp add: free_t_def holds_def remove1_append mutex_block_def list_block_def)
qed

lemma free_crash:
  assumes "holds d nf xs vs" "b \<in> set vs" "insert_free b nf xs = None"
  shows "free_t (baddr b + SIZEOF_NODE) d = None"
  using MyFree_ok(1)[OF assms(1)[unfolded holds_def] holdsD(3)[OF assms(1,2)] holdsD(1,2)[OF assms(1,2)] assms(3)]
  by (simp add: free_t_def)

lemma dump_holds:
  assumes "holds d nf xs vs"
  obtains ls where "dump_t d = Some (print_item (Lines ls) d)"
proof -
  note h = assms[unfolded holds_def]
  obtain ls where "DumpFreeList (heap d) = Some (ls, heap d)"
  proof (cases xs)
    case Nil
    then have "list_store (mem (heap d)) (p_sharedFreeList (heap d)) []" "heapBlockHeader (heap d) \<noteq> 0" "\<not> mutex_held (heap d)"
      using h by (auto simp: heap_inv_def free_store_iff)
    moreover from this(3) have "(heap d)\<lparr>mutex_held := True, mutex_held := False\<rparr> = heap d" by simp
    ultimately show ?thesis using that list_storeD(1)[of "mem (heap d)" "p_sharedFreeList (heap d)" "[]"]
      by (simp add: DumpFreeList_def pthread_mutex_lock_def pthread_mutex_unlock_def head_addr_def)
  next
    case (Cons c cs)
    then show ?thesis using that DumpFreeList_eq[of "heap d" nf c cs] h by blast
  qed
  then show thesis using that by (simp add: dump_t_def)
qed

section \<open>A call followed by a dump\<close>

lemma alloc_shown:
  assumes "holds d nf xs vs" "select st n nf xs = Some b" "p = baddr b + SIZEOF_NODE"
  obtains d' where "\<And>f. do { (p, d) \<leftarrow> malloc_t n (strategy_code st) d; d \<leftarrow> dump_t (print_item (Ptr p) d); f p d } = f p d'"
    "holds d' (rover b n xs) (take_out b n xs) (granted b n # vs)" "shown d' = shown d @ [Ptr p]"
proof -
  obtain d1 where d1: "malloc_t n (strategy_code st) d = Some (p, d1)"
    "holds d1 (rover b n xs) (take_out b n xs) (granted b n # vs)" "shown d1 = shown d"
    using malloc_holds[OF assms(1,2)] assms(3) by blast
  obtain ls where "dump_t (print_item (Ptr p) d1) = Some (print_item (Lines ls) (print_item (Ptr p) d1))"
    by (rule dump_holds[of "print_item (Ptr p) d1"]) (use d1(2) in auto)
  then show thesis using that[of "print_item (Lines ls) (print_item (Ptr p) d1)"] d1 by simp
qed

lemma free_shown:
  assumes "holds d nf xs vs" "b \<in> set vs" "insert_free b nf xs = Some (ys, nf')" "p = baddr b + SIZEOF_NODE"
  obtains d' where "\<And>f. do { (_, d) \<leftarrow> free_t p d; d \<leftarrow> dump_t d; f d } = f d'"
    "holds d' nf' ys (remove1 b vs)" "shown d' = shown d"
proof -
  obtain d1 where d1: "free_t p d = Some (0, d1)" "holds d1 nf' ys (remove1 b vs)" "shown d1 = shown d"
    using free_holds[OF assms(1-3)] assms(4) by blast
  obtain ls where "dump_t d1 = Some (print_item (Lines ls) d1)" by (rule dump_holds[OF d1(2)])
  then show thesis using that[of "print_item (Lines ls) d1"] d1 by simp
qed

section \<open>A heap with one free block\<close>

lemma sub_less_mono:
  fixes n :: size_t
  shows "k < n \<Longrightarrow> j \<le> k \<Longrightarrow> k - j < n - j"
  by (simp add: word_less_nat_alt word_le_nat_alt unat_sub)

lemma off_less:
  assumes "block_ok (Block a n)" "j \<le> n" "i < j"
  shows "a + i < a + j"
proof -
  have b: "unat a + 24 + unat n \<le> 2 ^ 64" using assms(1) by (simp add: block_ok_def)
  have "unat j \<le> unat n" "unat i < unat j" using assms by (simp_all add: word_less_nat_alt word_le_nat_alt)
  then show ?thesis using b by (simp add: word_less_nat_alt) (subst (1 2) unat_add_no_wrap, auto)
qed

lemma holds_block_ok: "holds d nf xs vs \<Longrightarrow> b \<in> set xs \<union> set vs \<Longrightarrow> block_ok b"
  using holds_tile tile_block_ok[of _ "xs @ vs" b] by fastforce

text \<open>Every strategy allocates from the front of the only free block.\<close>

lemma select_only: "select st k nf [Block a n] = (if k \<le> n then Some (Block a n) else None)"
  by (cases st) (auto simp: rotate_to_def)

lemma take_only:
  assumes "k + SIZEOF_NODE < n"
  shows "take_out (Block a n) k [Block a n] = [Block (a + (24 + k)) (n - (24 + k))]"
    "rover (Block a n) k [Block a n] = a + (24 + k)" "granted (Block a n) k = Block a k"
  using assms by (auto simp: residue_def rover_def head_addr_def granted_def Let_def algebra_simps)

lemma malloc_only:
  assumes "holds d nf [Block a n] vs" "24 + k < n" "k \<le> n"
  obtains d' where "malloc_t k (strategy_code st) d = Some (a + 24, d')"
    "holds d' (a + (24 + k)) [Block (a + (24 + k)) (n - (24 + k))] (Block a k # vs)"
    "shown d' = shown d" "kept vs d d'" "a + 24 \<noteq> 0" "heapBlockHeader (heap d') = heapBlockHeader (heap d)"
proof -
  have k: "k + SIZEOF_NODE < n" using assms(2) by (simp add: add.commute)
  have "select st k nf [Block a n] = Some (Block a n)" using assms(3) by (simp add: select_only)
  show thesis
    by (rule malloc_holds[OF assms(1) \<open>select st k nf [Block a n] = _\<close>, unfolded take_only[OF k] block.sel]) (rule that)
qed

lemma alloc_only:
  assumes "holds d nf [Block a n] vs" "24 + k < n" "k \<le> n"
  obtains d' where "\<And>f. do { (p, d) \<leftarrow> malloc_t k (strategy_code st) d; d \<leftarrow> dump_t (print_item (Ptr p) d); f p d } = f (a + 24) d'"
    "holds d' (a + (24 + k)) [Block (a + (24 + k)) (n - (24 + k))] (Block a k # vs)"
    "shown d' = shown d @ [Ptr (a + 24)]"
proof -
  have k: "k + SIZEOF_NODE < n" using assms(2) by (simp add: add.commute)
  have "select st k nf [Block a n] = Some (Block a n)" using assms(3) by (simp add: select_only)
  show thesis
    by (rule alloc_shown[OF assms(1) \<open>select st k nf [Block a n] = _\<close> refl, unfolded take_only[OF k] block.sel]) (rule that)
qed

text \<open>What one run of \<^verbatim>\<open>singleStrategyTest\<close> prints besides the free lists: only best fit and first fit give the
  freed block out again.\<close>

definition reused :: "Strategy \<Rightarrow> bool" where
  "reused st \<longleftrightarrow> st = BEST_FIT \<or> st = FIRST_FIT"

definition strategy_pointers :: "Strategy \<Rightarrow> addr \<Rightarrow> report list" where
  "strategy_pointers st a = [Ptr (a + 24), Ptr (a + 58), Ptr (a + 92), Ptr (if reused st then a + 58 else a + 126)]"

lemma three_allocations:
  assumes "holds d nf [Block a n] vs" "136 < n"
  obtains d' where "\<And>f :: addr \<Rightarrow> addr \<Rightarrow> addr \<Rightarrow> tests \<Rightarrow> tests option. do {
      (ptr, d) \<leftarrow> malloc_t 10 (strategy_code st) d; d \<leftarrow> dump_t (print_item (Ptr ptr) d);
      (ptr2, d) \<leftarrow> malloc_t 10 (strategy_code st) d; d \<leftarrow> dump_t (print_item (Ptr ptr2) d);
      (ptr3, d) \<leftarrow> malloc_t 10 (strategy_code st) d; d \<leftarrow> dump_t (print_item (Ptr ptr3) d);
      f ptr ptr2 ptr3 d } = f (a + 24) (a + 58) (a + 92) d'"
    "holds d' (a + 102) [Block (a + 102) (n - 102)] (Block (a + 68) 10 # Block (a + 34) 10 # Block a 10 # vs)"
    "shown d' = shown d @ [Ptr (a + 24), Ptr (a + 58), Ptr (a + 92)]"
proof -
  have c: "34 < n" "34 < n - 34" "34 < n - 68" "10 \<le> n" "10 \<le> n - 34" "10 \<le> n - 68"
    using assms(2) sub_less_mono[of 136 n 34] sub_less_mono[of 136 n 68]
    by (simp_all add: word_less_nat_alt word_le_nat_alt)
  obtain d1 where d1: "\<And>f :: addr \<Rightarrow> tests \<Rightarrow> tests option. do { (p, d) \<leftarrow> malloc_t 10 (strategy_code st) d; d \<leftarrow> dump_t (print_item (Ptr p) d); f p d }
      = f (a + 24) d1" "holds d1 (a + 34) [Block (a + 34) (n - 34)] (Block a 10 # vs)" "shown d1 = shown d @ [Ptr (a + 24)]"
    using alloc_only[OF assms(1), of 10 st] c by (auto simp: add.commute)
  obtain d2 where d2: "\<And>f :: addr \<Rightarrow> tests \<Rightarrow> tests option. do { (p, d) \<leftarrow> malloc_t 10 (strategy_code st) d1; d \<leftarrow> dump_t (print_item (Ptr p) d); f p d }
      = f (a + 58) d2" "holds d2 (a + 68) [Block (a + 68) (n - 68)] (Block (a + 34) 10 # Block a 10 # vs)"
    "shown d2 = shown d1 @ [Ptr (a + 58)]"
    using alloc_only[OF d1(2), of 10 st] c by (auto simp: add.commute)
  obtain d3 where d3: "\<And>f :: addr \<Rightarrow> tests \<Rightarrow> tests option. do { (p, d) \<leftarrow> malloc_t 10 (strategy_code st) d2; d \<leftarrow> dump_t (print_item (Ptr p) d); f p d }
      = f (a + 92) d3"
    "holds d3 (a + 102) [Block (a + 102) (n - 102)] (Block (a + 68) 10 # Block (a + 34) 10 # Block a 10 # vs)"
    "shown d3 = shown d2 @ [Ptr (a + 92)]"
    using alloc_only[OF d2(2), of 10 st] c by (auto simp: add.commute)
  show thesis by (rule that[of d3]) (simp_all add: d1 d2 d3)
qed

text \<open>The four frees of a run, when the fourth allocation took the freed block and when it took a new one.\<close>

lemma joins:
  assumes "a < a + 34" "a < a + 68" "a < a + 102" "a + 34 < a + 102" "a + 34 < a + 136"
  shows "insert_free (Block (a + 34) 10) (a + 102) [Block (a + 102) (n - 102)]
      = Some ([Block (a + 34) 10, Block (a + 102) (n - 102)], a + 102)"
    "insert_free (Block a 10) (a + 102) [Block (a + 102) (n - 102)]
      = Some ([Block a 10, Block (a + 102) (n - 102)], a + 102)"
    "insert_free (Block (a + 68) 10) (a + 102) [Block a 10, Block (a + 102) (n - 102)]
      = Some ([Block a 10, Block (a + 68) (n - 68)], a)"
    "insert_free (Block (a + 34) 10) a [Block a 10, Block (a + 68) (n - 68)] = Some ([Block a n], a)"
    "insert_free (Block a 10) (a + 136) [Block (a + 34) 10, Block (a + 136) (n - 136)]
      = Some ([Block a 44, Block (a + 136) (n - 136)], a + 136)"
    "insert_free (Block (a + 68) 10) (a + 136) [Block a 44, Block (a + 136) (n - 136)]
      = Some ([Block a 78, Block (a + 136) (n - 136)], a + 136)"
    "insert_free (Block (a + 102) 10) (a + 136) [Block a 78, Block (a + 136) (n - 136)] = Some ([Block a n], a)"
  using assms assms(1-3)[THEN order_less_not_sym] by (simp_all add: insert_free_def merge_def adjacent_def join_def)


lemma offsets:
  assumes "holds d nf [Block a n] vs" "136 < n"
  shows "a < a + 34" "a < a + 68" "a < a + 102" "a + 34 < a + 102" "a + 34 < a + 136"
proof -
  have ok: "block_ok (Block a n)" using holds_block_ok[OF assms(1)] by simp
  have n: "34 \<le> n" "68 \<le> n" "102 \<le> n" "136 \<le> n" using assms(2) by (simp_all add: word_less_nat_alt word_le_nat_alt)
  show "a < a + 34" "a < a + 68" "a < a + 102" "a + 34 < a + 102" "a + 34 < a + 136"
    using off_less[OF ok, of 34 0] off_less[OF ok, of 68 0] off_less[OF ok, of 102 0] off_less[OF ok, of 102 34]
      off_less[OF ok, of 136 34] n by simp_all
qed

lemma fourth_choice:
  assumes "34 < n - 102"
  shows "select st 10 (a + 102) [Block (a + 34) 10, Block (a + 102) (n - 102)]
    = Some (if reused st then Block (a + 34) 10 else Block (a + 102) (n - 102))"
proof -
  have "10 < n - 102" "10 \<le> n - 102" "\<not> n - 102 < 10" using assms by (simp_all add: word_less_nat_alt word_le_nat_alt)
  then show ?thesis by (cases st) (simp_all add: reused_def rotate_to_def)
qed

lemma fourth_taken:
  assumes "34 < n - 102" "b = (if reused st then Block (a + 34) 10 else Block (a + 102) (n - 102))"
    and "xs = [Block (a + 34) 10, Block (a + 102) (n - 102)]" "a + 34 < a + 136"
  shows "take_out b 10 xs = (if reused st then [Block (a + 102) (n - 102)] else [Block (a + 34) 10, Block (a + 136) (n - 136)])"
    "rover b 10 xs = (if reused st then a + 102 else a + 136)"
    "granted b 10 = (if reused st then Block (a + 34) 10 else Block (a + 102) 10)"
proof -
  have r: "residue (Block (a + 34) 10) 10 = []"
    "residue (Block (a + 102) (n - 102)) 10 = [Block (a + 136) (n - 136)]"
    using assms(1) by (simp_all add: residue_def)
  show "take_out b 10 xs = (if reused st then [Block (a + 102) (n - 102)] else [Block (a + 34) 10, Block (a + 136) (n - 136)])"
    using r unfolding assms(2,3) by simp
  have "rover (Block (a + 34) 10) 10 xs = a + 102"
    using r(1) unfolding assms(3) by (simp add: rover_def head_addr_def Let_def)
  moreover have "a + 136 \<noteq> 0" using assms(4) by (metis word_not_simps(1))
  then have "rover (Block (a + 102) (n - 102)) 10 xs = a + 136"
    using r(2) unfolding assms(3) rover_def by (simp add: head_addr_def Let_def)
  ultimately show "rover b 10 xs = (if reused st then a + 102 else a + 136)" unfolding assms(2) by simp
  show "granted b 10 = (if reused st then Block (a + 34) 10 else Block (a + 102) 10)"
    using assms(1) unfolding assms(2) by (simp add: granted_def)
qed

lemma fourth_frees:
  assumes "holds d nf [Block a n] vs" "136 < n"
    and "holds e (if reused st then a + 102 else a + 136)
      (if reused st then [Block (a + 102) (n - 102)] else [Block (a + 34) 10, Block (a + 136) (n - 136)])
      ((if reused st then Block (a + 34) 10 else Block (a + 102) 10) # Block (a + 68) 10 # Block a 10 # vs)"
  obtains e' where "\<And>f :: tests \<Rightarrow> tests option. do {
      (_, d) \<leftarrow> free_t (a + 24) e; d \<leftarrow> dump_t d; (_, d) \<leftarrow> free_t (a + 92) d; d \<leftarrow> dump_t d;
      (_, d) \<leftarrow> free_t (if reused st then a + 58 else a + 126) d; d \<leftarrow> dump_t d; f d } = f e'"
    "holds e' a [Block a n] vs" "shown e' = shown e"
proof -
  note j = joins[OF offsets[OF assms(1,2)], of n]
  define y where "y = (if reused st then Block (a + 34) 10 else Block (a + 102) 10)"
  have y: "baddr y + 24 = (if reused st then a + 58 else a + 126)" "y \<noteq> Block a 10" "y \<noteq> Block (a + 68) 10"
    by (auto simp: y_def)
  have i1: "insert_free (Block a 10) (if reused st then a + 102 else a + 136)
      (if reused st then [Block (a + 102) (n - 102)] else [Block (a + 34) 10, Block (a + 136) (n - 136)])
    = Some (if reused st then [Block a 10, Block (a + 102) (n - 102)] else [Block a 44, Block (a + 136) (n - 136)],
        if reused st then a + 102 else a + 136)"
    "insert_free (Block (a + 68) 10) (if reused st then a + 102 else a + 136)
      (if reused st then [Block a 10, Block (a + 102) (n - 102)] else [Block a 44, Block (a + 136) (n - 136)])
    = Some (if reused st then [Block a 10, Block (a + 68) (n - 68)] else [Block a 78, Block (a + 136) (n - 136)],
        if reused st then a else a + 136)"
    "insert_free y (if reused st then a else a + 136)
      (if reused st then [Block a 10, Block (a + 68) (n - 68)] else [Block a 78, Block (a + 136) (n - 136)])
    = Some ([Block a n], a)"
    by (cases "reused st"; simp add: j y_def)+
  note h = assms(3)[folded y_def]
  obtain e1 where e1: "\<And>f :: tests \<Rightarrow> tests option. do { (_, d) \<leftarrow> free_t (a + 24) e; d \<leftarrow> dump_t d; f d } = f e1"
    "holds e1 (if reused st then a + 102 else a + 136)
      (if reused st then [Block a 10, Block (a + 102) (n - 102)] else [Block a 44, Block (a + 136) (n - 136)])
      (y # Block (a + 68) 10 # vs)" "shown e1 = shown e"
    using free_shown[OF h _ i1(1), of "a + 24"] y(2) by auto
  obtain e2 where e2: "\<And>f :: tests \<Rightarrow> tests option. do { (_, d) \<leftarrow> free_t (a + 92) e1; d \<leftarrow> dump_t d; f d } = f e2"
    "holds e2 (if reused st then a else a + 136)
      (if reused st then [Block a 10, Block (a + 68) (n - 68)] else [Block a 78, Block (a + 136) (n - 136)]) (y # vs)"
    "shown e2 = shown e1"
    using free_shown[OF e1(2) _ i1(2), of "a + 92"] y(3) by auto
  obtain e3 where e3: "\<And>f :: tests \<Rightarrow> tests option.
      do { (_, d) \<leftarrow> free_t (if reused st then a + 58 else a + 126) e2; d \<leftarrow> dump_t d; f d } = f e3"
    "holds e3 a [Block a n] vs" "shown e3 = shown e2"
    using free_shown[OF e2(2) _ i1(3) y(1)[symmetric]] by auto
  show thesis by (rule that[of e3]) (simp_all add: e1 e2 e3)
qed

text \<open>The test of one strategy on a heap with one free block, large enough: it hands out three blocks in
  a row; of the freed middle one best fit and first fit make the fourth, next fit and worst fit take
  new memory; and freeing everything gives back the one free block.\<close>

theorem singleStrategyTest_restores:
  assumes "holds d nf [Block a n] vs" "136 < n"
  shows "\<exists>d' nf'. singleStrategyTest (strategy_code st) d = Some d' \<and> holds d' nf' [Block a n] vs
    \<and> shown d' = shown d @ strategy_pointers st a"
proof -
  note j = joins[OF offsets[OF assms], of n]
  have c: "34 < n - 102" "10 \<le> n - 102" using assms(2) sub_less_mono[of 136 n 102]
    by (simp_all add: word_less_nat_alt word_le_nat_alt)
  obtain d1 where d1: "\<And>f :: addr \<Rightarrow> addr \<Rightarrow> addr \<Rightarrow> tests \<Rightarrow> tests option. do {
      (ptr, d) \<leftarrow> malloc_t 10 (strategy_code st) d; d \<leftarrow> dump_t (print_item (Ptr ptr) d);
      (ptr2, d) \<leftarrow> malloc_t 10 (strategy_code st) d; d \<leftarrow> dump_t (print_item (Ptr ptr2) d);
      (ptr3, d) \<leftarrow> malloc_t 10 (strategy_code st) d; d \<leftarrow> dump_t (print_item (Ptr ptr3) d);
      f ptr ptr2 ptr3 d } = f (a + 24) (a + 58) (a + 92) d1"
    "holds d1 (a + 102) [Block (a + 102) (n - 102)] (Block (a + 68) 10 # Block (a + 34) 10 # Block a 10 # vs)"
    "shown d1 = shown d @ [Ptr (a + 24), Ptr (a + 58), Ptr (a + 92)]"
    using three_allocations[OF assms, of st] by blast
  obtain d2 where d2: "\<And>f :: tests \<Rightarrow> tests option. do { (_, d) \<leftarrow> free_t (a + 58) d1; d \<leftarrow> dump_t d; f d } = f d2"
    "holds d2 (a + 102) [Block (a + 34) 10, Block (a + 102) (n - 102)] (Block (a + 68) 10 # Block a 10 # vs)"
    "shown d2 = shown d1"
    by (rule free_shown[OF d1(2) _ j(1), of "a + 58"]) auto
  obtain d3 where d3: "\<And>f :: addr \<Rightarrow> tests \<Rightarrow> tests option.
      do { (p, d) \<leftarrow> malloc_t 10 (strategy_code st) d2; d \<leftarrow> dump_t (print_item (Ptr p) d); f p d }
        = f (if reused st then a + 58 else a + 126) d3"
    "holds d3 (if reused st then a + 102 else a + 136)
      (if reused st then [Block (a + 102) (n - 102)] else [Block (a + 34) 10, Block (a + 136) (n - 136)])
      ((if reused st then Block (a + 34) 10 else Block (a + 102) 10) # Block (a + 68) 10 # Block a 10 # vs)"
    "shown d3 = shown d2 @ [Ptr (if reused st then a + 58 else a + 126)]"
    by (rule alloc_shown[OF d2(2) fourth_choice[OF c(1), of st a], where p = "if reused st then a + 58 else a + 126",
          unfolded fourth_taken[OF c(1) refl refl offsets(5)[OF assms]]]) auto
  obtain d4 where d4: "\<And>f :: tests \<Rightarrow> tests option. do {
      (_, d) \<leftarrow> free_t (a + 24) d3; d \<leftarrow> dump_t d; (_, d) \<leftarrow> free_t (a + 92) d; d \<leftarrow> dump_t d;
      (_, d) \<leftarrow> free_t (if reused st then a + 58 else a + 126) d; d \<leftarrow> dump_t d; f d } = f d4"
    "holds d4 a [Block a n] vs" "shown d4 = shown d3" using fourth_frees[OF assms d3(2)] by blast
  have "singleStrategyTest (strategy_code st) d = Some d4"
    unfolding singleStrategyTest_def by (simp only: d1(1) d2(1) d3(1) d4(1))
  then show ?thesis using d1(3) d2(3) d3(3) d4(2,3)
    by (intro exI[of _ d4] exI[of _ a]) (simp add: strategy_pointers_def)
qed

theorem singleStrategyTest_restores_witness:
  "\<exists>d d' nf'. singleStrategyTest 1 d = Some d' \<and> holds d' nf' [Block 0x100068 3968] []
     \<and> shown d' = [Ptr 0x100080, Ptr 0x1000a2, Ptr 0x1000c4, Ptr 0x1000e6]"
proof (rule demo_tests)
  fix d
  assume d: "holds d 0x100068 [Block 0x100068 3968] []" "shown d = []"
  have "\<exists>d' nf'. singleStrategyTest (strategy_code WORST_FIT) d = Some d' \<and> holds d' nf' [Block 0x100068 3968] []
    \<and> shown d' = shown d @ strategy_pointers WORST_FIT 0x100068"
    by (rule singleStrategyTest_restores[OF d(1)]) simp
  then show ?thesis using d(2) by (auto simp: strategy_pointers_def reused_def)
qed

text \<open>The four strategies in turn leave the heap as they found it.\<close>

lemma testStrategies_restores:
  assumes "holds d nf [Block a n] vs" "136 < n"
  obtains d' nf' where "testStrategies d = Some d'" "holds d' nf' [Block a n] vs"
    "shown d' = shown d @ concat (map (\<lambda>st. strategy_pointers st a) [FIRST_FIT, NEXT_FIT, BEST_FIT, WORST_FIT])"
proof -
  have run: "\<exists>d' nf'. singleStrategyTest (strategy_code st) d = Some d' \<and> holds d' nf' [Block a n] vs
      \<and> shown d' = shown d @ strategy_pointers st a" if "holds d nf [Block a n] vs" for d nf st
    using singleStrategyTest_restores[OF that assms(2)] .
  obtain d1 nf1 where 1: "singleStrategyTest (strategy_code FIRST_FIT) d = Some d1" "holds d1 nf1 [Block a n] vs"
    "shown d1 = shown d @ strategy_pointers FIRST_FIT a" using run[OF assms(1)] by blast
  obtain d2 nf2 where 2: "singleStrategyTest (strategy_code NEXT_FIT) d1 = Some d2" "holds d2 nf2 [Block a n] vs"
    "shown d2 = shown d1 @ strategy_pointers NEXT_FIT a" using run[OF 1(2)] by blast
  obtain d3 nf3 where 3: "singleStrategyTest (strategy_code BEST_FIT) d2 = Some d3" "holds d3 nf3 [Block a n] vs"
    "shown d3 = shown d2 @ strategy_pointers BEST_FIT a" using run[OF 2(2)] by blast
  obtain d4 nf4 where 4: "singleStrategyTest (strategy_code WORST_FIT) d3 = Some d4" "holds d4 nf4 [Block a n] vs"
    "shown d4 = shown d3 @ strategy_pointers WORST_FIT a" using run[OF 3(2)] by blast
  have "testStrategies d = Some d4" unfolding testStrategies_def using 1(1) 2(1) 3(1) 4(1) by simp
  then show thesis using that 4 3(3) 2(3) 1(3) by simp
qed

section \<open>Using the heap up\<close>

lemma free_null:
  assumes "holds d nf xs vs"
  obtains d' where "free_t 0 d = Some (-1, d')" "holds d' nf xs vs" "shown d' = shown d"
proof -
  let ?d = "d\<lparr>heap := say ''Invalid pointer'' (heap d)\<rparr>"
  have "\<not> mutex_held (heap d)" "heapBlockHeader (heap d) \<noteq> 0" using assms by (simp_all add: holds_def heap_inv_def)
  then have "free_t 0 d = Some (-1, ?d)" using MyFree_refuses[of "heap d" 0] by (simp add: free_t_def)
  moreover have "holds ?d nf xs vs"
    using assms by (simp add: holds_def heap_inv_say) (simp add: say_def list_block_def mutex_block_def)
  ultimately show thesis using that by simp
qed

lemma dump_then:
  assumes "holds d nf xs vs"
  obtains d' where "dump_t d = Some d'" "holds d' nf xs vs" "shown d' = shown d"
proof -
  obtain ls where "dump_t d = Some (print_item (Lines ls) d)" by (rule dump_holds[OF assms])
  then show thesis using that[of "print_item (Lines ls) d"] assms by simp
qed

lemma malloc_free_only:
  assumes "holds d nf [Block a n] vs" "k \<le> n"
  obtains d' where "malloc_t k (strategy_code st) d = Some (a + 24, d')" "shown d' = shown d" "a + 24 \<noteq> 0"
    "\<exists>nf1 xs1. holds d' nf1 xs1 (granted (Block a n) k # vs)
      \<and> (\<exists>nf'. insert_free (granted (Block a n) k) nf1 xs1 = Some ([Block a n], nf'))"
proof -
  let ?b = "Block a n"
  have sel: "select st k nf [?b] = Some ?b" using assms(2) by (simp add: select_only)
  obtain d' where d': "malloc_t k (strategy_code st) d = Some (a + 24, d')"
    "holds d' (rover ?b k [?b]) (take_out ?b k [?b]) (granted ?b k # vs)" "shown d' = shown d" "a + 24 \<noteq> 0"
    using malloc_holds[OF assms(1) sel] by auto
  have t: "tile (free_area [?b]) [?b]" using assms(1) by (simp add: holds_def heap_inv_def free_store_def)
  have "\<exists>nf'. insert_free (granted ?b k) (rover ?b k [?b]) (take_out ?b k [?b]) = Some ([?b], nf')"
  proof (cases "k + SIZEOF_NODE < n")
    case True
    then show ?thesis
      using take_out_insert_free[OF t, of ?b k "rover ?b k [?b]"] assms(2) by (simp add: ordered_Cons coalesced_Cons)
  next
    case False
    then show ?thesis by (simp add: insert_free_def residue_def granted_def)
  qed
  then show thesis using that d' by blast
qed

definition request_report :: "addr \<Rightarrow> size_t \<Rightarrow> int \<Rightarrow> report" where
  "request_report a n r = (if word_of_int r \<le> n then Request r (a + 24) r else Request r 0 0)"

lemma is_value_request [simp]: "is_value (request_report a n r)"
  by (simp add: request_report_def)

lemma utilization_round_restores:
  assumes "holds d nf [Block a n] vs"
  obtains d' nf' where "utilization_round r d = Some d'" "holds d' nf' [Block a n] vs"
    "shown d' = shown d @ [request_report a n r]"
proof (cases "word_of_int r \<le> n")
  case True
  let ?rep = "Request r (a + 24) r"
  obtain d1 nf1 xs1 nf2 where d1: "malloc_t (word_of_int r) (strategy_code FIRST_FIT) d = Some (a + 24, d1)" "shown d1 = shown d"
    "a + 24 \<noteq> 0" "holds d1 nf1 xs1 (granted (Block a n) (word_of_int r) # vs)"
    "insert_free (granted (Block a n) (word_of_int r)) nf1 xs1 = Some ([Block a n], nf2)"
    using malloc_free_only[OF assms True, of FIRST_FIT] by metis
  have p: "holds (print_item ?rep d1) nf1 xs1 (granted (Block a n) (word_of_int r) # vs)" using d1(4) by simp
  obtain d2 where d2: "dump_t (print_item ?rep d1) = Some d2" "holds d2 nf1 xs1 (granted (Block a n) (word_of_int r) # vs)"
    "shown d2 = shown (print_item ?rep d1)" by (rule dump_then[OF p])
  obtain d3 where d3: "free_t (a + 24) d2 = Some (0, d3)" "holds d3 nf2 [Block a n] vs" "shown d3 = shown d2"
    using free_holds[OF d2(2) _ d1(5)] by (auto simp: granted_def)
  obtain d4 where d4: "dump_t d3 = Some d4" "holds d4 nf2 [Block a n] vs" "shown d4 = shown d3" by (rule dump_then[OF d3(2)])
  have "utilization_round r d = Some d4"
    unfolding utilization_round_def using d1(1,3) d2(1) d3(1) d4(1) by (simp del: strategy_code.simps)
  then show thesis using that[OF _ d4(2)] d4(3) d3(3) d2(3) d1(2) True by (simp add: request_report_def)
next
  case False
  let ?rep = "Request r 0 0"
  have m: "malloc_t (word_of_int r) (strategy_code FIRST_FIT) d = Some (0, d)"
    by (rule malloc_null[OF assms]) (use False in simp)
  have p: "holds (print_item ?rep d) nf [Block a n] vs" using assms by simp
  obtain d2 where d2: "dump_t (print_item ?rep d) = Some d2" "holds d2 nf [Block a n] vs"
    "shown d2 = shown (print_item ?rep d)" by (rule dump_then[OF p])
  obtain d3 where d3: "free_t 0 d2 = Some (-1, d3)" "holds d3 nf [Block a n] vs" "shown d3 = shown d2" by (rule free_null[OF d2(2)])
  obtain d4 where d4: "dump_t d3 = Some d4" "holds d4 nf [Block a n] vs" "shown d4 = shown d3" by (rule dump_then[OF d3(2)])
  have "utilization_round r d = Some d4"
    unfolding utilization_round_def using m d2(1) d3(1) d4(1) by (simp del: strategy_code.simps)
  then show thesis using that[OF _ d4(2)] d4(3) d3(3) d2(3) False by (simp add: request_report_def)
qed

lemma utilization_rounds_restore:
  assumes "holds d nf [Block a n] vs"
  shows "\<exists>d' nf'. utilization_rounds rs d = Some d' \<and> holds d' nf' [Block a n] vs
    \<and> shown d' = shown d @ map (request_report a n) rs"
  using assms
proof (induction rs arbitrary: d nf)
  case (Cons r rs)
  obtain d1 nf1 where "utilization_round r d = Some d1" "holds d1 nf1 [Block a n] vs"
    "shown d1 = shown d @ [request_report a n r]" by (rule utilization_round_restores[OF Cons.prems])
  then show ?case using Cons.IH[of d1 nf1] by auto
qed auto

lemma utilizationTest_reports:
  assumes "holds d nf [Block a n] vs"
  shows "\<exists>d' nf'. utilizationTest d = Some d' \<and> holds d' nf' [Block a n] vs
    \<and> shown d' = shown d @ map (request_report a n) [3967, 3968, 3969, 3943, 3944, 3945]"
proof -
  obtain d1 where d1: "dump_t d = Some d1" "holds d1 nf [Block a n] vs" "shown d1 = shown d" by (rule dump_then[OF assms])
  have "[3992 - i * 24 + j. i \<leftarrow> [1, 2], j \<leftarrow> [- 1, 0, 1]] = [3967, 3968, 3969, 3943, 3944, 3945 :: int]" by simp
  then show ?thesis
    using utilization_rounds_restore[OF d1(2), of "[3967, 3968, 3969, 3943, 3944, 3945]"] d1
    by (simp add: utilizationTest_def)
qed

text \<open>C16. On the heap of one page every request of the utilisation test up to the whole free block of 3968
  bytes is granted at the same address, also the ones whose rest is too small for a header; only the
  request for 3969 bytes is refused; and after each round the heap is again one free block.\<close>

theorem utilizationTest_bounds:
  assumes "holds d nf [Block a 3968] vs"
  shows "\<exists>d' nf'. utilizationTest d = Some d' \<and> holds d' nf' [Block a 3968] vs
    \<and> shown d' = shown d @ [Request 3967 (a + 24) 3967, Request 3968 (a + 24) 3968, Request 3969 0 0,
         Request 3943 (a + 24) 3943, Request 3944 (a + 24) 3944, Request 3945 (a + 24) 3945]"
  using utilizationTest_reports[OF assms] by (simp add: request_report_def)

theorem utilizationTest_bounds_witness:
  "\<exists>d d'. holds d 0x100068 [Block 0x100068 3968] [] \<and> utilizationTest d = Some d'
     \<and> Request 3968 0x100080 3968 \<in> set (shown d') \<and> Request 3969 0 0 \<in> set (shown d')"
proof (rule demo_tests)
  fix d
  assume d: "holds d 0x100068 [Block 0x100068 3968] []"
  then obtain d' nf' where "utilizationTest d = Some d'" "shown d' = shown d @ [Request 3967 (0x100068 + 24) 3967,
      Request 3968 (0x100068 + 24) 3968, Request 3969 0 0, Request 3943 (0x100068 + 24) 3943,
      Request 3944 (0x100068 + 24) 3944, Request 3945 (0x100068 + 24) 3945]"
    using utilizationTest_bounds[OF d] by blast
  then show ?thesis using d by (intro exI[of _ d] exI[of _ d']) simp
qed

end
