(* ===== verification/ForkTest.thy ===== *)
theory ForkTest
  imports HeapTestProps
begin

text \<open>
  The test with several processes: what the children allocate and store, what the parent frees, and that
  the outcome depends on the order in which the children reach the allocator.
\<close>

section \<open>The shared array of pointers\<close>

text \<open>The array is the payload of the block at \<open>b\<close>; \<open>cell b i\<close> is the address of its entry \<open>i\<close>.\<close>

definition cell :: "addr \<Rightarrow> nat \<Rightarrow> addr" where
  "cell b i = b + SIZEOF_NODE + 8 * of_nat i"

lemma cell_addr:
  assumes "block_ok (Block b 32)" "i < 4"
  shows "unat (cell b i) = unat b + 24 + 8 * i" "rng (cell b i) 8 \<subseteq> payload (Block b 32)"
proof -
  have b: "unat b + 56 \<le> 2 ^ 64" "0 < unat b" using assms(1) by (simp_all add: block_ok_def)
  have 8: "unat (8 * of_nat i :: addr) = 8 * i"
    using assms(2) by (simp add: unat_word_ariths unat_of_nat take_bit_eq_mod)
  have "unat (b + SIZEOF_NODE) = unat b + 24" using b by (subst unat_add_no_wrap) auto
  then show u: "unat (cell b i) = unat b + 24 + 8 * i"
    unfolding cell_def using b assms(2) 8 by (subst unat_add_no_wrap) auto
  show "rng (cell b i) 8 \<subseteq> payload (Block b 32)"
    using assms(2) by (auto simp: rng_def payload_def u)
qed

lemma cell_store:
  assumes h: "holds d nf xs vs" and b: "Block b 32 \<in> set vs" and i: "i < 4"
  obtains m where "store_u64 (mem (heap d)) (cell b i) v = Some m"
    "holds (d\<lparr>heap := (heap d)\<lparr>mem := m\<rparr>\<rparr>) nf xs vs" "load_u64 m (cell b i) = Some v"
    "\<And>j. j < 4 \<Longrightarrow> j \<noteq> i \<Longrightarrow> load_u64 m (cell b j) = load_u64 (mem (heap d)) (cell b j)"
proof -
  note inv = h[unfolded holds_def]
  have wf: "wf_memory (mem (heap d))" using inv by (auto simp: heap_inv_def free_store_def list_ok_def)
  note ap = allocated_apart(5,6)[OF inv holdsD(3)[OF h b]]
  have c: "rng (cell b j) 8 \<subseteq> payload (Block b 32)" "unat (cell b j) = unat b + 24 + 8 * j" if "j < 4" for j
    using cell_addr ap(1) that by auto
  have v: "valid (mem (heap d)) (cell b i) 8"
    using c(2)[OF i] i by (intro valid_sub[OF ap(2)]) auto
  obtain m where m: "store_u64 (mem (heap d)) (cell b i) v = Some m" "load_u64 m (cell b i) = Some v"
    "same_on (- rng (cell b i) 8) (mem (heap d)) m" by (rule store_u64_ok[OF wf v])
  have so: "same_on (- payload (Block b 32)) (mem (heap d)) m"
    by (rule same_on_mono[OF m(3)]) (use c(1)[OF i] in auto)
  have "heap_inv ((heap d)\<lparr>mem := m\<rparr>) nf xs (vs @ [mutex_block (heap d), list_block (heap d)])"
    by (rule payload_write_inv[OF inv holdsD(3)[OF h b] holdsD(1)[OF h b] so])
  moreover have "load_u64 m (cell b j) = load_u64 (mem (heap d)) (cell b j)" if "j < 4" "j \<noteq> i" for j
    using that by (intro load_u64_same_on[OF m(3) wf]) (auto simp: rng_def c(2) i)
  ultimately show thesis using that[of m] m by (simp add: holds_def list_block_def mutex_block_def)
qed

lemma cell_kept:
  assumes "kept us d d'" "Block b 32 \<in> set us" "block_ok (Block b 32)" "j < 4"
  shows "load_u64 (mem (heap d')) (cell b j) = load_u64 (mem (heap d)) (cell b j)"
  using assms(1,2) cell_addr(2)[OF assms(3,4)] unfolding kept_def by blast

section \<open>The children\<close>

lemma child_runs:
  assumes h: "holds d nf [Block a n] vs" and b: "Block b 32 \<in> set vs" and i: "i < 4"
    and k: "word_of_int (sizes ! i) = k" "24 + k < n" "k \<le> n" and st: "strategies ! i = strategy_code st"
  obtains d' where "child_run (b + SIZEOF_NODE) strategies sizes i d = Some d'"
    "holds d' (a + (24 + k)) [Block (a + (24 + k)) (n - (24 + k))] (Block a k # vs)"
    "load_u64 (mem (heap d')) (cell b i) = Some (a + 24)"
    "\<And>j. j < 4 \<Longrightarrow> j \<noteq> i \<Longrightarrow> load_u64 (mem (heap d')) (cell b j) = load_u64 (mem (heap d)) (cell b j)"
    "shown d' = shown d @ [Child i (sizes ! i) (Some (a + 24)) (Some (a + 24 - heapBlockHeader (heap d)))]"
    "heapBlockHeader (heap d') = heapBlockHeader (heap d)"
proof -
  obtain d1 where d1: "malloc_t k (strategy_code st) d = Some (a + 24, d1)"
    "holds d1 (a + (24 + k)) [Block (a + (24 + k)) (n - (24 + k))] (Block a k # vs)"
    "shown d1 = shown d" "kept vs d d1" "a + 24 \<noteq> 0" "heapBlockHeader (heap d1) = heapBlockHeader (heap d)"
    using malloc_only[OF h k(2,3)] by blast
  let ?rep = "Child i (sizes ! i) (Some (a + 24)) (Some (a + 24 - heapBlockHeader (heap d)))"
  have ok: "block_ok (Block b 32)" using holds_block_ok[OF h] b by simp
  obtain m where m: "store_u64 (mem (heap d1)) (cell b i) (a + 24) = Some m"
    "holds (d1\<lparr>heap := (heap d1)\<lparr>mem := m\<rparr>\<rparr>) (a + (24 + k)) [Block (a + (24 + k)) (n - (24 + k))] (Block a k # vs)"
    "load_u64 m (cell b i) = Some (a + 24)"
    "\<And>j. j < 4 \<Longrightarrow> j \<noteq> i \<Longrightarrow> load_u64 m (cell b j) = load_u64 (mem (heap d1)) (cell b j)"
    using cell_store[OF d1(2) _ i, of b "a + 24"] b by auto
  let ?d = "(print_item ?rep d1)\<lparr>heap := (heap d1)\<lparr>mem := m\<rparr>\<rparr>"
  have pr: "?d = print_item ?rep (d1\<lparr>heap := (heap d1)\<lparr>mem := m\<rparr>\<rparr>)" "heap (print_item ?rep d1) = heap d1"
    by (simp_all add: print_item_def)
  have "child_run (b + SIZEOF_NODE) strategies sizes i d = Some ?d"
    unfolding child_run_def k(1) st using d1(1,5,6) m(1)[unfolded cell_def]
    by (simp add: getHeapAddress_def pr(2) del: strategy_code.simps)
  moreover have "holds ?d (a + (24 + k)) [Block (a + (24 + k)) (n - (24 + k))] (Block a k # vs)"
    unfolding pr(1) holds_print by (rule m(2))
  moreover have "shown ?d = shown d @ [?rep]" unfolding pr(1) using d1(3) by simp
  ultimately show thesis using that[of ?d] m(3,4) d1(6) cell_kept[OF d1(4) b ok] by (simp add: pr(2))
qed

text \<open>Blocks one behind the other from \<open>a\<close> on, and the bytes they take.\<close>

fun chain :: "addr \<Rightarrow> size_t list \<Rightarrow> block list" where
  "chain a [] = []"
| "chain a (k # ks) = Block a k # chain (a + (24 + k)) ks"

fun span :: "size_t list \<Rightarrow> size_t" where
  "span [] = 0"
| "span (k # ks) = (24 + k) + span ks"

definition need :: "size_t list \<Rightarrow> nat" where
  "need ks = sum_list (map (\<lambda>k. 24 + unat k) ks)"

lemma need_simps [simp]: "need [] = 0" "need (k # ks) = 24 + unat k + need ks"
  by (simp_all add: need_def)

lemma length_chain [simp]: "length (chain a ks) = length ks"
  by (induction ks arbitrary: a) auto

lemma chain_append: "chain a (ks @ ls) = chain a ks @ chain (a + span ks) ls"
  by (induction ks arbitrary: a) (auto simp: algebra_simps)

lemma span_append [simp]: "span (ks @ ls) = span ks + span ls"
  by (induction ks) auto

lemma step_fits:
  assumes "need (k # ks) < unat n"
  shows "24 + k < n" "k \<le> n" "need ks < unat (n - (24 + k))"
proof -
  have u: "unat (24 + k) = 24 + unat k" using assms unat_lt64[of n] by (subst unat_add_no_wrap) auto
  then show "24 + k < n" "k \<le> n" using assms by (simp_all add: word_less_nat_alt word_le_nat_alt)
  then have "unat (n - (24 + k)) = unat n - (24 + unat k)" using u by (subst unat_sub_no_wrap) (auto simp: word_less_nat_alt)
  then show "need ks < unat (n - (24 + k))" using assms by simp
qed

definition child_sizes :: "int list \<Rightarrow> nat list \<Rightarrow> size_t list" where
  "child_sizes sizes is = map (\<lambda>i. word_of_int (sizes ! i)) is"

definition child_report :: "addr \<Rightarrow> int list \<Rightarrow> nat \<Rightarrow> block \<Rightarrow> report" where
  "child_report base sizes i b = Child i (sizes ! i) (Some (baddr b + 24)) (Some (baddr b + 24 - base))"

text \<open>The children \<open>is\<close> have got the blocks \<open>bs\<close>: their entries of the array, and what was printed.\<close>

definition served :: "int list \<Rightarrow> addr \<Rightarrow> nat list \<Rightarrow> block list \<Rightarrow> tests \<Rightarrow> tests \<Rightarrow> bool" where
  "served sizes b is bs d d' \<longleftrightarrow>
     (\<forall>p < length is. load_u64 (mem (heap d')) (cell b (is ! p)) = Some (baddr (bs ! p) + 24))
     \<and> (\<forall>j < 4. j \<notin> set is \<longrightarrow> load_u64 (mem (heap d')) (cell b j) = load_u64 (mem (heap d)) (cell b j))
     \<and> shown d' = shown d @ map2 (child_report (heapBlockHeader (heap d)) sizes) is bs
     \<and> heapBlockHeader (heap d') = heapBlockHeader (heap d)"

lemma served_Cons:
  assumes "load_u64 (mem (heap d1)) (cell b i) = Some (baddr c + 24)"
    and "\<And>j. j < 4 \<Longrightarrow> j \<noteq> i \<Longrightarrow> load_u64 (mem (heap d1)) (cell b j) = load_u64 (mem (heap d)) (cell b j)"
    and "shown d1 = shown d @ [child_report (heapBlockHeader (heap d)) sizes i c]"
    and "heapBlockHeader (heap d1) = heapBlockHeader (heap d)" "i < 4" "i \<notin> set is" "served sizes b is bs d1 d2"
  shows "served sizes b (i # is) (c # bs) d d2"
  unfolding served_def
proof (intro conjI allI impI)
  fix p assume "p < length (i # is)"
  then show "load_u64 (mem (heap d2)) (cell b ((i # is) ! p)) = Some (baddr ((c # bs) ! p) + 24)"
    using assms(1,5-7) by (cases p) (auto simp: served_def)
qed (use assms(2-7) in \<open>auto simp: served_def\<close>)

lemma children_run:
  assumes "holds d nf [Block a n] vs" "Block b 32 \<in> set vs" "distinct is" "set is \<subseteq> {..<4}"
    and "\<forall>i \<in> set is. strategies ! i \<in> range strategy_code" "ks = child_sizes sizes is" "need ks < unat n"
  shows "\<exists>d'. children (b + SIZEOF_NODE) strategies sizes is d = Some d'
    \<and> holds d' (if is = [] then nf else a + span ks) [Block (a + span ks) (n - span ks)] (rev (chain a ks) @ vs)
    \<and> served sizes b is (chain a ks) d d'"
  using assms
proof (induction "is" arbitrary: d nf a n vs ks)
  case Nil
  then show ?case by (simp add: child_sizes_def served_def)
next
  case (Cons i "is")
  define k where "k = (word_of_int (sizes ! i) :: size_t)"
  define ls where "ls = child_sizes sizes is"
  have cs: "ks = k # ls" using Cons.prems(6) by (simp add: child_sizes_def k_def ls_def)
  have f: "24 + k < n" "k \<le> n" "need ls < unat (n - (24 + k))"
    using step_fits[of k ls n] Cons.prems(7) unfolding cs by auto
  obtain st where st: "strategies ! i = strategy_code st" using Cons.prems(5) by auto
  have i: "i < 4" "i \<notin> set is" using Cons.prems(3,4) by auto
  obtain d1 where d1: "child_run (b + SIZEOF_NODE) strategies sizes i d = Some d1"
    "holds d1 (a + (24 + k)) [Block (a + (24 + k)) (n - (24 + k))] (Block a k # vs)"
    "load_u64 (mem (heap d1)) (cell b i) = Some (a + 24)"
    "\<And>j. j < 4 \<Longrightarrow> j \<noteq> i \<Longrightarrow> load_u64 (mem (heap d1)) (cell b j) = load_u64 (mem (heap d)) (cell b j)"
    "shown d1 = shown d @ [Child i (sizes ! i) (Some (a + 24)) (Some (a + 24 - heapBlockHeader (heap d)))]"
    "heapBlockHeader (heap d1) = heapBlockHeader (heap d)"
    using child_runs[OF Cons.prems(1,2) i(1) k_def[symmetric] f(1,2) st] by blast
  obtain d2 where d2: "children (b + SIZEOF_NODE) strategies sizes is d1 = Some d2"
    "holds d2 (if is = [] then a + (24 + k) else a + (24 + k) + span ls)
      [Block (a + (24 + k) + span ls) (n - (24 + k) - span ls)] (rev (chain (a + (24 + k)) ls) @ Block a k # vs)"
    "served sizes b is (chain (a + (24 + k)) ls) d1 d2"
    using Cons.IH[OF d1(2) _ _ _ _ ls_def f(3)] Cons.prems(2-5) by auto
  have e: "a + (24 + k) + span ls = a + span ks" "n - (24 + k) - span ls = n - span ks"
    "(if is = [] then a + (24 + k) else a + (24 + k) + span ls) = a + span ks"
    by (auto simp: cs ls_def child_sizes_def algebra_simps)
  have "served sizes b (i # is) (chain a ks) d d2"
    using served_Cons[of d1 b i "Block a k" d, OF _ d1(4) _ d1(6) i d2(3)] d1(3,5) by (simp add: cs child_report_def)
  moreover have "holds d2 (a + span ks) [Block (a + span ks) (n - span ks)] (rev (chain a ks) @ vs)"
    using d2(2)[unfolded e(3), unfolded e(1,2)] by (simp add: cs)
  ultimately show ?case using d1(1) d2(1) by simp
qed

section \<open>The frees of the parent\<close>

text \<open>The list of a chain of blocks that is freed from its start, the part before it being free already.\<close>

definition regained :: "addr \<Rightarrow> size_t \<Rightarrow> addr \<Rightarrow> size_t \<Rightarrow> size_t list \<Rightarrow> block list" where
  "regained a m e r ks = (if ks = [] then [Block a m, Block e r] else [Block a (m + span ks + (24 + r))])"

lemma insert_next:
  assumes h: "holds d nf [Block a m, Block e r] (chain (a + (24 + m)) (k # ks) @ vs)"
    and e: "e = a + (24 + m) + span (k # ks)"
  shows "\<exists>nf'. insert_free (Block (a + (24 + m)) k) nf [Block a m, Block e r]
    = Some (if ks = [] then [Block a (m + (24 + k) + (24 + r))] else [Block a (m + (24 + k)), Block e r], nf')"
proof -
  let ?x = "a + (24 + m)"
  have ok: "block_ok (Block a m)" "block_ok (Block ?x k)" using holds_block_ok[OF h] by auto
  have ad: "adjacent (Block a m) (Block ?x k)" by (simp add: adjacent_def)
  then have "unat ?x = unat a + unat m + 24" using adjacent_unat[OF ok] by simp
  then have x: "\<not> ?x < a" by (simp add: word_less_nat_alt)
  have meets: "adjacent (Block ?x k) (Block e r) \<longleftrightarrow> ks = []"
  proof (cases ks)
    case Nil
    then show ?thesis by (simp add: adjacent_def e algebra_simps)
  next
    case (Cons k' ks')
    have "distinct (map baddr ([Block a m, Block e r] @ chain ?x (k # ks) @ vs))" by (rule tile_distinct_fst[OF holds_tile[OF h]])
    then have "e \<noteq> ?x + (24 + k)" unfolding Cons by auto
    then show ?thesis using Cons by (auto simp: adjacent_def algebra_simps)
  qed
  have sc: "scan ?x [Block a m, Block e r] = ([Block a m], [Block e r])" using x by simp
  have mg: "merge (Block a m) (Block ?x k) = Block a (m + (24 + k))" "merge (Block ?x k) (Block e r) = Block ?x (k + (24 + r))"
    "merge (Block a m) (Block ?x (k + (24 + r))) = Block a (m + (24 + k) + (24 + r))"
    by (simp_all add: merge_def ac_simps)
  show ?thesis
    by (cases "ks = []") (simp_all add: insert_free_def join_def ad meets mg sc del: scan.simps)
qed

lemma free_chain:
  assumes "holds d nf [Block a m, Block e r] (chain (a + (24 + m)) ks @ vs)" "e = a + (24 + m) + span ks"
    and "Block b 32 \<in> set vs" "length is = length ks" "set is \<subseteq> {..<4}"
    and "\<forall>p < length is. load_u64 (mem (heap d)) (cell b (is ! p)) = Some (baddr (chain (a + (24 + m)) ks ! p) + 24)"
  shows "\<exists>d' nf'. free_pointers (b + SIZEOF_NODE) is d = Some d' \<and> holds d' nf' (regained a m e r ks) vs \<and> shown d' = shown d"
  using assms
proof (induction ks arbitrary: d nf m "is")
  case Nil
  then show ?case by (auto simp: regained_def)
next
  case (Cons k ks)
  let ?x = "a + (24 + m)"
  obtain i js where "is": "is = i # js" using Cons.prems(4) by (cases "is") auto
  have h: "holds d nf [Block a m, Block e r] (Block ?x k # chain (?x + (24 + k)) ks @ vs)" using Cons.prems(1) by simp
  have ld: "load_u64 (mem (heap d)) (b + SIZEOF_NODE + 8 * of_nat i) = Some (?x + 24)"
    using Cons.prems(6)[rule_format, of 0] by (simp add: "is" cell_def)
  obtain nf1 where i1: "insert_free (Block ?x k) nf [Block a m, Block e r]
    = Some (if ks = [] then [Block a (m + (24 + k) + (24 + r))] else [Block a (m + (24 + k)), Block e r], nf1)"
    using insert_next[OF Cons.prems(1,2)] by blast
  obtain d1 where d1: "free_t (?x + 24) d = Some (0, d1)"
    "holds d1 nf1 (if ks = [] then [Block a (m + (24 + k) + (24 + r))] else [Block a (m + (24 + k)), Block e r])
      (chain (?x + (24 + k)) ks @ vs)"
    "shown d1 = shown d" "kept (chain (?x + (24 + k)) ks @ vs) d d1"
    using free_holds[OF h _ i1] by auto
  have step: "free_pointers (b + SIZEOF_NODE) is d = free_pointers (b + SIZEOF_NODE) js d1"
    using ld d1(1) by (simp add: "is")
  show ?case
  proof (cases "ks = []")
    case True
    then have "js = []" using Cons.prems(4) "is" by simp
    then show ?thesis using step d1(2,3) True by (auto simp: regained_def)
  next
    case False
    have ok: "block_ok (Block b 32)" using holds_block_ok[OF h] Cons.prems(3) by simp
    have m: "a + (24 + (m + (24 + k))) = ?x + (24 + k)" by simp
    have ld': "load_u64 (mem (heap d1)) (cell b (js ! p)) = Some (baddr (chain (?x + (24 + k)) ks ! p) + 24)"
      if "p < length js" for p
    proof -
      have "js ! p \<in> set is" using that by (simp add: "is")
      then have "js ! p < 4" using Cons.prems(5) by auto
      then show ?thesis
        using cell_kept[OF d1(4) _ ok] Cons.prems(3) Cons.prems(6)[rule_format, of "Suc p"] that by (simp add: "is")
    qed
    obtain d2 nf2 where "free_pointers (b + SIZEOF_NODE) js d1 = Some d2"
      "holds d2 nf2 (regained a (m + (24 + k)) e r ks) vs" "shown d2 = shown d1"
      using Cons.IH[of d1 nf1 "m + (24 + k)" js] d1(2) Cons.prems(2-5) ld' False unfolding m by (auto simp: "is" add.assoc)
    then show ?thesis using step d1(3) False by (auto simp: regained_def add.assoc)
  qed
qed

text \<open>The first free of a chain, and the crash when a later one is freed out of order.\<close>

lemma chain_apart:
  assumes "holds d nf [Block e r] (chain x (k # k' # ks) @ vs)"
  shows "e \<noteq> x + (24 + k)"
proof -
  have "distinct (map baddr ([Block e r] @ chain x (k # k' # ks) @ vs))" by (rule tile_distinct_fst[OF holds_tile[OF assms]])
  then show ?thesis by auto
qed

lemma insert_first:
  assumes "holds d nf [Block e r] (chain x (k # k' # ks) @ vs)"
  shows "insert_free (Block x k) nf [Block e r] = Some ([Block x k, Block e r], nf)"
  using chain_apart[OF assms] by (auto simp: insert_free_def join_def adjacent_def ac_simps)

lemma span_need: "need ks < 2 ^ 64 \<Longrightarrow> unat (span ks) = need ks"
proof (induction ks)
  case (Cons k ks)
  then have "unat (24 + k) = 24 + unat k" by (subst unat_add_no_wrap) auto
  then show ?case using Cons by (simp, subst unat_add_no_wrap) auto
qed simp

lemma chain_above:
  assumes "block_ok (Block x n)" "need ks < unat n" "ks \<noteq> []"
  shows "x < x + span ks"
proof -
  have u: "unat (span ks) = need ks" by (rule span_need) (use assms(2) unat_lt64[of n] in simp)
  then have "span ks \<le> n" using assms(2) by (simp add: word_le_nat_alt)
  moreover have "0 < span ks" using u assms(3) by (cases ks) (simp_all add: word_less_nat_alt)
  ultimately show ?thesis using off_less[OF assms(1), of "span ks" 0] by simp
qed

section \<open>What is typed in\<close>

lemma strategy_range: "0 \<le> s \<Longrightarrow> s \<le> 3 \<Longrightarrow> s \<in> range strategy_code"
proof -
  assume "0 \<le> s" "s \<le> 3"
  then consider "s = strategy_code BEST_FIT" | "s = strategy_code WORST_FIT" | "s = strategy_code FIRST_FIT"
    | "s = strategy_code NEXT_FIT" by fastforce
  then show ?thesis by cases blast+
qed

lemma length_four: "length xs = 4 \<Longrightarrow> \<exists>a b c d. xs = [a, b, c, d]"
  by (auto simp: eval_nat_numeral length_Suc_conv)

lemma lessThan_4: "{..<4 :: nat} = {0, 1, 2, 3}"
  by auto

lemma read_four:
  assumes "length strategies = 4" "length sizes = 4" "\<forall>s \<in> {s0, s1, s2, s3}. 0 \<le> s \<and> s \<le> 3"
  shows "read_requests 0 strategies sizes ([s0, z0, s1, z1, s2, z2, s3, z3] @ rest)
    = Some ([s0, s1, s2, s3], [z0, z1, z2, z3], rest)"
  using length_four[OF assms(1)] length_four[OF assms(2)] assms(3)
  by (auto simp: read_requests.simps[of "_ :: nat"] numeral_nat)

section \<open>The outcome\<close>

text \<open>Up to the frees: the array of pointers, and the children in any order.\<close>

lemma forked:
  assumes h: "holds d nf [Block a n] []" and len: "length strategies = 4" "length sizes = 4"
    and s: "\<forall>s \<in> {s0, s1, s2, s3}. 0 \<le> s \<and> s \<le> 3" and pids: "\<forall>i. pids i \<noteq> -1"
    and order: "distinct order" "set order = {..<4}"
    and ks: "ks = child_sizes [z0, z1, z2, z3] order" "need (32 # ks) < unat n"
  obtains d' where "forkTest pids order strategies sizes ([s0, z0, s1, z1, s2, z2, s3, z3] @ rest) d = do {
      d \<leftarrow> dump_t d'; d \<leftarrow> free_pointers (a + 24) [0..<4] d; (_, d) \<leftarrow> free_t (a + 24) d; d \<leftarrow> dump_t d; Some (Inr (d, rest)) }"
    "holds d' (a + 56 + span ks) [Block (a + 56 + span ks) (n - 56 - span ks)] (chain (a + 56) ks @ [Block a 32])"
    "\<forall>p < 4. load_u64 (mem (heap d')) (cell a (order ! p)) = Some (baddr (chain (a + 56) ks ! p) + 24)"
    "shown d' = shown d @ map2 (child_report (heapBlockHeader (heap d)) [z0, z1, z2, z3]) order (chain (a + 56) ks)"
proof -
  have f: "56 < n" "32 \<le> n" "need ks < unat (n - 56)" using step_fits[OF ks(2)] by simp_all
  obtain d0 where d0: "dump_t d = Some d0" "holds d0 nf [Block a n] []" "shown d0 = shown d"
    "heapBlockHeader (heap d0) = heapBlockHeader (heap d)"
    using dump_holds[OF h] h by (metis holds_print print_item_def shown_print(2) tests.select_convs(1) tests.surjective tests.update_convs(2))
  obtain d1 where d1: "malloc_t 32 (strategy_code FIRST_FIT) d0 = Some (a + 24, d1)"
    "holds d1 (a + 56) [Block (a + 56) (n - 56)] [Block a 32]" "shown d1 = shown d0"
    "heapBlockHeader (heap d1) = heapBlockHeader (heap d0)"
    using malloc_only[OF d0(2), of 32 FIRST_FIT] f(1,2) by auto
  have st: "\<forall>i \<in> set order. [s0, s1, s2, s3] ! i \<in> range strategy_code"
    unfolding order(2) lessThan_4 using s[unfolded ball_simps] strategy_range by (simp add: numeral_2_eq_2 numeral_3_eq_3)
  have ne: "length order = 4" using distinct_card[OF order(1)] unfolding order(2) by simp
  then have "order \<noteq> []" by auto
  obtain d2 where d2: "children (a + 24) [s0, s1, s2, s3] [z0, z1, z2, z3] order d1 = Some d2"
    "holds d2 (a + 56 + span ks) [Block (a + 56 + span ks) (n - 56 - span ks)] (rev (chain (a + 56) ks) @ [Block a 32])"
    "served [z0, z1, z2, z3] a order (chain (a + 56) ks) d1 d2"
    using children_run[OF d1(2) _ order(1) _ st ks(1) f(3)] order(2) \<open>order \<noteq> []\<close> by auto
  have "forkTest pids order strategies sizes ([s0, z0, s1, z1, s2, z2, s3, z3] @ rest) d = do {
      d \<leftarrow> dump_t d2; d \<leftarrow> free_pointers (a + 24) [0..<4] d; (_, d) \<leftarrow> free_t (a + 24) d; d \<leftarrow> dump_t d; Some (Inr (d, rest)) }"
    unfolding forkTest_def read_four[OF len s] using d0(1) d1(1) d2(1) pids by (simp del: strategy_code.simps)
  moreover have "holds d2 (a + 56 + span ks) [Block (a + 56 + span ks) (n - 56 - span ks)] (chain (a + 56) ks @ [Block a 32])"
    by (rule holds_perm[OF _ d2(2)]) simp
  ultimately show thesis using that d2(3) d1(3,4) d0(3,4) ne by (simp add: served_def)
qed

lemma nth_four: "p < 4 \<Longrightarrow> [0, 1, 2, 3 :: nat] ! p = p" "p < 3 \<Longrightarrow> [1, 2, 3 :: nat] ! p = Suc p"
  by (auto simp: less_Suc_eq eval_nat_numeral)

text \<open>Blocks in the order of the array are freed from the front, and each free meets the one before.\<close>

lemma parent_frees:
  fixes ks :: "size_t list"
  assumes h: "holds d nf [Block e r] (chain x ks @ [Block a 32])" and x: "x = a + 56" "e = x + span ks"
    and ks: "ks = [k0, k1, k2, k3]"
    and ld: "\<And>p. p < 4 \<Longrightarrow> load_u64 (mem (heap d)) (cell a p) = Some (baddr (chain x ks ! p) + 24)"
  obtains d1 d2 nf' where "free_pointers (a + 24) [0..<4] d = Some d1" "free_t (a + 24) d1 = Some (0, d2)"
    "holds d2 nf' [Block a (56 + span ks + r)] []" "shown d2 = shown d"
proof -
  let ?js = "[1, 2, 3] :: nat list" and ?ls = "[k1, k2, k3]"
  have ok: "block_ok (Block a 32)" using holds_block_ok[OF h] by simp
  note h1 = h[unfolded ks]
  obtain d2 where d2: "free_t (x + 24) d = Some (0, d2)" "holds d2 nf [Block x k0, Block e r] (chain (x + (24 + k0)) ?ls @ [Block a 32])"
    "shown d2 = shown d" "kept (chain (x + (24 + k0)) ?ls @ [Block a 32]) d d2"
    using free_holds[OF h1 _ insert_first[OF h1]] by auto
  have ld2: "\<forall>p < length ?js. load_u64 (mem (heap d2)) (cell a (?js ! p)) = Some (baddr (chain (x + (24 + k0)) ?ls ! p) + 24)"
  proof (intro allI impI)
    fix p assume "p < length ?js"
    then have p: "p < 3" by simp
    show "load_u64 (mem (heap d2)) (cell a (?js ! p)) = Some (baddr (chain (x + (24 + k0)) ?ls ! p) + 24)"
      unfolding nth_four(2)[OF p] using cell_kept[OF d2(4) _ ok, of "Suc p"] ld[of "Suc p"] p by (simp add: ks)
  qed
  have e: "e = x + (24 + k0) + span ?ls" by (simp add: x(2) ks)
  obtain d3 nf3 where d3: "free_pointers (a + 24) ?js d2 = Some d3" "holds d3 nf3 (regained x k0 e r ?ls) [Block a 32]"
    "shown d3 = shown d2"
    using free_chain[OF d2(2) e _ _ _ ld2] by auto
  have rg: "regained x k0 e r ?ls = [Block x (span ks + r)]" by (simp add: regained_def ks)
  have i: "insert_free (Block a 32) nf3 [Block x (span ks + r)] = Some ([Block a (56 + span ks + r)], if nf3 = x then a else nf3)"
    by (simp add: insert_free_def join_def merge_def adjacent_def x(1))
  obtain d4 where d4: "free_t (a + 24) d3 = Some (0, d4)"
    "holds d4 (if nf3 = x then a else nf3) [Block a (56 + span ks + r)] []" "shown d4 = shown d3"
    using free_holds[OF d3(2)[unfolded rg] _ i] by auto
  have up: "[0..<4] = 0 # ?js" by (simp add: upt_rec numeral_nat)
  have "load_u64 (mem (heap d)) (a + 24) = Some (x + 24)" using ld[of 0] by (simp add: ks cell_def)
  then have "free_pointers (a + 24) [0..<4] d = Some d3" unfolding up using d2(1) d3(1) by simp
  then show thesis using that d4 d3(3) d2(3) by simp
qed

lemma forkTest_done:
  assumes h: "holds d nf [Block a n] []" and len: "length strategies = 4" "length sizes = 4"
    and s: "\<forall>s \<in> {s0, s1, s2, s3}. 0 \<le> s \<and> s \<le> 3" and pids: "\<forall>i. pids i \<noteq> -1"
    and ks: "ks = map word_of_int [z0, z1, z2, z3]" "need (32 # ks) < unat n"
  shows "\<exists>d' nf'. forkTest pids [0, 1, 2, 3] strategies sizes ([s0, z0, s1, z1, s2, z2, s3, z3] @ rest) d = Some (Inr (d', rest))
    \<and> holds d' nf' [Block a n] []
    \<and> shown d' = shown d @ map2 (child_report (heapBlockHeader (heap d)) [z0, z1, z2, z3]) [0, 1, 2, 3] (chain (a + 56) ks)"
proof -
  let ?x = "a + 56"
  have cs: "ks = child_sizes [z0, z1, z2, z3] [0, 1, 2, 3]" using ks(1) by (simp add: child_sizes_def)
  have or: "distinct [0, 1, 2, 3 :: nat]" "set [0, 1, 2, 3] = {..<4 :: nat}" by auto
  obtain d1 where d1: "forkTest pids [0, 1, 2, 3] strategies sizes ([s0, z0, s1, z1, s2, z2, s3, z3] @ rest) d = do {
      d \<leftarrow> dump_t d1; d \<leftarrow> free_pointers (a + 24) [0..<4] d; (_, d) \<leftarrow> free_t (a + 24) d; d \<leftarrow> dump_t d; Some (Inr (d, rest)) }"
    "holds d1 (?x + span ks) [Block (?x + span ks) (n - 56 - span ks)] (chain ?x ks @ [Block a 32])"
    "\<forall>p < 4. load_u64 (mem (heap d1)) (cell a ([0, 1, 2, 3] ! p)) = Some (baddr (chain ?x ks ! p) + 24)"
    "shown d1 = shown d @ map2 (child_report (heapBlockHeader (heap d)) [z0, z1, z2, z3]) [0, 1, 2, 3] (chain ?x ks)"
    by (rule forked[OF h len s pids or cs ks(2)])
  obtain ls where ls: "dump_t d1 = Some (print_item (Lines ls) d1)" by (rule dump_holds[OF d1(2)])
  let ?d1 = "print_item (Lines ls) d1"
  have h1: "holds ?d1 (?x + span ks) [Block (?x + span ks) (n - 56 - span ks)] (chain ?x ks @ [Block a 32])"
    using d1(2) by simp
  have ld: "load_u64 (mem (heap ?d1)) (cell a p) = Some (baddr (chain ?x ks ! p) + 24)" if "p < 4" for p
    using d1(3)[rule_format, OF that] nth_four(1)[OF that] by simp
  have k4: "ks = [word_of_int z0, word_of_int z1, word_of_int z2, word_of_int z3]" using ks(1) by simp
  obtain d2 d3 nf' where d3: "free_pointers (a + 24) [0..<4] ?d1 = Some d2" "free_t (a + 24) d2 = Some (0, d3)"
    "holds d3 nf' [Block a (56 + span ks + (n - 56 - span ks))] []" "shown d3 = shown ?d1"
    by (rule parent_frees[OF h1 refl refl k4 ld])
  have n: "56 + span ks + (n - 56 - span ks) = n" by simp
  obtain d4 where d4: "dump_t d3 = Some d4" "holds d4 nf' [Block a n] []" "shown d4 = shown d3"
    by (rule dump_then[OF d3(3)[unfolded n]])
  have "forkTest pids [0, 1, 2, 3] strategies sizes ([s0, z0, s1, z1, s2, z2, s3, z3] @ rest) d = Some (Inr (d4, rest))"
    unfolding d1(1) using ls d3(1,2) d4(1) by simp
  then show ?thesis using d4(2,3) d3(4) d1(4) by auto
qed

lemma fork_crashes:
  assumes h: "holds d nf [Block a n] []" and len: "length strategies = 4" "length sizes = 4"
    and s: "\<forall>s \<in> {s0, s1, s2, s3}. 0 \<le> s \<and> s \<le> 3" and pids: "\<forall>i. pids i \<noteq> -1"
    and fits: "need (32 # map word_of_int [z0, z1, z2, z3]) < unat n"
  shows "forkTest pids [0, 2, 1, 3] strategies sizes ([s0, z0, s1, z1, s2, z2, s3, z3] @ rest) d = None"
proof -
  define k where "k i = (word_of_int ([z0, z1, z2, z3] ! i) :: size_t)" for i
  let ?x = "a + 56" and ?ks = "[k 0, k 2, k 1, k 3]"
  let ?b1 = "Block (?x + (24 + k 0) + (24 + k 2)) (k 1)" and ?e = "?x + span ?ks"
  have ks: "?ks = child_sizes [z0, z1, z2, z3] [0, 2, 1, 3]" by (simp add: child_sizes_def k_def)
  have nd: "need (32 # ?ks) < unat n" using fits by (simp add: k_def)
  have or: "distinct [0, 2, 1, 3 :: nat]" "set [0, 2, 1, 3] = {..<4 :: nat}" by auto
  obtain d1 where d1: "forkTest pids [0, 2, 1, 3] strategies sizes ([s0, z0, s1, z1, s2, z2, s3, z3] @ rest) d = do {
      d \<leftarrow> dump_t d1; d \<leftarrow> free_pointers (a + 24) [0..<4] d; (_, d) \<leftarrow> free_t (a + 24) d; d \<leftarrow> dump_t d; Some (Inr (d, rest)) }"
    "holds d1 ?e [Block ?e (n - 56 - span ?ks)] (chain ?x ?ks @ [Block a 32])"
    "\<forall>p < 4. load_u64 (mem (heap d1)) (cell a ([0, 2, 1, 3] ! p)) = Some (baddr (chain ?x ?ks ! p) + 24)"
    by (rule forked[OF h len s pids or ks nd])
  obtain ls where ls: "dump_t d1 = Some (print_item (Lines ls) d1)" by (rule dump_holds[OF d1(2)])
  let ?d1 = "print_item (Lines ls) d1"
  have h1: "holds ?d1 ?e [Block ?e (n - 56 - span ?ks)] (chain ?x ?ks @ [Block a 32])" using d1(2) by simp
  have ok: "block_ok (Block a 32)" using holds_block_ok[OF h1] by simp
  have ld: "load_u64 (mem (heap ?d1)) (a + 24) = Some (?x + 24)" "load_u64 (mem (heap ?d1)) (cell a 1) = Some (baddr ?b1 + 24)"
    using d1(3)[rule_format, of 0] d1(3)[rule_format, of 2] by (simp_all add: cell_def)
  obtain d2 where d2: "free_t (?x + 24) ?d1 = Some (0, d2)"
    "holds d2 ?e [Block ?x (k 0), Block ?e (n - 56 - span ?ks)] (chain (?x + (24 + k 0)) [k 2, k 1, k 3] @ [Block a 32])"
    "kept (chain (?x + (24 + k 0)) [k 2, k 1, k 3] @ [Block a 32]) ?d1 d2"
    using free_holds[OF h1 _ insert_first[OF h1]] by auto
  have ld2: "load_u64 (mem (heap d2)) (a + 24 + 8 * of_nat 1) = Some (baddr ?b1 + 24)"
    using cell_kept[OF d2(3) _ ok, of 1] ld(2) by (simp add: cell_def)
  have ds: "distinct (map baddr ([Block ?x (k 0), Block ?e (n - 56 - span ?ks)] @ chain (?x + (24 + k 0)) [k 2, k 1, k 3] @ [Block a 32]))"
    by (rule tile_distinct_fst[OF holds_tile[OF d2(2)]])
  have "block_ok (Block ?x (n - 56))"
    using extent_split(4)[of a n 32] holds_block_ok[OF h] step_fits[OF nd] by (simp add: algebra_simps)
  then have "?x < ?x + span [k 0, k 2]" using step_fits(3)[OF nd] by (intro chain_above[of ?x "n - 56"]) auto
  then have "\<not> baddr ?b1 < ?x" by (simp add: add.assoc)
  moreover have "\<not> adjacent (Block ?x (k 0)) ?b1" "\<not> adjacent ?b1 (Block ?e (n - 56 - span ?ks))"
    using ds by (auto simp: adjacent_def add.assoc)
  ultimately have "insert_free ?b1 ?e [Block ?x (k 0), Block ?e (n - 56 - span ?ks)] = None"
    by (simp add: insert_free_def)
  then have "free_t (baddr ?b1 + 24) d2 = None" by (intro free_crash[OF d2(2)]) simp_all
  moreover have up: "[0..<4] = [0, 1, 2, 3 :: nat]" by (simp add: upt_rec numeral_nat)
  ultimately have "free_pointers (a + 24) [0..<4] ?d1 = None" unfolding up using ld(1) d2(1) ld2 by simp
  then show ?thesis unfolding d1(1) using ls by simp
qed

text \<open>When the children reach the allocator in the order of their numbers, the test of several processes
  succeeds, whatever their strategies: the blocks lie one behind the other, the parent frees them and
  the array, and the heap is again the one free block.\<close>

theorem forkTest_in_order:
  assumes "holds d nf [Block a n] []" "length strategies = 4" "length sizes = 4"
    and "\<forall>s \<in> {s0, s1, s2, s3}. 0 \<le> s \<and> s \<le> 3" "\<forall>i. pids i \<noteq> -1"
    and "ks = map word_of_int [z0, z1, z2, z3]" "need (32 # ks) < unat n"
  shows "\<exists>d' nf'. forkTest pids [0, 1, 2, 3] strategies sizes ([s0, z0, s1, z1, s2, z2, s3, z3] @ rest) d = Some (Inr (d', rest))
    \<and> holds d' nf' [Block a n] []
    \<and> shown d' = shown d @ map2 (child_report (heapBlockHeader (heap d)) [z0, z1, z2, z3]) [0, 1, 2, 3] (chain (a + 56) ks)"
  by (rule forkTest_done[OF assms])

theorem forkTest_in_order_witness:
  "\<exists>d d' nf'. holds d 0x100068 [Block 0x100068 3968] []
     \<and> forkTest (\<lambda>_. 7) [0, 1, 2, 3] [0, 0, 0, 0] [0, 0, 0, 0] [0, 10, 1, 20, 2, 30, 3, 40] d = Some (Inr (d', []))
     \<and> holds d' nf' [Block 0x100068 3968] []"
proof (rule demo_tests)
  fix d
  assume d: "holds d 0x100068 [Block 0x100068 3968] []"
  have "\<exists>d' nf'. forkTest (\<lambda>_. 7) [0, 1, 2, 3] [0, 0, 0, 0] [0, 0, 0, 0] ([0, 10, 1, 20, 2, 30, 3, 40] @ []) d = Some (Inr (d', []))
    \<and> holds d' nf' [Block 0x100068 3968] []
    \<and> shown d' = shown d @ map2 (child_report (heapBlockHeader (heap d)) [10, 20, 30, 40]) [0, 1, 2, 3] (chain (0x100068 + 56) [10, 20, 30, 40])"
    by (rule forkTest_in_order[OF d]) simp_all
  then show ?thesis using d by auto
qed

text \<open>The same test crashes when the third child reaches the allocator before the second: the parent frees the
  first block, and then one between two free blocks that it touches on neither side, behind which
  the roving pointer is; \<^verbatim>\<open>MyFree\<close> follows the null pointer, whatever the strategies and the sizes.\<close>

theorem forkTest_order_crash:
  assumes "holds d nf [Block a n] []" "length strategies = 4" "length sizes = 4"
    and "\<forall>s \<in> {s0, s1, s2, s3}. 0 \<le> s \<and> s \<le> 3" "\<forall>i. pids i \<noteq> -1"
    and "need (32 # map word_of_int [z0, z1, z2, z3]) < unat n"
  shows "forkTest pids [0, 2, 1, 3] strategies sizes ([s0, z0, s1, z1, s2, z2, s3, z3] @ rest) d = None"
  by (rule fork_crashes[OF assms])

theorem forkTest_order_crash_witness:
  "\<exists>d. holds d 0x100068 [Block 0x100068 3968] []
     \<and> forkTest (\<lambda>_. 7) [0, 2, 1, 3] [0, 0, 0, 0] [0, 0, 0, 0] [2, 8, 2, 8, 2, 8, 2, 8] d = None"
proof (rule demo_tests)
  fix d
  assume d: "holds d 0x100068 [Block 0x100068 3968] []"
  have "forkTest (\<lambda>_. 7) [0, 2, 1, 3] [0, 0, 0, 0] [0, 0, 0, 0] ([2, 8, 2, 8, 2, 8, 2, 8] @ []) d = None"
    by (rule forkTest_order_crash[OF d]) simp_all
  then show ?thesis using d by auto
qed

text \<open>An invalid strategy at the first question makes the program write before its array of sizes; at a later
  one, the size typed with it replaces the size of the child before.\<close>

theorem invalid_strategy_misplaces_size:
  assumes "v < 0 \<or> 3 < v" "length strategies = 4" "length sizes = 4" "\<forall>s \<in> {s0, s1, s2, s3}. 0 \<le> s \<and> s \<le> 3"
  shows "forkTest pids order strategies sizes (v # z # typed) d = None
    \<and> read_requests 0 strategies sizes ([s0, z0, v, z, s1, z1, s2, z2, s3, z3] @ rest)
      = Some ([s0, s1, s2, s3], [z, z1, z2, z3], rest)"
proof -
  obtain a0 a1 a2 a3 where "strategies = [a0, a1, a2, a3]" using length_four[OF assms(2)] by blast
  moreover obtain b0 b1 b2 b3 where "sizes = [b0, b1, b2, b3]" using length_four[OF assms(3)] by blast
  moreover have "\<not> (s < 0 \<or> 3 < s)" if "s \<in> {s0, s1, s2, s3}" for s using that assms(4) by auto
  ultimately show ?thesis using assms(1) by (simp add: forkTest_def numeral_nat)
qed

theorem invalid_strategy_misplaces_size_witness:
  "forkTest (\<lambda>_. 7) [0, 1, 2, 3] [0, 0, 0, 0] [0, 0, 0, 0] (9 # 10 # [1, 20]) d = None"
  using invalid_strategy_misplaces_size[of 9 "[0, 0, 0, 0]" "[0, 0, 0, 0]" 0 0 0 0 "\<lambda>_. 7" "[0, 1, 2, 3]" 10 "[1, 20]" d] by simp

end
