(* ===== verification/TestProgram.thy ===== *)
theory TestProgram
  imports ForkTest
begin

text \<open>
  The whole test program of the allocator: from the initialisation of a heap of one page through all tests,
  with the children in order and out of order.
\<close>

section \<open>Invalid pointers\<close>

lemma free_twice:
  assumes "holds d nf xs vs" "b \<in> set vs" "free_t (baddr b + SIZEOF_NODE) d = Some (r, d1)" "heap d2 = heap d1"
    and "holds d1 nf' ys us"
  obtains d3 where "free_t (baddr b + SIZEOF_NODE) d2 = Some (-1, d3)" "holds d3 nf' ys us" "shown d3 = shown d2"
proof -
  note h = holdsD[OF assms(1,2)]
  obtain s where s: "MyFree (baddr b + SIZEOF_NODE) (heap d) = Some (r, s)" "heap d1 = s"
    using assms(3) by (auto simp: free_t_def bind_Some_iff)
  have "MyFree (baddr b + SIZEOF_NODE) s = Some (-1, say ''Invalid pointer'' s)"
    by (rule double_free_refused[OF assms(1)[unfolded holds_def] _ s(1)]) (use h in simp)
  then have "free_t (baddr b + SIZEOF_NODE) d2 = Some (-1, d2\<lparr>heap := say ''Invalid pointer'' s\<rparr>)"
    using assms(4) s(2) by (simp add: free_t_def)
  moreover have "holds (d2\<lparr>heap := say ''Invalid pointer'' s\<rparr>) nf' ys us"
    using assms(5) s(2) by (simp add: holds_def heap_inv_say) (simp add: say_def list_block_def mutex_block_def)
  ultimately show thesis using that by simp
qed

text \<open>The first two frees of the test: the second one is refused. What the third one does depends on the bytes
  that lie where it expects a header.\<close>

lemma invalidPointerTest_frees:
  assumes "holds d nf [Block a n] vs" "10 \<le> n"
  shows "\<exists>d' nf'. invalidPointerTest d = do { (r, d) \<leftarrow> free_t (a + 34) d'; dump_t (print_item (Returned r) d) }
    \<and> holds d' nf' [Block a n] vs \<and> shown d' = shown d @ [Ptr (a + 24), Returned 0, Returned (-1)]"
proof -
  let ?b = "granted (Block a n) 10"
  obtain d1 nf1 xs1 nf2 where d1: "malloc_t 10 (strategy_code FIRST_FIT) d = Some (a + 24, d1)" "shown d1 = shown d"
    "holds d1 nf1 xs1 (?b # vs)" "insert_free ?b nf1 xs1 = Some ([Block a n], nf2)"
    using malloc_free_only[OF assms, of FIRST_FIT] by metis
  have p1: "holds (print_item (Ptr (a + 24)) d1) nf1 xs1 (?b # vs)" using d1(3) by simp
  obtain l1 where l1: "dump_t (print_item (Ptr (a + 24)) d1) = Some (print_item (Lines l1) (print_item (Ptr (a + 24)) d1))"
    by (rule dump_holds[OF p1])
  let ?d1 = "print_item (Lines l1) (print_item (Ptr (a + 24)) d1)"
  have h1: "holds ?d1 nf1 xs1 (?b # vs)" using p1 by simp
  obtain d2 where d2: "free_t (a + 24) ?d1 = Some (0, d2)" "holds d2 nf2 [Block a n] vs" "shown d2 = shown ?d1"
    using free_holds[OF h1 _ d1(4)] by auto
  have p2: "holds (print_item (Returned 0) d2) nf2 [Block a n] vs" using d2(2) by simp
  obtain l2 where l2: "dump_t (print_item (Returned 0) d2) = Some (print_item (Lines l2) (print_item (Returned 0) d2))"
    by (rule dump_holds[OF p2])
  let ?d2 = "print_item (Lines l2) (print_item (Returned 0) d2)"
  obtain d3 where d3: "free_t (a + 24) ?d2 = Some (-1, d3)" "holds d3 nf2 [Block a n] vs" "shown d3 = shown ?d2"
    using free_twice[OF h1 _ _ _ d2(2), of ?b 0 ?d2] d2(1) by auto
  have p3: "holds (print_item (Returned (-1)) d3) nf2 [Block a n] vs" using d3(2) by simp
  obtain d4 where d4: "dump_t (print_item (Returned (-1)) d3) = Some d4" "holds d4 nf2 [Block a n] vs"
    "shown d4 = shown (print_item (Returned (-1)) d3)" by (rule dump_then[OF p3])
  have "invalidPointerTest d = do { (r, d) \<leftarrow> free_t (a + 34) d4; dump_t (print_item (Returned r) d) }"
    unfolding invalidPointerTest_def using d1(1) l1 d2(1) l2 d3(1) d4(1) by (simp add: add.commute[of 34 a] del: strategy_code.simps)
  then show ?thesis using d4(2,3) d3(3) d2(3) d1(2) by auto
qed

section \<open>The program up to the test of several processes\<close>

text \<open>The base of the heap never moves.\<close>

lemma malloc_base: "malloc_t n k d = Some (p, d') \<Longrightarrow> heapBlockHeader (heap d') = heapBlockHeader (heap d)"
  by (auto simp: malloc_t_def MyMalloc_def pthread_mutex_lock_def pthread_mutex_unlock_def say_def bind_Some_iff split: if_splits)

lemma free_base: "free_t p d = Some (r, d') \<Longrightarrow> heapBlockHeader (heap d') = heapBlockHeader (heap d)"
  by (auto simp: free_t_def MyFree_def pthread_mutex_lock_def pthread_mutex_unlock_def say_def bind_Some_iff Let_def split: if_splits)

lemma dump_base: "dump_t d = Some d' \<Longrightarrow> heapBlockHeader (heap d') = heapBlockHeader (heap d)"
  by (auto simp: dump_t_def DumpFreeList_def pthread_mutex_lock_def pthread_mutex_unlock_def say_def bind_Some_iff Let_def print_item_def
      split: if_splits)

lemmas base_rules = malloc_base free_base dump_base

lemma singleStrategyTest_base: "singleStrategyTest k d = Some d' \<Longrightarrow> heapBlockHeader (heap d') = heapBlockHeader (heap d)"
  by (auto simp: singleStrategyTest_def bind_Some_iff dest!: base_rules)

lemma testStrategies_base: "testStrategies d = Some d' \<Longrightarrow> heapBlockHeader (heap d') = heapBlockHeader (heap d)"
  by (auto simp: testStrategies_def bind_Some_iff dest!: singleStrategyTest_base)

lemma utilization_rounds_base: "utilization_rounds ns d = Some d' \<Longrightarrow> heapBlockHeader (heap d') = heapBlockHeader (heap d)"
  by (induction ns arbitrary: d) (auto simp: utilization_round_def bind_Some_iff dest!: base_rules)

lemma utilizationTest_base: "utilizationTest d = Some d' \<Longrightarrow> heapBlockHeader (heap d') = heapBlockHeader (heap d)"
  by (auto simp: utilizationTest_def bind_Some_iff dest!: dump_base utilization_rounds_base simp del: utilization_rounds.simps)

text \<open>Where the program starts: a machine with pages of 4096 bytes that can map one at \<open>base\<close>.\<close>

definition ready :: "os \<Rightarrow> addr \<Rightarrow> addr \<Rightarrow> tests \<Rightarrow> bool" where
  "ready w stk base d \<longleftrightarrow> page_size w = 4096 \<and> mmap w 4096 = Some base \<and> heapBlockHeader (heap d) = 0
     \<and> wf_memory (mem (heap d)) \<and> valid (mem (heap d)) stk 16 \<and> fresh_region (mem (heap d)) base 4096"

text \<open>What it prints before the children start.\<close>

definition first_reports :: "addr \<Rightarrow> report list" where
  "first_reports a = Returned 0 # concat (map (\<lambda>st. strategy_pointers st a) [FIRST_FIT, NEXT_FIT, BEST_FIT, WORST_FIT])
     @ [Request 3967 (a + 24) 3967, Request 3968 (a + 24) 3968, Request 3969 0 0,
        Request 3943 (a + 24) 3943, Request 3944 (a + 24) 3944, Request 3945 (a + 24) 3945]"

lemma started:
  assumes "ready w stk base d"
  obtains s where "InitMyMalloc w stk 4096 (heap d) = Some (0, s)" "heapBlockHeader s = base"
    "holds (d\<lparr>heap := s\<rparr>) (base + 104) [Block (base + 104) 3968] []"
proof -
  note r = assms[unfolded ready_def]
  obtain s where s: "InitMyMalloc w stk 4096 (heap d) = Some (0, s)" "heapBlockHeader s = base"
    "heap_inv s (base + 104) [Block (base + 104) 3968] [Block (base + 40) 40, Block base 16]"
    using InitMyMalloc_ok[of "heap d" 4096 w 4096 base stk] r by (auto simp: INT_MAX_def round_heap_size_def)
  have "list_block s \<in> {Block (base + 40) 40, Block base 16}" "mutex_block s \<in> {Block (base + 40) 40, Block base 16}"
    using s(3) by (auto simp: heap_inv_def)
  then have "list_block s = Block base 16" "mutex_block s = Block (base + 40) 40"
    by (auto simp: list_block_def mutex_block_def)
  then show thesis using that s by (simp add: holds_def)
qed

lemma before_children:
  assumes "ready w stk base d"
  obtains d' nf where "conductTests w stk pids order strategies sizes typed d = do {
      out \<leftarrow> forkTest pids order strategies sizes typed d';
      case out of
        Inl msg \<Rightarrow> Some (Inl msg)
      | Inr (d, typed) \<Rightarrow> do {
          d \<leftarrow> invalidPointerTest d;
          (ptr, d) \<leftarrow> malloc_t 1 (strategy_code FIRST_FIT) (d\<lparr>heap := unInitMyMalloc (heap d)\<rparr>);
          Some (Inr (print_item (Ptr ptr) d)) } }"
    "holds d' nf [Block (base + 104) 3968] []" "shown d' = shown d @ first_reports (base + 104)"
    "heapBlockHeader (heap d') = base"
proof -
  let ?a = "base + 104"
  obtain s where s: "InitMyMalloc w stk 4096 (heap d) = Some (0, s)" "heapBlockHeader s = base"
    "holds (d\<lparr>heap := s\<rparr>) ?a [Block ?a 3968] []"
    by (rule started[OF assms])
  let ?d = "print_item (Returned 0) (d\<lparr>heap := s\<rparr>)"
  have h: "holds ?d ?a [Block ?a 3968] []" using s(3) by simp
  obtain d1 nf1 where d1: "testStrategies ?d = Some d1" "holds d1 nf1 [Block ?a 3968] []"
    "shown d1 = shown ?d @ concat (map (\<lambda>st. strategy_pointers st ?a) [FIRST_FIT, NEXT_FIT, BEST_FIT, WORST_FIT])"
    by (rule testStrategies_restores[OF h]) simp_all
  obtain d2 nf2 where d2: "utilizationTest d1 = Some d2" "holds d2 nf2 [Block ?a 3968] []"
    "shown d2 = shown d1 @ map (request_report ?a 3968) [3967, 3968, 3969, 3943, 3944, 3945]"
    using utilizationTest_reports[OF d1(2)] by blast
  have "shown d2 = shown d @ first_reports ?a"
    using d2(3) d1(3) by (simp add: first_reports_def request_report_def)
  moreover have "heapBlockHeader (heap d2) = base"
    using testStrategies_base[OF d1(1)] utilizationTest_base[OF d2(1)] s(2) by simp
  ultimately show thesis using that[OF _ d2(2)] s(1) d1(1) d2(1) by (simp add: conductTests_def del: strategy_code.simps)
qed

text \<open>C14. The whole test program, with the children in order: every call up to the last one of the test of
  invalid pointers succeeds, with the same pointers in every run; the second free of a pointer is
  refused; and only that last free, of a pointer into a block, is decided by the bytes it finds. After
  the heap is given back, an allocation returns \<^verbatim>\<open>NULL\<close>.\<close>

theorem conductTests_in_order:
  assumes r: "ready w stk base d" and len: "length strategies = 4" "length sizes = 4"
    and s: "\<forall>s \<in> {s0, s1, s2, s3}. 0 \<le> s \<and> s \<le> 3" and pids: "\<forall>i. pids i \<noteq> -1"
    and ks: "ks = map word_of_int [z0, z1, z2, z3]" "need (32 # ks) < 3968"
  shows "\<exists>d' nf. conductTests w stk pids [0, 1, 2, 3] strategies sizes ([s0, z0, s1, z1, s2, z2, s3, z3] @ rest) d = do {
        (r, d) \<leftarrow> free_t (base + 138) d'; d \<leftarrow> dump_t (print_item (Returned r) d);
        (ptr, d) \<leftarrow> malloc_t 1 (strategy_code FIRST_FIT) (d\<lparr>heap := unInitMyMalloc (heap d)\<rparr>);
        Some (Inr (print_item (Ptr ptr) d)) }
    \<and> holds d' nf [Block (base + 104) 3968] []
    \<and> shown d' = shown d @ first_reports (base + 104) @ map2 (child_report base [z0, z1, z2, z3]) [0, 1, 2, 3] (chain (base + 160) ks)
         @ [Ptr (base + 128), Returned 0, Returned (-1)]
    \<and> (\<forall>k. malloc_t k (strategy_code FIRST_FIT) (d'\<lparr>heap := unInitMyMalloc (heap d')\<rparr>)
         = Some (0, d'\<lparr>heap := say ''Heap is not initialized'' (unInitMyMalloc (heap d'))\<rparr>))"
proof -
  obtain d1 nf1 where d1: "conductTests w stk pids [0, 1, 2, 3] strategies sizes ([s0, z0, s1, z1, s2, z2, s3, z3] @ rest) d = do {
      out \<leftarrow> forkTest pids [0, 1, 2, 3] strategies sizes ([s0, z0, s1, z1, s2, z2, s3, z3] @ rest) d1;
      case out of
        Inl msg \<Rightarrow> Some (Inl msg)
      | Inr (d, typed) \<Rightarrow> do {
          d \<leftarrow> invalidPointerTest d;
          (ptr, d) \<leftarrow> malloc_t 1 (strategy_code FIRST_FIT) (d\<lparr>heap := unInitMyMalloc (heap d)\<rparr>);
          Some (Inr (print_item (Ptr ptr) d)) } }"
    "holds d1 nf1 [Block (base + 104) 3968] []" "shown d1 = shown d @ first_reports (base + 104)"
    "heapBlockHeader (heap d1) = base" by (rule before_children[OF r])
  have "need (32 # ks) < unat (3968 :: size_t)" using ks(2) by simp
  then obtain d2 nf2 where d2: "forkTest pids [0, 1, 2, 3] strategies sizes ([s0, z0, s1, z1, s2, z2, s3, z3] @ rest) d1 = Some (Inr (d2, rest))"
    "holds d2 nf2 [Block (base + 104) 3968] []"
    "shown d2 = shown d1 @ map2 (child_report (heapBlockHeader (heap d1)) [z0, z1, z2, z3]) [0, 1, 2, 3] (chain (base + 104 + 56) ks)"
    using forkTest_done[OF d1(2) len s pids ks(1), of rest] by blast
  obtain d3 nf3 where d3: "invalidPointerTest d2 = do { (r, d) \<leftarrow> free_t (base + 104 + 34) d3; dump_t (print_item (Returned r) d) }"
    "holds d3 nf3 [Block (base + 104) 3968] []" "shown d3 = shown d2 @ [Ptr (base + 104 + 24), Returned 0, Returned (-1)]"
    using invalidPointerTest_frees[OF d2(2)] by auto
  have run: "conductTests w stk pids [0, 1, 2, 3] strategies sizes ([s0, z0, s1, z1, s2, z2, s3, z3] @ rest) d = do {
      (r, d) \<leftarrow> free_t (base + 138) d3; d \<leftarrow> dump_t (print_item (Returned r) d);
      (ptr, d) \<leftarrow> malloc_t 1 (strategy_code FIRST_FIT) (d\<lparr>heap := unInitMyMalloc (heap d)\<rparr>);
      Some (Inr (print_item (Ptr ptr) d)) }"
    unfolding d1(1) using d2(1) d3(1) by (simp add: case_prod_unfold add.commute[of 138 base] del: strategy_code.simps)
  have un: "malloc_t k (strategy_code FIRST_FIT) (d3\<lparr>heap := unInitMyMalloc (heap d3)\<rparr>)
      = Some (0, d3\<lparr>heap := say ''Heap is not initialized'' (unInitMyMalloc (heap d3))\<rparr>)" for k
    using d3(2) by (simp add: malloc_t_def MyMalloc_def unInitMyMalloc_def holds_def heap_inv_def)
  have "shown d3 = shown d @ first_reports (base + 104) @ map2 (child_report base [z0, z1, z2, z3]) [0, 1, 2, 3] (chain (base + 160) ks)
      @ [Ptr (base + 128), Returned 0, Returned (-1)]"
    using d3(3) d2(3) d1(3,4) by (simp add: add.commute[of 160 base] add.commute[of 128 base])
  then show ?thesis using run d3(2) un by blast
qed


lemma demo_ready: "ready linux 0x7000 0x100000 \<lparr>heap = boot_state, printed = []\<rparr>"
  using boot_facts by (simp add: ready_def linux_def)


theorem conductTests_in_order_witness:
  "\<exists>d'. conductTests linux 0x7000 (\<lambda>_. 7) [0, 1, 2, 3] [0, 0, 0, 0] [0, 0, 0, 0] [0, 10, 1, 20, 2, 30, 3, 40]
       \<lparr>heap = boot_state, printed = []\<rparr> = do {
         (r, d) \<leftarrow> free_t 0x10008a d'; d \<leftarrow> dump_t (print_item (Returned r) d);
         (ptr, d) \<leftarrow> malloc_t 1 (strategy_code FIRST_FIT) (d\<lparr>heap := unInitMyMalloc (heap d)\<rparr>);
         Some (Inr (print_item (Ptr ptr) d)) }
     \<and> Returned (-1) \<in> set (shown d') \<and> Ptr 0x100080 \<in> set (shown d')"
proof -
  let ?d = "\<lparr>heap = boot_state, printed = []\<rparr>" and ?run = "\<lambda>d'. do {
         (r, d) \<leftarrow> free_t (0x100000 + 138) d'; d \<leftarrow> dump_t (print_item (Returned r) d);
         (ptr, d) \<leftarrow> malloc_t 1 (strategy_code FIRST_FIT) (d\<lparr>heap := unInitMyMalloc (heap d)\<rparr>);
         Some (Inr (print_item (Ptr ptr) d)) }"
  have "\<exists>d' nf. conductTests linux 0x7000 (\<lambda>_. 7) [0, 1, 2, 3] [0, 0, 0, 0] [0, 0, 0, 0] ([0, 10, 1, 20, 2, 30, 3, 40] @ []) ?d = ?run d'
    \<and> holds d' nf [Block (0x100000 + 104) 3968] []
    \<and> shown d' = shown ?d @ first_reports (0x100000 + 104)
         @ map2 (child_report 0x100000 [10, 20, 30, 40]) [0, 1, 2, 3] (chain (0x100000 + 160) [10, 20, 30, 40])
         @ [Ptr (0x100000 + 128), Returned 0, Returned (-1)]
    \<and> (\<forall>k. malloc_t k (strategy_code FIRST_FIT) (d'\<lparr>heap := unInitMyMalloc (heap d')\<rparr>)
         = Some (0, d'\<lparr>heap := say ''Heap is not initialized'' (unInitMyMalloc (heap d'))\<rparr>))"
    by (rule conductTests_in_order[OF demo_ready]) simp_all
  then obtain d' where d': "conductTests linux 0x7000 (\<lambda>_. 7) [0, 1, 2, 3] [0, 0, 0, 0] [0, 0, 0, 0] ([0, 10, 1, 20, 2, 30, 3, 40] @ []) ?d = ?run d'"
    "shown d' = shown ?d @ first_reports (0x100000 + 104)
         @ map2 (child_report 0x100000 [10, 20, 30, 40]) [0, 1, 2, 3] (chain (0x100000 + 160) [10, 20, 30, 40])
         @ [Ptr (0x100000 + 128), Returned 0, Returned (-1)]" by blast
  have "Returned (-1) \<in> set (shown d')" "Ptr 0x100080 \<in> set (shown d')" unfolding d'(2) by simp_all
  then show ?thesis using d'(1) by (intro exI[of _ d']) simp
qed

end
