(* ===== verification/Fifo.thy ===== *)
theory Fifo
  imports Prelude
begin

text \<open>
  The contract of the queues of the repository, the shell's command history and the web server's
  request buffer: what an insertion and a removal do to the sequence of items.
  \<open>ok\<close> tells the items that may be inserted. The lemmas about
  whole runs of operations are proved here once.
\<close>

locale fifo =
  fixes inv :: "'q \<Rightarrow> bool"
    and items :: "'q \<Rightarrow> 'a list"
    and room :: "'q \<Rightarrow> bool"
    and ok :: "'a \<Rightarrow> bool"
    and enq :: "'a \<Rightarrow> 'q \<Rightarrow> 'q option"
    and deq :: "'q \<Rightarrow> ('a \<times> 'q) option"
  assumes enq_ok: "inv q \<Longrightarrow> room q \<Longrightarrow> ok x \<Longrightarrow> \<exists>q'. enq x q = Some q' \<and> inv q' \<and> items q' = items q @ [x]"
    and deq_ok: "inv q \<Longrightarrow> items q = x # xs \<Longrightarrow> \<exists>q'. deq q = Some (x, q') \<and> inv q' \<and> items q' = xs"

text \<open>A queue that never fills up, and one that holds a fixed number of items.\<close>

locale unbounded_fifo = fifo +
  assumes always_room: "inv q \<Longrightarrow> room q"

locale bounded_fifo = fifo +
  fixes cap :: "'q \<Rightarrow> nat"
  assumes room_iff: "inv q \<Longrightarrow> room q \<longleftrightarrow> length (items q) < cap q"
    and cap_const: "enq x q = Some q' \<Longrightarrow> cap q' = cap q"

fun enq_all :: "('a \<Rightarrow> 'q \<Rightarrow> 'q option) \<Rightarrow> 'a list \<Rightarrow> 'q \<Rightarrow> 'q option" where
  "enq_all enq [] q = Some q"
| "enq_all enq (x # xs) q = do { q \<leftarrow> enq x q; enq_all enq xs q }"

fun deq_many :: "('q \<Rightarrow> ('a \<times> 'q) option) \<Rightarrow> nat \<Rightarrow> 'q \<Rightarrow> ('a list \<times> 'q) option" where
  "deq_many deq 0 q = Some ([], q)"
| "deq_many deq (Suc n) q = do { (x, q) \<leftarrow> deq q; (xs, q) \<leftarrow> deq_many deq n q; Some (x # xs, q) }"

context fifo
begin

lemma deq_many_ok:
  "inv q \<Longrightarrow> n \<le> length (items q) \<Longrightarrow>
     \<exists>q'. deq_many deq n q = Some (take n (items q), q') \<and> inv q' \<and> items q' = drop n (items q)"
proof (induction n arbitrary: q)
  case (Suc n)
  then obtain x xs where q: "items q = x # xs" by (cases "items q") auto
  obtain q1 where q1: "deq q = Some (x, q1)" "inv q1" "items q1 = xs"
    using deq_ok[OF Suc.prems(1) q] by blast
  then show ?case using Suc.IH[of q1] Suc.prems q by auto
qed simp

end

context unbounded_fifo
begin

lemma enq_all_ok:
  "inv q \<Longrightarrow> \<forall>x \<in> set xs. ok x \<Longrightarrow> \<exists>q'. enq_all enq xs q = Some q' \<and> inv q' \<and> items q' = items q @ xs"
proof (induction xs arbitrary: q)
  case (Cons x xs)
  obtain q1 where "enq x q = Some q1" "inv q1" "items q1 = items q @ [x]"
    using enq_ok[OF Cons.prems(1) always_room[OF Cons.prems(1)], of x] Cons.prems(2) by auto
  then show ?case using Cons.IH[of q1] Cons.prems(2) by auto
qed simp

text \<open>First in, first out: what goes into an empty queue comes out in the same order.\<close>

lemma first_in_first_out:
  assumes "inv q" "items q = []" "\<forall>x \<in> set xs. ok x"
  shows "\<exists>q' q''. enq_all enq xs q = Some q' \<and> deq_many deq (length xs) q' = Some (xs, q'')
    \<and> inv q'' \<and> items q'' = []"
proof -
  obtain q' where q': "enq_all enq xs q = Some q'" "inv q'" "items q' = xs"
    using enq_all_ok[OF assms(1,3)] assms(2) by auto
  then show ?thesis using deq_many_ok[of q' "length xs"] by auto
qed

end

context bounded_fifo
begin

lemma enq_all_ok:
  "inv q \<Longrightarrow> length (items q) + length xs \<le> cap q \<Longrightarrow> \<forall>x \<in> set xs. ok x \<Longrightarrow>
     \<exists>q'. enq_all enq xs q = Some q' \<and> inv q' \<and> items q' = items q @ xs \<and> cap q' = cap q"
proof (induction xs arbitrary: q)
  case (Cons x xs)
  then have "room q" using room_iff by simp
  then obtain q1 where q1: "enq x q = Some q1" "inv q1" "items q1 = items q @ [x]"
    using enq_ok[OF Cons.prems(1), of x] Cons.prems(3) by auto
  then show ?case using Cons.IH[of q1] Cons.prems(2,3) cap_const[OF q1(1)] by auto
qed simp

end

end
