(* ===== verification/HistoryQueue.thy ===== *)
theory HistoryQueue
  imports Fifo
begin

text \<open>
  \<^verbatim>\<open>myShell/queue.c\<close>: the linked queue that keeps the command history, on a heap of nodes. A node
  address is a natural number, \<^verbatim>\<open>NULL\<close> is \<open>0\<close>, and \<^verbatim>\<open>malloc\<close> gives an address never used before.
  Following a pointer that is not the address of a node gives \<open>None\<close>.
\<close>

record node =
  data :: string
  nextp :: nat

record Queue =
  cells :: "nat \<Rightarrow> node option"
  fresh :: nat
  front :: nat
  rear :: nat

definition createQueue :: Queue where
  "createQueue = \<lparr>cells = (\<lambda>_. None), fresh = 1, front = 0, rear = 0\<rparr>"

definition isEmpty :: "Queue \<Rightarrow> bool" where
  "isEmpty q \<longleftrightarrow> front q = 0"

definition malloc_node :: "string \<Rightarrow> Queue \<Rightarrow> nat \<times> Queue" where
  "malloc_node d q = (fresh q,
     q\<lparr>cells := (cells q)(fresh q \<mapsto> \<lparr>data = d, nextp = 0\<rparr>), fresh := fresh q + 1\<rparr>)"

definition enqueue :: "string \<Rightarrow> Queue \<Rightarrow> Queue option" where
  "enqueue d q = (let (newNode, q) = malloc_node d q in
     if isEmpty q then Some (q\<lparr>front := newNode, rear := newNode\<rparr>)
     else do {
       r \<leftarrow> cells q (rear q);
       let q = q\<lparr>cells := (cells q)(rear q \<mapsto> r\<lparr>nextp := newNode\<rparr>)\<rparr>;
       Some (q\<lparr>rear := newNode\<rparr>)
     })"

text \<open>The result is the data, \<open>None\<close> for the \<^verbatim>\<open>NULL\<close> that an empty queue gives.\<close>

definition dequeue :: "Queue \<Rightarrow> (string option \<times> Queue) option" where
  "dequeue q = (if isEmpty q then Some (None, q)
     else do {
       n \<leftarrow> cells q (front q);
       let temp = front q;
       let q = q\<lparr>front := nextp n\<rparr>;
       let q = q\<lparr>cells := (cells q)(temp := None)\<rparr>;
       let q = (if front q = 0 then q\<lparr>rear := 0\<rparr> else q);
       Some (Some (data n), q)
     })"

partial_function (option) print_loop :: "(nat \<Rightarrow> node option) \<Rightarrow> nat \<Rightarrow> string list option" where
  "print_loop c temp =
     (if temp = 0 then Some []
      else do { n \<leftarrow> c temp; out \<leftarrow> print_loop c (nextp n); Some (data n # out) })"

declare print_loop.simps [code]

definition printQueue :: "Queue \<Rightarrow> string list option" where
  "printQueue q = print_loop (cells q) (front q)"

section \<open>The representation of a list\<close>

fun path :: "(nat \<Rightarrow> node option) \<Rightarrow> nat \<Rightarrow> nat list \<Rightarrow> string list \<Rightarrow> bool" where
  "path c a [] ds \<longleftrightarrow> a = 0 \<and> ds = []"
| "path c a (b # bs) ds \<longleftrightarrow> a = b \<and> b \<noteq> 0
     \<and> (\<exists>n es. c b = Some n \<and> ds = data n # es \<and> path c (nextp n) bs es)"

definition rep :: "Queue \<Rightarrow> nat list \<Rightarrow> string list \<Rightarrow> bool" where
  "rep q as ds \<longleftrightarrow> path (cells q) (front q) as ds \<and> distinct as
     \<and> (\<forall>a \<in> set as. a < fresh q) \<and> 0 < fresh q \<and> rear q = (if as = [] then 0 else last as)"

definition queue_ok :: "Queue \<Rightarrow> bool" where
  "queue_ok q \<longleftrightarrow> (\<exists>as ds. rep q as ds)"

definition contents :: "Queue \<Rightarrow> string list" where
  "contents q = (case printQueue q of None \<Rightarrow> [] | Some ds \<Rightarrow> ds)"

lemma print_loop_path: "path c a as ds \<Longrightarrow> print_loop c a = Some ds"
proof (induction as arbitrary: a ds)
  case (Cons b bs)
  then show ?case by (subst print_loop.simps) auto
qed (simp add: print_loop.simps)

lemma rep_contents: "rep q as ds \<Longrightarrow> printQueue q = Some ds \<and> contents q = ds"
  using print_loop_path by (auto simp: rep_def printQueue_def contents_def)

lemma path_frame: "path c a as ds \<Longrightarrow> \<forall>x \<in> set as. c' x = c x \<Longrightarrow> path c' a as ds"
  by (induction as arbitrary: a ds) auto

text \<open>Linking a new node behind the last one.\<close>

lemma path_snoc:
  assumes "path c a as ds" "as \<noteq> []" "distinct as" "b \<notin> set as" "b \<noteq> 0" "c (last as) = Some r"
  shows "path (c(b \<mapsto> \<lparr>data = d, nextp = 0\<rparr>, last as \<mapsto> r\<lparr>nextp := b\<rparr>)) a (as @ [b]) (ds @ [d])"
  using assms
proof (induction as arbitrary: a ds)
  case (Cons x xs)
  then obtain n es where n: "a = x" "x \<noteq> 0" "c x = Some n" "ds = data n # es" "path c (nextp n) xs es"
    by auto
  show ?case
  proof (cases "xs = []")
    case True
    then show ?thesis using n Cons.prems by auto
  next
    case False
    define c' where "c' = c(b \<mapsto> \<lparr>data = d, nextp = 0\<rparr>, last xs \<mapsto> r\<lparr>nextp := b\<rparr>)"
    have "last xs \<in> set xs" using False by simp
    then have "c' x = Some n" using n(3) Cons.prems(3,4) by (auto simp: c'_def)
    moreover have "path c' (nextp n) (xs @ [b]) (es @ [d])"
      unfolding c'_def by (rule Cons.IH[OF n(5) False]) (use Cons.prems False in auto)
    ultimately have "path c' a ((x # xs) @ [b]) (ds @ [d])" using n by simp
    then show ?thesis by (simp only: c'_def last_ConsR[OF False])
  qed
qed simp

lemma path_cells: "path c a as ds \<Longrightarrow> x \<in> set as \<Longrightarrow> \<exists>n. c x = Some n"
  by (induction as arbitrary: a ds) auto

lemma path_length: "path c a as ds \<Longrightarrow> length ds = length as"
  by (induction as arbitrary: a ds) auto

lemma enqueue_rep:
  assumes "rep q as ds"
  shows "\<exists>q'. enqueue d q = Some q' \<and> rep q' (as @ [fresh q]) (ds @ [d])"
proof -
  have r: "path (cells q) (front q) as ds" "distinct as" "\<forall>a \<in> set as. a < fresh q" "0 < fresh q"
    "rear q = (if as = [] then 0 else last as)"
    using assms by (auto simp: rep_def)
  have new: "fresh q \<notin> set as" using r(3) by auto
  show ?thesis
  proof (cases "as = []")
    case True
    then show ?thesis
      using r by (auto simp: enqueue_def malloc_node_def isEmpty_def rep_def)
  next
    case False
    have "\<exists>n. cells q (last as) = Some n" using path_cells[OF r(1)] False by simp
    then obtain n where n: "cells q (last as) = Some n" by blast
    have "front q \<noteq> 0" using r(1) False by (cases as) auto
    moreover have "last as \<noteq> fresh q" using new False last_in_set by metis
    ultimately show ?thesis
      using path_snoc[OF r(1) False r(2) new _ n] r False n new
      by (auto simp: enqueue_def malloc_node_def isEmpty_def rep_def fun_upd_twist Let_def)
  qed
qed

lemma dequeue_rep:
  assumes "rep q as (d # ds)"
  shows "\<exists>q'. dequeue q = Some (Some d, q') \<and> rep q' (tl as) ds"
proof -
  have r: "path (cells q) (front q) as (d # ds)" "distinct as" "\<forall>a \<in> set as. a < fresh q" "0 < fresh q"
    "rear q = (if as = [] then 0 else last as)"
    using assms by (auto simp: rep_def)
  obtain b bs where as: "as = b # bs" using r(1) by (cases as) auto
  then obtain n where n: "front q = b" "b \<noteq> 0" "cells q b = Some n" "data n = d" "path (cells q) (nextp n) bs ds"
    using r(1) by auto
  have "path ((cells q)(b := None)) (nextp n) bs ds"
    by (rule path_frame[OF n(5)]) (use r(2) as in auto)
  moreover have "nextp n = 0 \<longleftrightarrow> bs = []" using n(5) by (cases bs) auto
  ultimately show ?thesis
    using n r as by (auto simp: dequeue_def isEmpty_def rep_def Let_def)
qed

lemma dequeue_empty: "rep q as [] \<Longrightarrow> dequeue q = Some (None, q)"
  using path_length[of "cells q" "front q" as "[]"] by (auto simp: rep_def dequeue_def isEmpty_def)

lemma isEmpty_rep: "rep q as ds \<Longrightarrow> isEmpty q \<longleftrightarrow> ds = []"
  using path_length[of "cells q" "front q" as ds] by (cases as) (auto simp: rep_def isEmpty_def)

text \<open>The dequeue of a queue that is known not to be empty, as the contract has it.\<close>

definition take_front :: "Queue \<Rightarrow> (string \<times> Queue) option" where
  "take_front q = do { (d, q) \<leftarrow> dequeue q; x \<leftarrow> d; Some (x, q) }"

interpretation history: unbounded_fifo queue_ok contents "\<lambda>_. True" "\<lambda>_. True" enqueue take_front
proof unfold_locales
  fix q :: Queue and x assume "queue_ok q"
  then obtain as ds where r: "rep q as ds" by (auto simp: queue_ok_def)
  then show "\<exists>q'. enqueue x q = Some q' \<and> queue_ok q' \<and> contents q' = contents q @ [x]"
    using enqueue_rep[OF r, of x] rep_contents by (auto simp: queue_ok_def)
next
  fix q :: Queue and x xs assume q: "queue_ok q" "contents q = x # xs"
  then obtain as ds where r: "rep q as ds" by (auto simp: queue_ok_def)
  then have "ds = x # xs" using rep_contents q(2) by auto
  then obtain q' where q': "dequeue q = Some (Some x, q')" "rep q' (tl as) xs"
    using dequeue_rep[of q as x xs] r by blast
  then have "queue_ok q'" unfolding queue_ok_def by blast
  then show "\<exists>q'. take_front q = Some (x, q') \<and> queue_ok q' \<and> contents q' = xs"
    using q' rep_contents[OF q'(2)] by (simp add: take_front_def)
qed simp

lemma createQueue_ok: "queue_ok createQueue" "contents createQueue = []"
proof -
  have r: "rep createQueue [] []" by (simp add: rep_def createQueue_def)
  then show "queue_ok createQueue" "contents createQueue = []"
    using rep_contents by (auto simp: queue_ok_def)
qed

section \<open>Properties\<close>

text \<open>C40. The history is a first-in first-out queue: any commands put into a new queue come out in
  the order they went in, the queue prints exactly the commands it holds, and it is empty again at
  the end, with every node freed.\<close>

theorem history_fifo:
  "\<exists>q q'. enq_all enqueue ds createQueue = Some q \<and> printQueue q = Some ds
     \<and> deq_many take_front (length ds) q = Some (ds, q') \<and> isEmpty q' \<and> dequeue q' = Some (None, q')"
proof -
  obtain q where q: "enq_all enqueue ds createQueue = Some q" "queue_ok q" "contents q = ds"
    using history.enq_all_ok[OF createQueue_ok(1), of ds] createQueue_ok(2) by auto
  obtain q' where q': "deq_many take_front (length ds) q = Some (ds, q')" "queue_ok q'" "contents q' = []"
    using history.deq_many_ok[OF q(2), of "length ds"] q(3) by auto
  obtain as es where r: "rep q as es" using q(2) by (auto simp: queue_ok_def)
  obtain as' es' where r': "rep q' as' es'" using q'(2) by (auto simp: queue_ok_def)
  have "es = ds" "es' = []" using rep_contents[OF r] rep_contents[OF r'] q(3) q'(3) by auto
  then show ?thesis
    using q(1) q'(1) rep_contents[OF r] isEmpty_rep[OF r'] dequeue_empty r' by auto
qed

end
