(* ===== verification/CText.thy ===== *)
theory CText
  imports Prelude
begin

text \<open>
  What the programs use of the C library's text functions: the string in a character array,
  the character classes, substring search, and the decimal output of \<^verbatim>\<open>printf\<close>. A C string is its
  list of characters before the terminating zero.
\<close>

abbreviation NUL :: char where "NUL \<equiv> CHR 0x00"

definition isspace :: "char \<Rightarrow> bool" where
  "isspace c \<longleftrightarrow> c \<in> {CHR '' '', CHR 0x09, CHR 0x0A, CHR 0x0B, CHR 0x0C, CHR 0x0D}"

text \<open>The C string that an array holds.\<close>

definition cstr :: "string \<Rightarrow> string" where
  "cstr s = takeWhile (\<lambda>c. c \<noteq> NUL) s"

lemma isspace_NUL [simp]: "\<not> isspace NUL"
  by (simp add: isspace_def)

text \<open>\<^verbatim>\<open>%d\<close>, \<^verbatim>\<open>%lu\<close> and \<^verbatim>\<open>%4d\<close>.\<close>

definition digit :: "nat \<Rightarrow> char" where
  "digit n = char_of (48 + n)"

fun show_nat :: "nat \<Rightarrow> string" where
  "show_nat n = (if n < 10 then [digit n] else show_nat (n div 10) @ [digit (n mod 10)])"

declare show_nat.simps [simp del]

definition show_int :: "int \<Rightarrow> string" where
  "show_int i = (if i < 0 then CHR ''-'' # show_nat (nat (- i)) else show_nat (nat i))"

definition pad :: "nat \<Rightarrow> string \<Rightarrow> string" where
  "pad w s = replicate (w - length s) (CHR '' '') @ s"

text \<open>Reading a decimal number back.\<close>

definition digit_value :: "char \<Rightarrow> nat" where
  "digit_value c = of_char c - 48"

definition isdigit :: "char \<Rightarrow> bool" where
  "isdigit c \<longleftrightarrow> 48 \<le> (of_char c :: nat) \<and> (of_char c :: nat) \<le> 57"

definition read_nat :: "string \<Rightarrow> nat" where
  "read_nat s = foldl (\<lambda>n c. 10 * n + digit_value c) 0 s"

text \<open>\<^verbatim>\<open>atoi\<close>: leading white space, an optional sign, the digits that follow.\<close>

definition atoi :: "string \<Rightarrow> int" where
  "atoi s = (let t = dropWhile isspace s;
       (neg, u) = (case t of [] \<Rightarrow> (False, [])
                   | c # cs \<Rightarrow> if c = CHR ''-'' then (True, cs)
                               else if c = CHR ''+'' then (False, cs) else (False, c # cs));
       n = int (read_nat (takeWhile isdigit u))
     in if neg then - n else n)"

lemma digit_value_digit [simp]: "n < 10 \<Longrightarrow> digit_value (digit n) = n"
  by (simp add: digit_value_def digit_def)

lemma isdigit_digit [simp]: "n < 10 \<Longrightarrow> isdigit (digit n)"
  by (simp add: isdigit_def digit_def)

lemma show_nat_digits: "\<forall>c \<in> set (show_nat n). isdigit c"
proof (induction n rule: show_nat.induct)
  case (1 n)
  then show ?case by (subst show_nat.simps) auto
qed

lemma show_nat_nonempty [simp]: "show_nat n \<noteq> []"
  by (subst show_nat.simps) auto

lemma read_show_nat: "read_nat (show_nat n) = n"
proof (induction n rule: show_nat.induct)
  case (1 n)
  then show ?case by (subst show_nat.simps) (auto simp: read_nat_def)
qed

lemma isdigit_not_space: "isdigit c \<Longrightarrow> \<not> isspace c \<and> c \<noteq> CHR ''-'' \<and> c \<noteq> CHR ''+''"
  by (auto simp: isdigit_def isspace_def)

lemma atoi_show_nat: "atoi (show_nat n) = int n"
proof -
  obtain c cs where c: "show_nat n = c # cs" by (cases "show_nat n") auto
  have d: "\<forall>x \<in> set (c # cs). isdigit x" using show_nat_digits[of n] c by simp
  then have "takeWhile isdigit (c # cs) = c # cs" by (simp add: takeWhile_eq_all_conv)
  moreover have "dropWhile isspace (c # cs) = c # cs" "c \<noteq> CHR ''-''" "c \<noteq> CHR ''+''"
    using d isdigit_not_space by auto
  ultimately show ?thesis using read_show_nat[of n] c by (simp add: atoi_def Let_def)
qed

text \<open>\<^verbatim>\<open>strstr\<close> as a test, and \<^verbatim>\<open>index\<close> as a split at the first occurrence.\<close>

fun has_prefix :: "string \<Rightarrow> string \<Rightarrow> bool" where
  "has_prefix [] s = True"
| "has_prefix (p # ps) [] = False"
| "has_prefix (p # ps) (c # cs) = (p = c \<and> has_prefix ps cs)"

fun contains :: "string \<Rightarrow> string \<Rightarrow> bool" where
  "contains p [] = (p = [])"
| "contains p (c # cs) = (has_prefix p (c # cs) \<or> contains p cs)"

lemma has_prefix_iff: "has_prefix p s \<longleftrightarrow> (\<exists>t. s = p @ t)"
  by (induction p s rule: has_prefix.induct) auto

lemma contains_iff: "contains p s \<longleftrightarrow> (\<exists>a b. s = a @ p @ b)"
proof (induction s)
  case (Cons c s)
  show ?case
  proof
    assume "contains p (c # s)"
    then consider "has_prefix p (c # s)" | "contains p s" by auto
    then show "\<exists>a b. c # s = a @ p @ b"
    proof cases
      case 1
      then show ?thesis unfolding has_prefix_iff by (metis append_Nil)
    next
      case 2
      then show ?thesis using Cons by (metis append_Cons)
    qed
  next
    assume "\<exists>a b. c # s = a @ p @ b"
    then obtain a b where ab: "c # s = a @ p @ b" by blast
    then show "contains p (c # s)"
    proof (cases a)
      case Nil
      then have "has_prefix p (c # s)" using ab has_prefix_iff by auto
      then show ?thesis by simp
    qed (use ab Cons in auto)
  qed
qed auto

text \<open>One call of \<^verbatim>\<open>strtok\<close> with one separator: the token, and the text after it.\<close>

definition strtok :: "char \<Rightarrow> string \<Rightarrow> (string \<times> string) option" where
  "strtok d s = (let t = dropWhile (\<lambda>c. c = d) s in
     if t = [] then None
     else Some (takeWhile (\<lambda>c. c \<noteq> d) t, tl (dropWhile (\<lambda>c. c \<noteq> d) t)))"

lemma strtok_shorter: "strtok d s = Some (t, r) \<Longrightarrow> length r < length s"
proof -
  assume a: "strtok d s = Some (t, r)"
  define u where "u = dropWhile (\<lambda>c. c = d) s"
  have u: "u \<noteq> []" "r = tl (dropWhile (\<lambda>c. c \<noteq> d) u)"
    using a by (auto simp: strtok_def u_def Let_def split: if_splits)
  have "length (dropWhile (\<lambda>c. c \<noteq> d) u) \<le> length u" "length u \<le> length s"
    unfolding u_def by (rule length_dropWhile_le)+
  then show "length r < length s" using u by (cases u) (auto split: if_splits)
qed

end
