(* ===== verification/ShellText.thy ===== *)
theory ShellText
  imports CText
begin

text \<open>
  The text routines of \<^verbatim>\<open>myShell/hw1.c\<close>, \<^verbatim>\<open>trim\<close> and \<^verbatim>\<open>parseCommand\<close>, index by index on the
  character array, and the library function \<^verbatim>\<open>strtok\<close> they use.
\<close>

text \<open>Reading the array: the position after the last character holds the zero.\<close>

definition at :: "string \<Rightarrow> nat \<Rightarrow> char" where
  "at s i = (if i < length s then s ! i else NUL)"

section \<open>trim\<close>

function trim_begin :: "string \<Rightarrow> nat \<Rightarrow> nat" where
  "trim_begin s b = (if isspace (at s b) then trim_begin s (b + 1) else b)"
  by auto
termination
  by (relation "measure (\<lambda>(s, b). length s - b)") (auto simp: at_def split: if_splits)

declare trim_begin.simps [simp del]

text \<open>\<open>trim_end s b n\<close> is \<^verbatim>\<open>end + 1\<close>, counted from \<open>n\<close> downwards.\<close>

fun trim_end :: "string \<Rightarrow> nat \<Rightarrow> nat \<Rightarrow> nat" where
  "trim_end s b 0 = 0"
| "trim_end s b (Suc e) = (if e \<ge> b \<and> isspace (at s e) then trim_end s b e else Suc e)"

function trim_copy :: "string \<Rightarrow> nat \<Rightarrow> nat \<Rightarrow> nat \<Rightarrow> string \<times> nat" where
  "trim_copy s b i n = (if i < n then trim_copy (s[i - b := at s i]) b (i + 1) n else (s, i))"
  by auto
termination
  by (relation "measure (\<lambda>(s, b, i, n). n - i)") auto

declare trim_copy.simps [simp del]

definition trim :: "string \<Rightarrow> string" where
  "trim s = (let b = trim_begin s 0; n = trim_end s b (length s); (s', i) = trim_copy s b b n
     in take (i - b) s')"

lemma trim_begin_eq: "b \<le> length s \<Longrightarrow> trim_begin s b = b + length (takeWhile isspace (drop b s))"
proof (induction s b rule: trim_begin.induct)
  case (1 s b)
  show ?case
  proof (cases "isspace (at s b)")
    case True
    then have b: "b < length s" by (auto simp: at_def split: if_splits)
    then have "drop b s = s ! b # drop (b + 1) s" by (simp add: Cons_nth_drop_Suc)
    then show ?thesis using True b "1.IH"[OF True] by (subst trim_begin.simps) (simp add: at_def)
  next
    case False
    then have "takeWhile isspace (drop b s) = []"
      by (cases "b < length s") (auto simp: at_def Cons_nth_drop_Suc[symmetric])
    then show ?thesis using False by (subst trim_begin.simps) simp
  qed
qed

lemma trim_end_eq:
  "n \<le> length s \<Longrightarrow> b \<le> n \<Longrightarrow>
     trim_end s b n = b + length (dropWhile isspace (rev (drop b (take n s))))"
proof (induction s b n rule: trim_end.induct)
  case (2 s b e)
  show ?case
  proof (cases "b \<le> e")
    case True
    have "drop b (take (Suc e) s) = drop b (take e s) @ [s ! e]"
      using "2.prems" True by (simp add: take_Suc_conv_app_nth)
    then show ?thesis using 2 True by (auto simp: at_def)
  next
    case False
    then show ?thesis using "2.prems" by simp
  qed
qed simp

lemma trim_copy_eq:
  "b \<le> i \<Longrightarrow> i \<le> n \<Longrightarrow> n \<le> length s \<Longrightarrow>
     trim_copy s b i n = (take (i - b) s @ take (n - i) (drop i s) @ drop (n - b) s, n)"
proof (induction s b i n rule: trim_copy.induct)
  case (1 s b i n)
  show ?case
  proof (cases "i < n")
    case True
    let ?s = "s[i - b := at s i]"
    have le: "i - b \<le> i" "i < length s" using True 1 by auto
    have a: "at s i = s ! i" using le by (simp add: at_def)
    have t: "take (Suc i - b) ?s = take (i - b) s @ [s ! i]"
      using le 1(2) by (simp add: Suc_diff_le take_Suc_conv_app_nth a)
    have d: "drop (Suc i) ?s = drop (Suc i) s" "drop (n - b) ?s = drop (n - b) s"
      using le 1(2) True by (auto simp: drop_update_cancel)
    have c: "take (n - i) (drop i s) = s ! i # take (n - Suc i) (drop (Suc i) s)"
      using True le by (simp add: Cons_nth_drop_Suc[symmetric] take_Cons')
    have "trim_copy s b i n = trim_copy ?s b (i + 1) n" using True by (subst trim_copy.simps) simp
    also have "\<dots> = (take (i + 1 - b) ?s @ take (n - (i + 1)) (drop (i + 1) ?s) @ drop (n - b) ?s, n)"
      by (rule "1.IH"[OF True]) (use 1 True in auto)
    finally show ?thesis using t d c by simp
  next
    case False
    then show ?thesis using 1 by (subst trim_copy.simps) simp
  qed
qed

lemma trim_eq: "trim s = rev (dropWhile isspace (rev (dropWhile isspace s)))"
proof -
  define b where "b = length (takeWhile isspace s)"
  define n where "n = trim_end s b (length s)"
  have bl: "b \<le> length s" by (simp add: b_def length_takeWhile_le)
  have b: "trim_begin s 0 = b" using trim_begin_eq[of 0 s] by (simp add: b_def)
  have db: "drop b s = dropWhile isspace s" by (simp add: b_def dropWhile_eq_drop)
  have n: "n = b + length (dropWhile isspace (rev (drop b s)))"
    using trim_end_eq[of "length s" s b] bl by (simp add: n_def)
  have nl: "n \<le> length s"
    using length_dropWhile_le[of isspace "rev (drop b s)"] n bl by simp
  have "trim s = take (n - b) (take (n - b) (drop b s) @ drop (n - b) s)"
    using trim_copy_eq[of b b n s] n nl by (simp add: trim_def b n_def[symmetric] Let_def)
  also have "\<dots> = take (n - b) (drop b s)" using nl n by simp
  also have "\<dots> = rev (dropWhile isspace (rev (drop b s)))"
  proof -
    have "drop b s = rev (dropWhile isspace (rev (drop b s))) @ rev (takeWhile isspace (rev (drop b s)))"
      by (metis rev_append rev_rev_ident takeWhile_dropWhile_id)
    then have "take (n - b) (drop b s) = take (n - b) (rev (dropWhile isspace (rev (drop b s)))
        @ rev (takeWhile isspace (rev (drop b s))))" by simp
    then show ?thesis using n by simp
  qed
  finally show ?thesis unfolding db .
qed

text \<open>\<^verbatim>\<open>trim\<close> removes the white space at both ends of the string and nothing else.\<close>

theorem trim_correct: "trim s = rev (dropWhile isspace (rev (dropWhile isspace s)))"
  by (rule trim_eq)

section \<open>Splitting\<close>

text \<open>A text cut at every occurrence of a separator.\<close>

fun split_on :: "char \<Rightarrow> string \<Rightarrow> string list" where
  "split_on d [] = [[]]"
| "split_on d (c # cs) =
     (if c = d then [] # split_on d cs else (c # hd (split_on d cs)) # tl (split_on d cs))"

fun join_on :: "char \<Rightarrow> string list \<Rightarrow> string" where
  "join_on d [] = []"
| "join_on d [s] = s"
| "join_on d (s # t # ss) = s @ d # join_on d (t # ss)"

lemma split_on_nonempty [simp]: "split_on d s \<noteq> []"
  by (cases s) auto

lemma split_on_pieces: "t \<in> set (split_on d s) \<Longrightarrow> d \<notin> set t"
proof (induction s arbitrary: t)
  case (Cons c s)
  then show ?case by (cases "split_on d s") (auto split: if_splits)
qed simp

lemma join_split: "join_on d (split_on d s) = s"
proof (induction s)
  case (Cons c s)
  obtain t ts where "split_on d s = t # ts" by (cases "split_on d s") auto
  with Cons show ?case by (cases ts) auto
qed simp

lemma split_append: "d \<notin> set t \<Longrightarrow> split_on d (t @ d # s) = t # split_on d s"
  by (induction t) auto

lemma split_plain: "d \<notin> set t \<Longrightarrow> split_on d t = [t]"
  by (induction t) auto

lemma split_join: "ts \<noteq> [] \<Longrightarrow> \<forall>t \<in> set ts. d \<notin> set t \<Longrightarrow> split_on d (join_on d ts) = ts"
  by (induction d ts rule: join_on.induct) (auto simp: split_append split_plain)

section \<open>parseCommand\<close>

definition MAX_ARGS_COUNT :: nat where "MAX_ARGS_COUNT = 64"

text \<open>
  The array \<^verbatim>\<open>args\<close> has 64 entries; the store of the token with index \<open>i\<close>, or of the final \<^verbatim>\<open>NULL\<close>,
  is out of bounds when \<open>i\<close> is 64 or more.
\<close>

function parse_loop :: "string \<Rightarrow> nat \<Rightarrow> string list option" where
  "parse_loop s i =
     (case strtok (CHR '' '') s of
        None \<Rightarrow> if i < MAX_ARGS_COUNT then Some [] else None
      | Some (arg, rest) \<Rightarrow>
          if i < MAX_ARGS_COUNT then do { args \<leftarrow> parse_loop rest (i + 1); Some (arg # args) } else None)"
  by auto
termination
  by (relation "measure (\<lambda>(s, i). length s)") (auto dest: strtok_shorter)

declare parse_loop.simps [simp del]

definition parseCommand :: "string \<Rightarrow> string list option" where
  "parseCommand command = parse_loop command 0"

text \<open>What is left in \<^verbatim>\<open>command\<close>: \<^verbatim>\<open>strtok\<close> has ended the string after its first token.\<close>

definition first_word :: "string \<Rightarrow> string" where
  "first_word command = takeWhile (\<lambda>c. c = CHR '' '') command
     @ takeWhile (\<lambda>c. c \<noteq> CHR '' '') (dropWhile (\<lambda>c. c = CHR '' '') command)"

text \<open>The arguments of a command: the nonempty pieces between spaces.\<close>

definition tokens :: "string \<Rightarrow> string list" where
  "tokens s = filter (\<lambda>t. t \<noteq> []) (split_on (CHR '' '') s)"

lemma tokens_space [simp]: "tokens (CHR '' '' # s) = tokens s"
  by (simp add: tokens_def)

lemma tokens_skip: "tokens (dropWhile (\<lambda>c. c = CHR '' '') s) = tokens s"
  by (induction s) auto

lemma split_first:
  "split_on d s = takeWhile (\<lambda>c. c \<noteq> d) s
     # (if d \<in> set s then split_on d (tl (dropWhile (\<lambda>c. c \<noteq> d) s)) else [])"
  by (induction s) auto

lemma tokens_strtok:
  "tokens s = (case strtok (CHR '' '') s of None \<Rightarrow> [] | Some (t, r) \<Rightarrow> t # tokens r)"
proof -
  define u where "u = dropWhile (\<lambda>c. c = CHR '' '') s"
  have tu: "tokens s = tokens u" by (simp add: u_def tokens_skip)
  show ?thesis
  proof (cases u)
    case Nil
    then have "tokens u = []" by (simp add: tokens_def)
    then show ?thesis using tu Nil by (simp add: strtok_def u_def[symmetric] Let_def)
  next
    case (Cons c cs)
    have c: "c \<noteq> CHR '' ''" using Cons hd_dropWhile[of "\<lambda>c. c = CHR '' ''" s] by (auto simp: u_def)
    have "tokens u = takeWhile (\<lambda>c. c \<noteq> CHR '' '') u # tokens (tl (dropWhile (\<lambda>c. c \<noteq> CHR '' '') u))"
    proof (cases "CHR '' '' \<in> set u")
      case True
      then show ?thesis using Cons c by (subst tokens_def, subst split_first) (simp add: tokens_def)
    next
      case False
      then have d: "dropWhile (\<lambda>c. c \<noteq> CHR '' '') u = []" by (auto simp: dropWhile_eq_Nil_conv)
      have "tokens u = [takeWhile (\<lambda>c. c \<noteq> CHR '' '') u]"
        using Cons c False by (subst tokens_def, subst split_first) simp
      then show ?thesis unfolding d by (simp add: tokens_def)
    qed
    then show ?thesis using tu Cons by (simp add: strtok_def u_def[symmetric] Let_def)
  qed
qed

lemma parse_loop_eq:
  "parse_loop s i = (if i + length (tokens s) < MAX_ARGS_COUNT then Some (tokens s) else None)"
proof (induction s i rule: parse_loop.induct)
  case (1 s i)
  show ?case
  proof (cases "strtok (CHR '' '') s")
    case None
    then show ?thesis by (subst parse_loop.simps) (simp add: tokens_strtok[of s])
  next
    case (Some p)
    obtain t r where p: "strtok (CHR '' '') s = Some (t, r)" using Some by (cases p) auto
    have "tokens s = t # tokens r" using p tokens_strtok[of s] by simp
    then show ?thesis using "1.IH"[OF p refl] p by (subst parse_loop.simps) auto
  qed
qed

text \<open>C39. \<^verbatim>\<open>parseCommand\<close> cuts a command at its spaces and drops empty pieces; from 64 arguments on it
  writes past its array.\<close>

theorem parseCommand_correct:
  "parseCommand s = (if length (tokens s) < 64 then Some (tokens s) else None)"
  by (simp add: parseCommand_def parse_loop_eq MAX_ARGS_COUNT_def)

end
