(* ===== verification/Shell.thy ===== *)
theory Shell
  imports HistoryQueue ShellText
begin

text \<open>
  \<^verbatim>\<open>myShell/hw1.c\<close>: the shell's static variables as a record and its functions as state
  transformers. The operating system is a parameter: the answers of \<^verbatim>\<open>fork\<close>, \<^verbatim>\<open>waitpid\<close>, \<^verbatim>\<open>pipe\<close>
  and \<^verbatim>\<open>chdir\<close>, what a program writes to its standard output, and how the outputs of programs
  that run at the same time mix. A call that blocks for ever, or that is undefined, gives \<open>None\<close>;
  leaving the process is the outcome \<open>Exited\<close>.
\<close>

section \<open>State\<close>

text \<open>A child process: its arguments, what it reads, whether it writes into the line's pipe, and
  the lines of the built-in \<^verbatim>\<open>history\<close>.\<close>

record child =
  argv :: "string list"
  input :: "string option"
  to_pipe :: bool
  builtin :: "string list option"

record shell =
  output_buffer :: string
  is_last_block :: bool
  is_first_block :: bool
  child_pids :: "int list"
  cwd :: string
  history :: Queue
  pipe_data :: string
  running :: "child list"
  finished :: "child list"
  terminal :: "string list"
  messages :: "string list"
  forks :: nat
  wait_calls :: nat
  pipes :: nat

datatype wait_result = Reaped | Interrupted | Wait_failed

record shell_os =
  fork :: "nat \<Rightarrow> int option"
  waitpid :: "nat \<Rightarrow> wait_result"
  pipe_ok :: "nat \<Rightarrow> bool"
  chdir :: "string \<Rightarrow> string option \<Rightarrow> string option"
  execvp :: "string list \<Rightarrow> string option \<Rightarrow> string"
  mix :: "string list \<Rightarrow> string"

datatype outcome = Running shell | Exited int shell

type_synonym action = "shell \<Rightarrow> outcome option"

definition andThen :: "action \<Rightarrow> action \<Rightarrow> action" where
  "andThen f g s = do { r \<leftarrow> f s; case r of Running s' \<Rightarrow> g s' | Exited c s' \<Rightarrow> Some (Exited c s') }"

definition report :: "string \<Rightarrow> shell \<Rightarrow> shell" where
  "report msg s = s\<lparr>messages := messages s @ [msg]\<rparr>"

definition failure :: "string \<Rightarrow> action" where
  "failure msg s = Some (Exited 1 (report msg s))"

abbreviation MAX_PROCESS_COUNT :: nat where "MAX_PROCESS_COUNT \<equiv> 128"
abbreviation BUFFER_SIZE :: nat where "BUFFER_SIZE \<equiv> 1048576"

text \<open>The capacity of a Linux pipe: a writer into a full pipe waits for a reader.\<close>

abbreviation PIPE_CAPACITY :: nat where "PIPE_CAPACITY \<equiv> 65536"

section \<open>Children\<close>

partial_function (option) history_loop :: "(nat \<Rightarrow> node option) \<Rightarrow> nat \<Rightarrow> nat \<Rightarrow> string list option" where
  "history_loop c temp index =
     (if temp = 0 then Some []
      else do {
        n \<leftarrow> c temp;
        out \<leftarrow> history_loop c (nextp n) (index + 1);
        Some ((CHR '' '' # pad 4 (show_nat (index + 1)) @ ''  '' @ data n) # out)
      })"

declare history_loop.simps [code]

definition executeHistory :: "shell \<Rightarrow> string list option" where
  "executeHistory s = history_loop (cells (history s)) (front (history s)) 0"

definition createChildProcess :: "shell_os \<Rightarrow> action" where
  "createChildProcess os s =
     (if length (child_pids s) \<ge> MAX_PROCESS_COUNT then failure ''Max process count exceeded'' s
      else case fork os (forks s) of
             None \<Rightarrow> failure ''fork'' s
           | Some pid \<Rightarrow> Some (Running (s\<lparr>child_pids := child_pids s @ [pid], forks := forks s + 1\<rparr>)))"

text \<open>
  What a child writes. The built-in \<^verbatim>\<open>history\<close> prints with \<^verbatim>\<open>printf\<close> and leaves with \<^verbatim>\<open>_exit\<close>, which does not
  write out what the C library still buffers. On a terminal each line is written when it ends; into a pipe a
  full buffer is written when the next character comes, and what it holds at the end is lost.
\<close>

definition STDIO_BUFSIZE :: nat where "STDIO_BUFSIZE = 4096"

definition flushed :: "string \<Rightarrow> string" where
  "flushed t = take ((length t - 1) div STDIO_BUFSIZE * STDIO_BUFSIZE) t"

definition child_output :: "shell_os \<Rightarrow> child \<Rightarrow> string" where
  "child_output os ch = (case builtin ch of
     Some lines \<Rightarrow> let t = concat (map (\<lambda>l. l @ [CHR 0x0A]) lines) in if to_pipe ch then flushed t else t
   | None \<Rightarrow> execvp os (argv ch) (input ch))"

text \<open>
  The children that run finish their output. One that has to write more than a pipe holds, into
  the line's pipe or into the pipe it fills for its own input, never ends.
\<close>

definition finish_children :: "shell_os \<Rightarrow> shell \<Rightarrow> shell option" where
  "finish_children os s = (let
       piped = mix os (map (child_output os) (filter to_pipe (running s)));
       blocked = (\<exists>ch \<in> set (running s). case input ch of None \<Rightarrow> False | Some i \<Rightarrow> length i > PIPE_CAPACITY)
         \<or> length (pipe_data s @ piped) > PIPE_CAPACITY
     in if blocked then None
        else Some (s\<lparr>pipe_data := pipe_data s @ piped,
               terminal := terminal s @ map (child_output os) (filter (\<lambda>c. \<not> to_pipe c) (running s)),
               finished := finished s @ running s, running := []\<rparr>))"

partial_function (option) wait_loop :: "shell_os \<Rightarrow> shell \<Rightarrow> outcome option" where
  "wait_loop os s = (case waitpid os (wait_calls s) of
       Reaped \<Rightarrow> Some (Running (s\<lparr>wait_calls := wait_calls s + 1\<rparr>))
     | Interrupted \<Rightarrow> wait_loop os (s\<lparr>wait_calls := wait_calls s + 1\<rparr>)
     | Wait_failed \<Rightarrow> failure ''waitpid'' s)"

declare wait_loop.simps [code]

fun wait_each :: "shell_os \<Rightarrow> int list \<Rightarrow> action" where
  "wait_each os [] s = Some (Running s)"
| "wait_each os (p # ps) s = andThen (wait_loop os) (wait_each os ps) s"

definition waitForAllChildProcesses :: "shell_os \<Rightarrow> action" where
  "waitForAllChildProcesses os s = do {
     s \<leftarrow> finish_children os s;
     andThen (wait_each os (child_pids s)) (\<lambda>s. Some (Running (s\<lparr>child_pids := []\<rparr>))) s
   }"

definition resetLineInfo :: "shell \<Rightarrow> shell" where
  "resetLineInfo s = s\<lparr>is_last_block := False, is_first_block := True\<rparr>"

text \<open>
  The read waits while the pipe is empty, for the shell itself holds its write end open. The
  terminating zero goes to the index \<^verbatim>\<open>bytes_read\<close>.
\<close>

definition copyProcessOutputToBuffer :: action where
  "copyProcessOutputToBuffer s =
     (if pipe_data s = [] then None
      else let n = min BUFFER_SIZE (length (pipe_data s)) in
        if n < BUFFER_SIZE
        then Some (Running (s\<lparr>output_buffer := take n (pipe_data s), pipe_data := drop n (pipe_data s)\<rparr>))
        else None)"

text \<open>What a child reads when the block is not the first: the buffer up to its first zero.\<close>

definition copyBufferToProcessInput :: "shell \<Rightarrow> string" where
  "copyBufferToProcessInput s = cstr (output_buffer s)"

section \<open>Commands and lines\<close>

definition child_of :: "shell \<Rightarrow> string list \<Rightarrow> child option" where
  "child_of s args = do {
     b \<leftarrow> (if args = [] then None
           else if hd args = ''history'' then do { ls \<leftarrow> executeHistory s; Some (Some ls) } else Some None);
     Some \<lparr>argv = args,
           input = (if is_first_block s then None else Some (copyBufferToProcessInput s)),
           to_pipe = \<not> is_last_block s, builtin = b\<rparr>
   }"

definition start_child :: "string list \<Rightarrow> action" where
  "start_child args s = do { ch \<leftarrow> child_of s args; Some (Running (s\<lparr>running := running s @ [ch]\<rparr>)) }"

definition executeCommand :: "shell_os \<Rightarrow> string \<Rightarrow> action" where
  "executeCommand os command s = (let command = trim command in
     if command = [] then Some (Running s)
     else do {
       h \<leftarrow> enqueue command (history s);
       let s = s\<lparr>history := h\<rparr>;
       args \<leftarrow> parseCommand command;
       let command = first_word command;
       if command = ''cd'' then
         (case chdir os (cwd s) (if length args > 1 then Some (args ! 1) else None) of
            None \<Rightarrow> failure ''chdir'' s
          | Some d \<Rightarrow> Some (Running (s\<lparr>cwd := d\<rparr>)))
       else if command = ''quit'' then
         andThen (waitForAllChildProcesses os) (\<lambda>s. Some (Exited 0 s)) s
       else andThen (createChildProcess os) (start_child args) s
     })"

definition finish_line :: "shell_os \<Rightarrow> string \<Rightarrow> action" where
  "finish_line os seg = andThen (executeCommand os seg)
     (andThen (waitForAllChildProcesses os)
        (\<lambda>s. Some (Running (resetLineInfo (s\<lparr>pipe_data := []\<rparr>)))))"

text \<open>The loop over the line: \<open>seg\<close> holds the characters since \<^verbatim>\<open>line\<close>, \<open>seen\<close> is
  \<^verbatim>\<open>seen_pipe_count\<close>, \<open>n\<close> is \<^verbatim>\<open>pipe_count\<close>.\<close>

definition set_flags :: "nat \<Rightarrow> nat \<Rightarrow> shell \<Rightarrow> shell" where
  "set_flags n seen s = s\<lparr>is_first_block := (seen = 0), is_last_block := (seen = n)\<rparr>"

fun line_loop :: "shell_os \<Rightarrow> nat \<Rightarrow> nat \<Rightarrow> string \<Rightarrow> string \<Rightarrow> action" where
  "line_loop os n seen seg [] s = finish_line os seg s"
| "line_loop os n seen seg (c # cs) s = (let s = set_flags n seen s in
     if c = CHR '';'' then andThen (executeCommand os seg) (line_loop os n seen [] cs) s
     else if c = CHR ''|'' then
       andThen (executeCommand os seg)
         (andThen (waitForAllChildProcesses os)
            (andThen copyProcessOutputToBuffer (line_loop os n (Suc seen) [] cs))) s
     else line_loop os n seen (seg @ [c]) cs s)"

definition pipe_count :: "string \<Rightarrow> nat" where
  "pipe_count line = length (filter (\<lambda>c. c = CHR ''|'') line)"

definition executeLine :: "shell_os \<Rightarrow> string \<Rightarrow> action" where
  "executeLine os line s =
     (if \<not> pipe_ok os (pipes s) then failure ''pipe'' s
      else line_loop os (pipe_count line) 0 [] line (s\<lparr>pipes := pipes s + 1, pipe_data := []\<rparr>))"

section \<open>Input\<close>

abbreviation LINE_SIZE :: nat where "LINE_SIZE \<equiv> 251"

text \<open>
  Interactive input: \<open>acc\<close> are the \<^verbatim>\<open>cursor\<close> characters in \<^verbatim>\<open>line\<close>. The end of the input and the
  byte 0xFF both read as \<^verbatim>\<open>EOF\<close>, for \<^verbatim>\<open>c\<close> is a \<^verbatim>\<open>char\<close>.
\<close>

definition prompt :: action where
  "prompt s = Some (Running (report ''$ '' s))"

fun shell_loop :: "shell_os \<Rightarrow> string \<Rightarrow> string \<Rightarrow> action" where
  "shell_loop os acc [] s = Some (Running (if length acc = LINE_SIZE
     then report ''Discarding the input'' (report ''Error: Command too long'' s) else s))"
| "shell_loop os acc (c # cs) s =
     (let (acc, s) = (if length acc = LINE_SIZE
                      then ([], report ''Discarding the input'' (report ''Error: Command too long'' s))
                      else (acc, s)) in
      if c = CHR 0xFF then Some (Running s)
      else if c = CHR 0x0A then andThen (executeLine os (cstr acc)) (andThen prompt (shell_loop os [] cs)) s
      else shell_loop os (acc @ [c]) cs s)"

definition shellMode :: "shell_os \<Rightarrow> string \<Rightarrow> action" where
  "shellMode os stdin = andThen prompt (shell_loop os [] stdin)"

text \<open>\<^verbatim>\<open>fgets\<close> with a buffer of \<open>n\<close> bytes: at most \<open>n - 1\<close> characters, up to a newline.\<close>

fun fgets :: "nat \<Rightarrow> string \<Rightarrow> string \<times> string" where
  "fgets n [] = ([], [])"
| "fgets 0 (c # cs) = ([], c # cs)"
| "fgets (Suc 0) (c # cs) = ([], c # cs)"
| "fgets (Suc (Suc n)) (c # cs) =
     (if c = CHR 0x0A then ([c], cs)
      else (c # fst (fgets (Suc n) cs), snd (fgets (Suc n) cs)))"

lemma fgets_split: "fst (fgets n s) @ snd (fgets n s) = s"
  by (induction n s rule: fgets.induct) auto

lemma fgets_shorter: "s \<noteq> [] \<Longrightarrow> length (snd (fgets LINE_SIZE s)) < length s"
proof -
  assume "s \<noteq> []"
  then obtain c cs where s: "s = c # cs" by (cases s) auto
  have "fst (fgets LINE_SIZE s) \<noteq> []" by (simp add: s numeral_eq_Suc)
  then show ?thesis
    using fgets_split[of LINE_SIZE s] by (metis length_append length_greater_0_conv less_add_same_cancel2)
qed

lemma fgets_rest: "(l, r) = fgets LINE_SIZE s \<Longrightarrow> s \<noteq> [] \<Longrightarrow> length r < length s"
  using fgets_shorter[of s] by (cases "fgets LINE_SIZE s") simp

function batch_loop :: "shell_os \<Rightarrow> string \<Rightarrow> action" where
  "batch_loop os file s =
     (if file = [] then Some (Running s)
      else let (line, rest) = fgets LINE_SIZE file in
        andThen (executeLine os (cstr line)) (batch_loop os rest)
          (report (''Executing: '' @ cstr line) s))"
  by auto
termination
  by (relation "measure (\<lambda>(os, file, s). length file)") (simp_all only: in_measure split_conv wf_measure, erule (1) fgets_rest)

declare batch_loop.simps [simp del]

definition batchMode :: "shell_os \<Rightarrow> (string \<Rightarrow> string option) \<Rightarrow> string \<Rightarrow> action" where
  "batchMode os fopen filename s = (case fopen filename of
       None \<Rightarrow> Some (Running (report ''Error: File not found'' s))
     | Some file \<Rightarrow> batch_loop os file s)"

fun batch_files :: "shell_os \<Rightarrow> (string \<Rightarrow> string option) \<Rightarrow> string list \<Rightarrow> action" where
  "batch_files os fopen [] s = Some (Running s)"
| "batch_files os fopen (f # fs) s =
     andThen (batchMode os fopen f)
       (andThen (waitForAllChildProcesses os) (batch_files os fopen fs)) s"

partial_function (option) free_history :: "Queue \<Rightarrow> Queue option" where
  "free_history q =
     (if isEmpty q then Some q else do { (d, q) \<leftarrow> dequeue q; free_history q })"

declare free_history.simps [code]

definition initial_shell :: shell where
  "initial_shell = \<lparr>output_buffer = [], is_last_block = False, is_first_block = True, child_pids = [],
     cwd = [], history = createQueue, pipe_data = [], running = [], finished = [], terminal = [],
     messages = [], forks = 0, wait_calls = 0, pipes = 0\<rparr>"

text \<open>\<^verbatim>\<open>main\<close>: \<open>login\<close> and \<open>hostname\<close> tell whether those calls succeed, \<open>getcwd\<close> gives the directory.\<close>

definition shell_main :: "shell_os \<Rightarrow> bool \<Rightarrow> bool \<Rightarrow> string option \<Rightarrow> (string \<Rightarrow> string option)
    \<Rightarrow> string list \<Rightarrow> string \<Rightarrow> outcome option" where
  "shell_main os login hostname getcwd fopen args stdin =
     (if \<not> login then failure ''getlogin_r'' initial_shell
      else if \<not> hostname then failure ''gethostname'' initial_shell
      else case getcwd of
        None \<Rightarrow> failure ''getcwd'' initial_shell
      | Some d \<Rightarrow>
          andThen (if args \<noteq> [] then batch_files os fopen args else shellMode os stdin)
            (\<lambda>s. do { h \<leftarrow> free_history (history s); Some (Exited 0 (s\<lparr>history := h\<rparr>)) })
            (initial_shell\<lparr>cwd := d\<rparr>))"

end
