(* ===== verification/ShellProps.thy ===== *)
theory ShellProps
  imports Shell
begin

text \<open>
  Properties of the shell: how a line is cut into blocks and commands, what a pipeline computes,
  when the shell leaves or hangs, and which part of its input it executes.
\<close>

section \<open>Sequencing\<close>

lemma andThen_Running [simp]: "andThen (\<lambda>s. Some (Running (f s))) g s = g (f s)"
  by (simp add: andThen_def)

lemma andThen_assoc: "andThen (andThen f g) h = andThen f (andThen g h)"
  by (rule ext) (auto simp: andThen_def split: Option.bind_splits outcome.splits)

lemma andThen_pre: "andThen (\<lambda>s. f (k s)) g s = andThen f g (k s)"
  by (simp add: andThen_def)

lemma andThen_step: "f s = Some (Running s') \<Longrightarrow> andThen f g s = g s'"
  by (simp add: andThen_def)

lemma andThen_cong: "f s = f' s' \<Longrightarrow> (\<And>t. g t = g' t) \<Longrightarrow> andThen f g s = andThen f' g' s'"
  by (simp add: andThen_def cong: outcome.case_cong)

section \<open>Blocks\<close>

text \<open>
  What a line means: its blocks are the pieces between pipes, each a list of commands between
  semicolons. The commands of a block share the flags; between blocks the shell waits and takes
  over the pipe's content.
\<close>

definition blocks_of :: "string \<Rightarrow> string list list" where
  "blocks_of line = map (split_on (CHR '';'')) (split_on (CHR ''|'') line)"

fun run_commands :: "shell_os \<Rightarrow> nat \<Rightarrow> nat \<Rightarrow> string list \<Rightarrow> action" where
  "run_commands os n i [] s = Some (Running s)"
| "run_commands os n i (c # cs) s =
     andThen (executeCommand os c) (run_commands os n i cs) (set_flags n i s)"

fun run_blocks :: "shell_os \<Rightarrow> nat \<Rightarrow> nat \<Rightarrow> string list list \<Rightarrow> action" where
  "run_blocks os n i [] s = Some (Running s)"
| "run_blocks os n i [b] s =
     andThen (run_commands os n i b) (andThen (waitForAllChildProcesses os)
       (\<lambda>s. Some (Running (resetLineInfo (s\<lparr>pipe_data := []\<rparr>))))) s"
| "run_blocks os n i (b # b' # bs) s =
     andThen (run_commands os n i b) (andThen (waitForAllChildProcesses os)
       (andThen copyProcessOutputToBuffer (run_blocks os n (Suc i) (b' # bs)))) s"

lemma run_blocks_eqs:
  "run_blocks os n i [b] = andThen (run_commands os n i b) (andThen (waitForAllChildProcesses os)
     (\<lambda>s. Some (Running (resetLineInfo (s\<lparr>pipe_data := []\<rparr>)))))"
  "run_blocks os n i (b # b' # bs) = andThen (run_commands os n i b) (andThen (waitForAllChildProcesses os)
     (andThen copyProcessOutputToBuffer (run_blocks os n (Suc i) (b' # bs))))"
  by (rule ext, simp)+

lemma set_flags_idem [simp]: "set_flags n i (set_flags n i s) = set_flags n i s"
  by (simp add: set_flags_def)

lemma set_flags_sel [simp]:
  "history (set_flags n i s) = history s" "output_buffer (set_flags n i s) = output_buffer s"
  "child_pids (set_flags n i s) = child_pids s" "running (set_flags n i s) = running s"
  "pipe_data (set_flags n i s) = pipe_data s" "terminal (set_flags n i s) = terminal s"
  "finished (set_flags n i s) = finished s" "forks (set_flags n i s) = forks s"
  "cwd (set_flags n i s) = cwd s" "is_first_block (set_flags n i s) = (i = 0)"
  "is_last_block (set_flags n i s) = (i = n)"
  by (simp_all add: set_flags_def)

lemma run_blocks_first:
  "run_blocks os n i ((c # b) # bs) s = andThen (executeCommand os c) (run_blocks os n i (b # bs)) (set_flags n i s)"
proof -
  have "run_commands os n i (c # b) = (\<lambda>s. andThen (executeCommand os c) (run_commands os n i b) (set_flags n i s))"
    by (rule ext) simp
  then have "andThen (run_commands os n i (c # b)) g s
      = andThen (executeCommand os c) (andThen (run_commands os n i b) g) (set_flags n i s)" for g
    by (simp only: andThen_pre andThen_assoc)
  then show ?thesis by (cases bs) (simp_all only: run_blocks_eqs)
qed

lemma run_blocks_flags:
  "run_blocks os n i ((c # b) # bs) (set_flags n i s) = run_blocks os n i ((c # b) # bs) s"
  by (simp only: run_blocks_first set_flags_idem)

lemma split_at: "d \<notin> set seg \<Longrightarrow> split_on d (seg @ s) = (seg @ hd (split_on d s)) # tl (split_on d s)"
  by (induction seg) auto

lemma blocks_of_first:
  "blocks_of s = split_on (CHR '';'') (hd (split_on (CHR ''|'') s)) # tl (blocks_of s)"
  by (cases "split_on (CHR ''|'') s") (auto simp: blocks_of_def)

lemma plain_split:
  assumes "set seg \<inter> {CHR '';'', CHR ''|''} = {}"
  shows "blocks_of (seg @ CHR '';'' # s) = (seg # hd (blocks_of s)) # tl (blocks_of s)"
    and "blocks_of (seg @ CHR ''|'' # s) = [seg] # blocks_of s"
    and "blocks_of seg = [[seg]]"
proof -
  have a: "CHR ''|'' \<notin> set seg" "CHR '';'' \<notin> set seg" using assms by auto
  have "split_on (CHR ''|'') (seg @ CHR '';'' # s)
      = (seg @ CHR '';'' # hd (split_on (CHR ''|'') s)) # tl (split_on (CHR ''|'') s)"
    using split_at[OF a(1), of "CHR '';'' # s"] by simp
  then show "blocks_of (seg @ CHR '';'' # s) = (seg # hd (blocks_of s)) # tl (blocks_of s)"
    using a(2) by (cases "split_on (CHR ''|'') s") (auto simp: blocks_of_def split_append)
  show "blocks_of (seg @ CHR ''|'' # s) = [seg] # blocks_of s"
    using a by (simp add: blocks_of_def split_append split_plain)
  show "blocks_of seg = [[seg]]" using a by (simp add: blocks_of_def split_plain)
qed

lemma executeCommand_blank: "trim c = [] \<Longrightarrow> executeCommand os c s = Some (Running s)"
  by (simp add: executeCommand_def)

lemma trim_Nil: "trim [] = []"
  by (simp add: trim_def trim_begin.simps trim_copy.simps at_def)

lemma andThen_on: "(\<And>t. f s = Some (Running t) \<Longrightarrow> g t = h t) \<Longrightarrow> andThen f g s = andThen f h s"
  by (cases "f s") (auto simp: andThen_def split: outcome.splits)

lemma executeCommand_flags:
  "executeCommand os c s = Some (Running s') \<Longrightarrow>
     is_first_block s' = is_first_block s \<and> is_last_block s' = is_last_block s"
  by (auto simp: executeCommand_def createChildProcess_def start_child_def failure_def andThen_def
      bind_Some_iff Let_def split: if_splits option.splits outcome.splits) (metis outcome.exhaust)+

lemma flags_kept:
  "executeCommand os c (set_flags n i s) = Some (Running s') \<Longrightarrow> set_flags n i s' = s'"
  by (drule executeCommand_flags) (simp add: set_flags_def)

lemma run_commands_one: "run_commands os n i [seg] = (\<lambda>t. executeCommand os seg (set_flags n i t))"
  by (rule ext) (simp add: andThen_def split: Option.bind_splits outcome.splits)

lemma finish_line_block: "finish_line os seg (set_flags n i s) = run_blocks os n i [[seg]] s"
  by (simp add: finish_line_def andThen_def split: Option.bind_splits outcome.splits)

lemma line_loop_blocks:
  assumes "cs \<noteq> []" "last cs \<noteq> CHR ''|''" "set seg \<inter> {CHR '';'', CHR ''|''} = {}"
  shows "line_loop os n i seg cs s = run_blocks os n i (blocks_of (seg @ cs)) s"
  using assms
proof (induction cs arbitrary: seg i s)
  case (Cons c cs)
  note p = plain_split[OF Cons.prems(3)]
  obtain b bs where bl: "blocks_of cs = b # bs" using blocks_of_first by blast
  have nb: "b \<noteq> []" using bl blocks_of_first[of cs] by auto
  consider (semi) "c = CHR '';''" | (pipe) "c = CHR ''|''" | (plain) "c \<noteq> CHR '';''" "c \<noteq> CHR ''|''" by blast
  then show ?case
  proof cases
    case semi
    have rest: "line_loop os n i [] cs t = run_blocks os n i (b # bs) t" if "set_flags n i t = t" for t
    proof (cases "cs = []")
      case True
      then have "b # bs = [[[]]]" using bl by (simp add: blocks_of_def)
      then show ?thesis using True finish_line_block[of os "[]" n i t] that by simp
    next
      case False
      then show ?thesis using Cons.IH[OF False, of "[]" i t] Cons.prems(2) bl by simp
    qed
    have "andThen (executeCommand os seg) (line_loop os n i [] cs) (set_flags n i s)
        = andThen (executeCommand os seg) (run_blocks os n i (b # bs)) (set_flags n i s)"
      by (rule andThen_on) (use rest flags_kept in blast)
    then show ?thesis
      using semi p(1)[of cs] bl by (simp add: run_blocks_first Let_def del: run_blocks.simps)
  next
    case pipe
    then have ne: "cs \<noteq> []" "last cs \<noteq> CHR ''|''" using Cons.prems(2) by (auto split: if_splits)
    have "line_loop os n (Suc i) [] cs = run_blocks os n (Suc i) (b # bs)"
      by (rule ext) (use Cons.IH[OF ne, of "[]"] bl in simp)
    then show ?thesis
      using pipe p(2)[of cs] bl by (simp add: Let_def run_commands_one andThen_pre del: run_commands.simps)
  next
    case plain
    then have sg: "set (seg @ [c]) \<inter> {CHR '';'', CHR ''|''} = {}" using Cons.prems(3) by auto
    show ?thesis
    proof (cases "cs = []")
      case True
      then show ?thesis using plain plain_split(3)[OF sg] finish_line_block by (simp add: Let_def)
    next
      case False
      obtain c' b' bs' where e: "blocks_of (seg @ c # cs) = (c' # b') # bs'"
        using blocks_of_first[of "seg @ c # cs"] split_on_nonempty by (metis list.exhaust)
      show ?thesis
        using plain Cons.IH[OF False _ sg, of i "set_flags n i s"] Cons.prems(2) False e run_blocks_flags
        by (simp add: Let_def)
    qed
  qed
qed simp

text \<open>C17. A line is executed block by block: the pieces between pipes in order, the commands of a
  block between semicolons in order and with the same flags, the first block reading from the
  terminal and the last writing to it; between two blocks the shell waits for every child and takes
  over what the block wrote.\<close>

theorem executeLine_blocks:
  assumes "line \<noteq> []" "last line \<noteq> CHR ''|''" "pipe_ok os (pipes s)"
  shows "executeLine os line s =
    run_blocks os (pipe_count line) 0 (blocks_of line) (s\<lparr>pipes := pipes s + 1, pipe_data := []\<rparr>)"
  using assms line_loop_blocks[of line "[]" os "pipe_count line" 0] by (simp add: executeLine_def)

section \<open>Pipelines\<close>

text \<open>The lines of \<^verbatim>\<open>history\<close>, numbered from \<open>k + 1\<close>.\<close>

fun numbered :: "nat \<Rightarrow> string list \<Rightarrow> string list" where
  "numbered k [] = []"
| "numbered k (d # ds) = (CHR '' '' # pad 4 (show_nat (k + 1)) @ ''  '' @ d) # numbered (k + 1) ds"

lemma history_loop_path: "path c a as ds \<Longrightarrow> history_loop c a k = Some (numbered k ds)"
proof (induction as arbitrary: a ds k)
  case (Cons b bs)
  then show ?case by (subst history_loop.simps) auto
qed (simp add: history_loop.simps)

lemma executeHistory_eq: "queue_ok (history s) \<Longrightarrow> executeHistory s = Some (numbered 0 (contents (history s)))"
  using history_loop_path rep_contents by (fastforce simp: executeHistory_def queue_ok_def rep_def)

text \<open>
  The process of a command, given the history before it, its input and whether it writes into the pipe; and the
  processes of a pipeline: each reads the output of the one before, the last does not write into the pipe.
\<close>

definition command_child :: "string list \<Rightarrow> string option \<Rightarrow> bool \<Rightarrow> string \<Rightarrow> child" where
  "command_child h inp out c = \<lparr>argv = tokens (trim c), input = inp, to_pipe = out,
     builtin = (if hd (tokens (trim c)) = ''history'' then Some (numbered 0 (h @ [trim c])) else None)\<rparr>"

fun stages :: "shell_os \<Rightarrow> string list \<Rightarrow> string option \<Rightarrow> string list \<Rightarrow> child list" where
  "stages os h inp [] = []"
| "stages os h inp (c # cs) = (let ch = command_child h inp (cs \<noteq> []) c
     in ch # stages os (h @ [trim c]) (Some (child_output os ch)) cs)"

text \<open>The process of a command in the state of the shell; the shell between two blocks.\<close>

definition next_child :: "shell \<Rightarrow> string \<Rightarrow> child" where
  "next_child s c = command_child (contents (history s))
     (if is_first_block s then None else Some (cstr (output_buffer s))) (\<not> is_last_block s) c"

definition idle :: "shell \<Rightarrow> bool" where
  "idle s \<longleftrightarrow> queue_ok (history s) \<and> child_pids s = [] \<and> running s = [] \<and> pipe_data s = []"

definition plain_command :: "string \<Rightarrow> bool" where
  "plain_command c \<longleftrightarrow> trim c \<noteq> [] \<and> length (tokens (trim c)) < 64
     \<and> first_word (trim c) \<notin> {''cd'', ''quit''}"

text \<open>An operating system whose calls succeed; \<^verbatim>\<open>waitpid\<close> may be interrupted finitely often.\<close>

definition os_works :: "shell_os \<Rightarrow> bool" where
  "os_works os \<longleftrightarrow> (\<forall>k. fork os k \<noteq> None) \<and> (\<forall>k. pipe_ok os k) \<and> mix os [] = [] \<and> (\<forall>x. mix os [x] = x)
     \<and> (\<forall>k. \<exists>j. waitpid os (k + j) = Reaped \<and> (\<forall>i < j. waitpid os (k + i) = Interrupted))"

text \<open>What a process that is not the last may write: something, not too much, no zero byte.\<close>

definition passes_on :: "shell_os \<Rightarrow> child \<Rightarrow> bool" where
  "passes_on os ch \<longleftrightarrow> child_output os ch \<noteq> [] \<and> length (child_output os ch) \<le> PIPE_CAPACITY
     \<and> NUL \<notin> set (child_output os ch)"

lemma wait_loop_ok:
  "waitpid os (wait_calls s + j) = Reaped \<Longrightarrow> \<forall>i < j. waitpid os (wait_calls s + i) = Interrupted \<Longrightarrow>
     \<exists>k. wait_loop os s = Some (Running (s\<lparr>wait_calls := k\<rparr>))"
proof (induction j arbitrary: s)
  case 0
  then show ?case by (subst wait_loop.simps) auto
next
  case (Suc j)
  let ?s = "s\<lparr>wait_calls := wait_calls s + 1\<rparr>"
  have "waitpid os (wait_calls s) = Interrupted" using Suc.prems(2) by (metis add_0_right zero_less_Suc)
  moreover have "\<exists>k. wait_loop os ?s = Some (Running (?s\<lparr>wait_calls := k\<rparr>))"
    by (rule Suc.IH) (use Suc.prems in auto)
  ultimately show ?case by (subst wait_loop.simps) auto
qed

lemma wait_each_ok:
  assumes "os_works os"
  shows "\<exists>k. wait_each os ps s = Some (Running (s\<lparr>wait_calls := k\<rparr>))"
proof (induction ps arbitrary: s)
  case (Cons p ps)
  obtain j where "waitpid os (wait_calls s + j) = Reaped" "\<forall>i < j. waitpid os (wait_calls s + i) = Interrupted"
    using assms unfolding os_works_def by blast
  then obtain k where "wait_loop os s = Some (Running (s\<lparr>wait_calls := k\<rparr>))" using wait_loop_ok by blast
  then show ?case using Cons[of "s\<lparr>wait_calls := k\<rparr>"] by (auto simp: andThen_def)
next
  case Nil
  have "s = s\<lparr>wait_calls := wait_calls s\<rparr>" by simp
  then show ?case by (metis wait_each.simps(1))
qed

lemma wait_ok:
  assumes "os_works os" "finish_children os s = Some s1"
  shows "\<exists>k. waitForAllChildProcesses os s = Some (Running (s1\<lparr>wait_calls := k, child_pids := []\<rparr>))"
  using wait_each_ok[OF assms(1), of "child_pids s1" s1] assms(2)
  by (auto simp: waitForAllChildProcesses_def andThen_def)

lemma tokens_trim: "trim c \<noteq> [] \<Longrightarrow> tokens (trim c) \<noteq> []"
proof -
  assume ne: "trim c \<noteq> []"
  define u where "u = dropWhile isspace c"
  have t: "trim c = rev (dropWhile isspace (rev u))" by (simp add: trim_eq u_def)
  have "u = rev (dropWhile isspace (rev u)) @ rev (takeWhile isspace (rev u))"
    by (metis rev_append rev_rev_ident takeWhile_dropWhile_id)
  then have "hd (trim c) = hd u" using ne t by (metis hd_append2)
  moreover have "u \<noteq> []" using ne t by auto
  then have "\<not> isspace (hd u)" unfolding u_def by (rule hd_dropWhile)
  ultimately have "hd (trim c) \<noteq> CHR '' ''" by (auto simp: isspace_def)
  then have "strtok (CHR '' '') (trim c) \<noteq> None" using ne by (cases "trim c") (auto simp: strtok_def Let_def)
  then show ?thesis using tokens_strtok[of "trim c"] by auto
qed

lemma plain_command_runs:
  assumes os: "os_works os" and pc: "plain_command c" and q: "queue_ok (history s)"
    and room: "length (child_pids s) < MAX_PROCESS_COUNT"
  shows "\<exists>h pid. executeCommand os c s = Some (Running (s\<lparr>history := h, child_pids := child_pids s @ [pid],
      forks := forks s + 1, running := running s @ [next_child s c]\<rparr>))
    \<and> queue_ok h \<and> contents h = contents (history s) @ [trim c]"
proof -
  obtain h where h: "enqueue (trim c) (history s) = Some h" "queue_ok h" "contents h = contents (history s) @ [trim c]"
    using history.enq_ok[OF q] by blast
  obtain pid where pid: "fork os (forks s) = Some pid" using os unfolding os_works_def by blast
  have pc': "trim c \<noteq> []" "parseCommand (trim c) = Some (tokens (trim c))"
    "first_word (trim c) \<noteq> ''cd''" "first_word (trim c) \<noteq> ''quit''"
    using pc by (auto simp: plain_command_def parseCommand_def parse_loop_eq MAX_ARGS_COUNT_def)
  note tk = tokens_trim[OF pc'(1)]
  have eh: "executeHistory (s\<lparr>history := h, child_pids := p, forks := f\<rparr>) = Some (numbered 0 (contents (history s) @ [trim c]))" for p f
    using executeHistory_eq[of "s\<lparr>history := h, child_pids := p, forks := f\<rparr>"] h by simp
  show ?thesis
    using h pid pc' tk room eh
    by (auto simp: executeCommand_def createChildProcess_def start_child_def child_of_def next_child_def
      command_child_def copyBufferToProcessInput_def andThen_def Let_def)
qed

text \<open>Waiting for the one child of a stage.\<close>

lemma finish_one:
  assumes os: "os_works os" and r: "running s = [ch]" "pipe_data s = []"
    and i: "\<forall>x. input ch = Some x \<longrightarrow> length x \<le> PIPE_CAPACITY"
    and o: "to_pipe ch \<longrightarrow> length (child_output os ch) \<le> PIPE_CAPACITY"
  shows "finish_children os s = Some (s\<lparr>pipe_data := (if to_pipe ch then child_output os ch else []),
    terminal := terminal s @ (if to_pipe ch then [] else [child_output os ch]),
    finished := finished s @ [ch], running := []\<rparr>)"
  using assms by (auto simp: finish_children_def os_works_def Let_def split: option.splits)

lemma blank_free: "passes_on os ch \<Longrightarrow> cstr (child_output os ch) = child_output os ch"
  by (auto simp: passes_on_def cstr_def takeWhile_eq_all_conv)

text \<open>One stage: the command starts its child and the shell waits for it.\<close>

lemma stage_step:
  assumes os: "os_works os" and pc: "plain_command c" and idle: "idle s" and ch: "ch = next_child s c"
    and lim: "\<forall>x. input ch = Some x \<longrightarrow> length x \<le> PIPE_CAPACITY"
      "to_pipe ch \<longrightarrow> length (child_output os ch) \<le> PIPE_CAPACITY"
  obtains s1 h f k where "executeCommand os c s = Some (Running s1)"
    "waitForAllChildProcesses os s1 = Some (Running (s\<lparr>history := h, forks := f, wait_calls := k,
       pipe_data := (if to_pipe ch then child_output os ch else []),
       terminal := terminal s @ (if to_pipe ch then [] else [child_output os ch]),
       finished := finished s @ [ch]\<rparr>))"
    "queue_ok h" "contents h = contents (history s) @ [trim c]"
proof -
  have i: "queue_ok (history s)" "child_pids s = []" "running s = []" "pipe_data s = []"
    using idle by (auto simp: idle_def)
  obtain h pid where e: "executeCommand os c s = Some (Running (s\<lparr>history := h,
      child_pids := [pid], forks := forks s + 1, running := [ch]\<rparr>))" "queue_ok h"
    "contents h = contents (history s) @ [trim c]"
    using plain_command_runs[OF os pc i(1)] i unfolding ch by auto
  let ?s1 = "s\<lparr>history := h, child_pids := [pid], forks := forks s + 1, running := [ch]\<rparr>"
  have f: "finish_children os ?s1 = Some (?s1\<lparr>pipe_data := (if to_pipe ch then child_output os ch else []),
      terminal := terminal s @ (if to_pipe ch then [] else [child_output os ch]),
      finished := finished s @ [ch], running := []\<rparr>)"
    using finish_one[OF os, of ?s1 ch] i(4) lim by simp
  obtain k where w: "waitForAllChildProcesses os ?s1 = Some (Running (?s1\<lparr>
      pipe_data := (if to_pipe ch then child_output os ch else []),
      terminal := terminal s @ (if to_pipe ch then [] else [child_output os ch]),
      finished := finished s @ [ch], running := [], wait_calls := k, child_pids := []\<rparr>))"
    using wait_ok[OF os f] by blast
  have "waitForAllChildProcesses os ?s1 = Some (Running (s\<lparr>history := h, forks := forks s + 1, wait_calls := k,
       pipe_data := (if to_pipe ch then child_output os ch else []),
       terminal := terminal s @ (if to_pipe ch then [] else [child_output os ch]),
       finished := finished s @ [ch]\<rparr>))"
    using w i by (cases s) simp
  from that[OF e(1) this e(2,3)] show thesis .
qed

text \<open>A stage that is not the last leaves its output in the buffer, the last one on the terminal.\<close>

lemma stage_between:
  assumes os: "os_works os" and pc: "plain_command c" and idle: "idle s" and i: "i < n"
    and ch: "ch = next_child (set_flags n i s) c" and out: "passes_on os ch"
    and inp: "\<forall>x. input ch = Some x \<longrightarrow> length x \<le> PIPE_CAPACITY"
  obtains s' where "run_blocks os n i ([c] # b # bs) s = run_blocks os n (Suc i) (b # bs) s'" "idle s'"
    "output_buffer s' = child_output os ch" "finished s' = finished s @ [ch]" "terminal s' = terminal s"
    "contents (history s') = contents (history s) @ [trim c]" "cwd s' = cwd s"
proof -
  have tp: "to_pipe ch" using i by (simp add: ch next_child_def command_child_def)
  have "idle (set_flags n i s)" using idle by (simp add: idle_def)
  then obtain s1 h f k where e: "executeCommand os c (set_flags n i s) = Some (Running s1)"
    "waitForAllChildProcesses os s1 = Some (Running ((set_flags n i s)\<lparr>history := h, forks := f, wait_calls := k,
       pipe_data := (if to_pipe ch then child_output os ch else []),
       terminal := terminal (set_flags n i s) @ (if to_pipe ch then [] else [child_output os ch]),
       finished := finished (set_flags n i s) @ [ch]\<rparr>))"
    "queue_ok h" "contents h = contents (history (set_flags n i s)) @ [trim c]"
    by (rule stage_step[OF os pc _ ch inp]) (use out in \<open>auto simp: passes_on_def\<close>)
  let ?s = "(set_flags n i s)\<lparr>history := h, forks := f, wait_calls := k, terminal := terminal s,
      finished := finished s @ [ch], output_buffer := child_output os ch, pipe_data := []\<rparr>"
  have "run_blocks os n i ([c] # b # bs) s = run_blocks os n (Suc i) (b # bs) ?s"
    using e(1,2) out tp by (simp add: andThen_def copyProcessOutputToBuffer_def passes_on_def Let_def min_def)
  then show thesis by (rule that) (use e(3,4) idle in \<open>simp_all add: idle_def\<close>)
qed

lemma stage_last:
  assumes os: "os_works os" and pc: "plain_command c" and idle: "idle s"
    and ch: "ch = next_child (set_flags n n s) c" and inp: "\<forall>x. input ch = Some x \<longrightarrow> length x \<le> PIPE_CAPACITY"
  obtains s' where "run_blocks os n n [[c]] s = Some (Running s')" "idle s'" "finished s' = finished s @ [ch]"
    "terminal s' = terminal s @ [child_output os ch]" "contents (history s') = contents (history s) @ [trim c]"
    "cwd s' = cwd s"
proof -
  have tp: "\<not> to_pipe ch" by (simp add: ch next_child_def command_child_def)
  have "idle (set_flags n n s)" using idle by (simp add: idle_def)
  then obtain s1 h f k where e: "executeCommand os c (set_flags n n s) = Some (Running s1)"
    "waitForAllChildProcesses os s1 = Some (Running ((set_flags n n s)\<lparr>history := h, forks := f, wait_calls := k,
       pipe_data := (if to_pipe ch then child_output os ch else []),
       terminal := terminal (set_flags n n s) @ (if to_pipe ch then [] else [child_output os ch]),
       finished := finished (set_flags n n s) @ [ch]\<rparr>))"
    "queue_ok h" "contents h = contents (history (set_flags n n s)) @ [trim c]"
    by (rule stage_step[OF os pc _ ch inp]) (use tp in \<open>auto simp: passes_on_def\<close>)
  let ?s = "(set_flags n n s)\<lparr>history := h, forks := f, wait_calls := k,
      terminal := terminal s @ [child_output os ch], finished := finished s @ [ch], pipe_data := [],
      is_last_block := False, is_first_block := True\<rparr>"
  show thesis
    by (rule that[of ?s]) (use e idle tp in \<open>simp_all add: idle_def andThen_def resetLineInfo_def\<close>)
qed

lemma pipeline_blocks:
  assumes os: "os_works os" and n: "n = i + length cs"
    and pc: "\<forall>d \<in> set (c # cs). plain_command d"
    and po: "\<forall>ch \<in> set (butlast (stages os (contents (history s)) inp (c # cs))). passes_on os ch"
    and idle: "idle s" and inp: "inp = (if i = 0 then None else Some (cstr (output_buffer s)))"
      "\<forall>x. inp = Some x \<longrightarrow> length x \<le> PIPE_CAPACITY"
  shows "\<exists>s'. run_blocks os n i (map (\<lambda>c. [c]) (c # cs)) s = Some (Running s') \<and> idle s'
    \<and> finished s' = finished s @ stages os (contents (history s)) inp (c # cs)
    \<and> terminal s' = terminal s @ [child_output os (last (stages os (contents (history s)) inp (c # cs)))]
    \<and> contents (history s') = contents (history s) @ map trim (c # cs) \<and> cwd s' = cwd s"
  using n pc po idle inp
proof (induction cs arbitrary: c i inp s)
  case (Cons d ds)
  define ch where "ch = next_child (set_flags n i s) c"
  let ?rest = "stages os (contents (history s) @ [trim c]) (Some (child_output os ch)) (d # ds)"
  have ch: "ch = command_child (contents (history s)) inp True c"
    using Cons.prems(1,5) by (simp add: ch_def next_child_def)
  then have st: "stages os (contents (history s)) inp (c # d # ds) = ch # ?rest"
    by (subst stages.simps(2)) (simp only: Let_def list.simps simp_thms)
  have ne: "?rest \<noteq> []" by (simp add: Let_def)
  have po: "passes_on os ch" "\<forall>x \<in> set (butlast ?rest). passes_on os x"
    using Cons.prems(3) ne unfolding st by simp_all
  have "plain_command c" "i < n" "\<forall>x. input ch = Some x \<longrightarrow> length x \<le> PIPE_CAPACITY"
    using Cons.prems by (simp_all add: ch command_child_def)
  then obtain s' where r: "run_blocks os n i ([c] # [d] # map (\<lambda>c. [c]) ds) s = run_blocks os n (Suc i) ([d] # map (\<lambda>c. [c]) ds) s'"
    "idle s'" "output_buffer s' = child_output os ch" "finished s' = finished s @ [ch]" "terminal s' = terminal s"
    "contents (history s') = contents (history s) @ [trim c]" "cwd s' = cwd s"
    using stage_between[OF os _ Cons.prems(4) _ ch_def po(1)] by blast
  have "\<exists>s''. run_blocks os n (Suc i) (map (\<lambda>c. [c]) (d # ds)) s' = Some (Running s'') \<and> idle s''
    \<and> finished s'' = finished s' @ ?rest \<and> terminal s'' = terminal s' @ [child_output os (last ?rest)]
    \<and> contents (history s'') = contents (history s') @ map trim (d # ds) \<and> cwd s'' = cwd s'"
    unfolding r(6)[symmetric]
    by (rule Cons.IH) (use Cons.prems(1,2) po r blank_free[OF po(1)] in \<open>simp_all add: passes_on_def del: stages.simps\<close>)
  then show ?case using r ne unfolding st by auto
next
  case Nil
  define ch where "ch = next_child (set_flags n i s) c"
  have ch: "ch = command_child (contents (history s)) inp False c" and i: "i = n"
    using Nil.prems by (simp_all add: ch_def next_child_def)
  have "plain_command c" "\<forall>x. input ch = Some x \<longrightarrow> length x \<le> PIPE_CAPACITY"
    using Nil.prems by (simp_all add: ch command_child_def)
  from stage_last[OF os this(1) Nil.prems(4) ch_def[unfolded i] this(2)] show ?case
    by (simp add: i ch[symmetric]) blast
qed

lemma join_last:
  assumes "cmds \<noteq> []" "last cmds \<noteq> []"
  shows "join_on d cmds \<noteq> []" "last (join_on d cmds) = last (last cmds)"
  using assms by (induction d cmds rule: join_on.induct) auto

lemma pipe_count_join:
  "\<forall>c \<in> set cmds. CHR ''|'' \<notin> set c \<Longrightarrow> pipe_count (join_on (CHR ''|'') cmds) = length cmds - 1"
  by (induction "CHR ''|''" cmds rule: join_on.induct) (auto simp: pipe_count_def filter_empty_conv)

lemma trim_blank: "trim c \<noteq> [] \<Longrightarrow> c \<noteq> []"
  using trim_Nil by auto

text \<open>C18. When each command but the last prints something, no more than a pipe holds and no zero byte
  (\<open>passes_on\<close>; a silent one hangs the shell, C38), a pipeline of plain commands computes the composition of its
  programs: each is started with its arguments and the output of the one before as its input, in order; the output
  of the last goes to the terminal; every child is waited for and the commands are added to the history.\<close>

theorem pipeline_composes:
  assumes "os_works os" "cmds \<noteq> []" "\<forall>c \<in> set cmds. plain_command c \<and> set c \<inter> {CHR '';'', CHR ''|''} = {}"
    and "\<forall>ch \<in> set (butlast (stages os (contents (history s)) None cmds)). passes_on os ch"
    and "queue_ok (history s)" "child_pids s = []" "running s = []"
  shows "\<exists>s'. executeLine os (join_on (CHR ''|'') cmds) s = Some (Running s')
    \<and> finished s' = finished s @ stages os (contents (history s)) None cmds
    \<and> terminal s' = terminal s @ [child_output os (last (stages os (contents (history s)) None cmds))]
    \<and> contents (history s') = contents (history s) @ map trim cmds
    \<and> child_pids s' = [] \<and> running s' = [] \<and> cwd s' = cwd s"
proof -
  let ?l = "join_on (CHR ''|'') cmds"
  obtain c cs where c: "cmds = c # cs" using assms(2) by (cases cmds) auto
  have pl: "CHR ''|'' \<notin> set d" "CHR '';'' \<notin> set d" "d \<noteq> []" if "d \<in> set cmds" for d
    using assms(3) that trim_blank by (auto simp: plain_command_def)
  have l: "last cmds \<in> set cmds" using assms(2) by simp
  then have "last (last cmds) \<noteq> CHR ''|''" using pl[OF l] last_in_set by metis
  then have ne: "?l \<noteq> []" "last ?l \<noteq> CHR ''|''" using join_last[OF assms(2) pl(3)[OF l]] by auto
  have "map (split_on (CHR '';'')) cmds = map (\<lambda>c. [c]) cmds"
    using pl(2) by (simp add: split_plain)
  then have bl: "blocks_of ?l = map (\<lambda>c. [c]) (c # cs)"
    using split_join[OF assms(2)] pl(1) c by (simp add: blocks_of_def)
  have pc: "pipe_count ?l = 0 + length cs" using pipe_count_join[of cmds] pl(1) c by simp
  have po: "pipe_ok os (pipes s)" using assms(1) by (simp add: os_works_def)
  let ?s = "s\<lparr>pipes := pipes s + 1, pipe_data := []\<rparr>"
  have "executeLine os ?l s = run_blocks os (pipe_count ?l) 0 (blocks_of ?l) ?s"
    using line_loop_blocks[of ?l "[]" os "pipe_count ?l" 0] ne po by (simp add: executeLine_def)
  then have ex: "executeLine os ?l s = run_blocks os (0 + length cs) 0 (map (\<lambda>c. [c]) (c # cs)) ?s"
    unfolding bl pc .
  have "\<exists>s'. run_blocks os (0 + length cs) 0 (map (\<lambda>c. [c]) (c # cs)) ?s = Some (Running s') \<and> idle s'
    \<and> finished s' = finished ?s @ stages os (contents (history s)) None (c # cs)
    \<and> terminal s' = terminal ?s @ [child_output os (last (stages os (contents (history s)) None (c # cs)))]
    \<and> contents (history s') = contents (history s) @ map trim (c # cs) \<and> cwd s' = cwd ?s"
    using pipeline_blocks[OF assms(1) refl, where s = ?s and inp = None and i = 0] assms c by (simp add: idle_def)
  then obtain s' where "run_blocks os (0 + length cs) 0 (map (\<lambda>c. [c]) (c # cs)) ?s = Some (Running s')"
    "finished s' = finished s @ stages os (contents (history s)) None cmds"
    "terminal s' = terminal s @ [child_output os (last (stages os (contents (history s)) None cmds))]"
    "contents (history s') = contents (history s) @ map trim cmds"
    "child_pids s' = []" "running s' = []" "cwd s' = cwd s"
    unfolding c by (auto simp: idle_def)
  then show ?thesis unfolding ex by blast
qed

text \<open>A small system: \<^verbatim>\<open>echo\<close> prints its first argument, \<^verbatim>\<open>true\<close> nothing, other programs copy their input.\<close>

definition toy_os :: shell_os where
  "toy_os = \<lparr>fork = (\<lambda>k. Some (100 + int k)), waitpid = (\<lambda>k. if k = 0 then Interrupted else Reaped),
     pipe_ok = (\<lambda>_. True), chdir = (\<lambda>_ d. case d of None \<Rightarrow> None | Some p \<Rightarrow> if p = ''/tmp'' then Some p else None),
     execvp = (\<lambda>args inp. if hd args = ''echo'' then args ! 1 else if hd args = ''true'' then []
                 else (case inp of None \<Rightarrow> [] | Some x \<Rightarrow> x)),
     mix = concat\<rparr>"

lemma toy_works: "os_works toy_os"
proof -
  have "\<exists>j. waitpid toy_os (k + j) = Reaped \<and> (\<forall>i < j. waitpid toy_os (k + i) = Interrupted)" for k
  proof (cases "k = 0")
    case True
    then show ?thesis by (intro exI[of _ 1]) (simp add: toy_os_def)
  next
    case False
    then show ?thesis by (intro exI[of _ 0]) (simp add: toy_os_def)
  qed
  then show ?thesis by (simp add: os_works_def toy_os_def)
qed

lemma initial_facts:
  "queue_ok (history initial_shell)" "contents (history initial_shell) = []"
  "child_pids initial_shell = []" "running initial_shell = []" "finished initial_shell = []"
  "terminal initial_shell = []" "pipes initial_shell = 0"
  by (simp_all add: initial_shell_def createQueue_ok)

lemma toy_texts:
  "trim ''echo hi '' = ''echo hi''" "trim '' cat'' = ''cat''" "trim ''true'' = ''true''"
  "tokens ''echo hi'' = [''echo'', ''hi'']" "tokens ''cat'' = [''cat'']" "tokens ''true'' = [''true'']"
  "first_word ''echo hi'' = ''echo''" "first_word ''cat'' = ''cat''" "first_word ''true'' = ''true''"
  by (simp_all add: trim_eq isspace_def tokens_def first_word_def)

theorem executeLine_blocks_witness:
  "executeLine toy_os ''true;echo hi|cat'' initial_shell =
     run_blocks toy_os 1 0 [[''true'', ''echo hi''], [''cat'']] (initial_shell\<lparr>pipes := 1, pipe_data := []\<rparr>)"
proof -
  have "pipe_count ''true;echo hi|cat'' = 1" by (simp add: pipe_count_def)
  moreover have "blocks_of ''true;echo hi|cat'' = [[''true'', ''echo hi''], [''cat'']]"
  proof -
    have "blocks_of ''cat'' = [[''cat'']]" by (rule plain_split(3)) simp
    moreover have "blocks_of (''echo hi'' @ CHR ''|'' # ''cat'') = [''echo hi''] # blocks_of ''cat''"
      by (rule plain_split(2)) simp
    moreover have "blocks_of (''true'' @ CHR '';'' # ''echo hi|cat'')
        = (''true'' # hd (blocks_of ''echo hi|cat'')) # tl (blocks_of ''echo hi|cat'')"
      by (rule plain_split(1)) simp
    ultimately have "blocks_of (''true'' @ CHR '';'' # ''echo hi|cat'') = [[''true'', ''echo hi''], [''cat'']]"
      by simp
    then show ?thesis by simp
  qed
  moreover have "executeLine toy_os ''true;echo hi|cat'' initial_shell =
      run_blocks toy_os (pipe_count ''true;echo hi|cat'') 0 (blocks_of ''true;echo hi|cat'')
        (initial_shell\<lparr>pipes := pipes initial_shell + 1, pipe_data := []\<rparr>)"
    by (rule executeLine_blocks) (simp_all add: toy_os_def)
  ultimately show ?thesis by (simp only: initial_facts add_0)
qed

theorem pipeline_composes_witness:
  "\<exists>s'. executeLine toy_os ''echo hi | cat'' initial_shell = Some (Running s')
     \<and> terminal s' = [''hi''] \<and> contents (history s') = [''echo hi'', ''cat'']"
proof -
  have "\<exists>s'. executeLine toy_os (join_on (CHR ''|'') [''echo hi '', '' cat'']) initial_shell = Some (Running s')
    \<and> finished s' = finished initial_shell
        @ stages toy_os (contents (history initial_shell)) None [''echo hi '', '' cat'']
    \<and> terminal s' = terminal initial_shell @ [child_output toy_os
        (last (stages toy_os (contents (history initial_shell)) None [''echo hi '', '' cat'']))]
    \<and> contents (history s') = contents (history initial_shell) @ map trim [''echo hi '', '' cat'']
    \<and> child_pids s' = [] \<and> running s' = [] \<and> cwd s' = cwd initial_shell"
    by (rule pipeline_composes[OF toy_works])
      (simp_all add: initial_facts plain_command_def toy_texts Let_def passes_on_def child_output_def
        command_child_def toy_os_def)
  then show ?thesis
    by (auto simp: initial_facts toy_texts Let_def child_output_def command_child_def toy_os_def)
qed

section \<open>When the shell hangs and when it leaves\<close>

lemma first_stage_stuck:
  assumes "os_works os" "plain_command c" "set c \<inter> {CHR '';'', CHR ''|''} = {}"
    and "queue_ok (history s)" "child_pids s = []" "running s = []"
    and "child_output os (command_child (contents (history s)) None True c) = []"
  shows "executeLine os (c @ CHR ''|'' # rest) s = None"
proof -
  define n where "n = pipe_count (c @ CHR ''|'' # rest)"
  have n: "n \<noteq> 0" by (simp add: n_def pipe_count_def)
  let ?t = "set_flags n 0 (s\<lparr>pipes := pipes s + 1, pipe_data := []\<rparr>)"
  have loop: "line_loop os n 0 seg (d @ CHR ''|'' # rest) t = line_loop os n 0 (seg @ d) (CHR ''|'' # rest) t"
    if "set d \<inter> {CHR '';'', CHR ''|''} = {}" "set_flags n 0 t = t \<or> d = []" for seg d t
    using that
  proof (induction d arbitrary: seg t)
    case (Cons x xs)
    then show ?case by (auto simp: Let_def)
  qed simp
  have c: "c \<noteq> []" using assms(2) trim_blank by (auto simp: plain_command_def)
  have "executeLine os (c @ CHR ''|'' # rest) s = line_loop os n 0 [] (c @ CHR ''|'' # rest) (s\<lparr>pipes := pipes s + 1, pipe_data := []\<rparr>)"
    using assms(1) by (simp add: executeLine_def n_def os_works_def)
  also have "\<dots> = line_loop os n 0 [] (c @ CHR ''|'' # rest) ?t"
    using c by (cases c) (simp_all add: Let_def)
  also have "\<dots> = line_loop os n 0 c (CHR ''|'' # rest) ?t" using loop[of c ?t "[]"] assms(3) by simp
  finally have code: "executeLine os (c @ CHR ''|'' # rest) s = andThen (executeCommand os c)
      (andThen (waitForAllChildProcesses os)
        (andThen copyProcessOutputToBuffer (line_loop os n (Suc 0) [] rest))) ?t"
    by (simp add: Let_def)
  define ch where "ch = next_child ?t c"
  have ch: "to_pipe ch" "child_output os ch = []" "input ch = None"
    using n assms(7) by (simp_all add: ch_def next_child_def command_child_def)
  have "idle ?t" using assms(4-6) by (simp add: idle_def)
  then obtain s1 h f k where e: "executeCommand os c ?t = Some (Running s1)"
    "waitForAllChildProcesses os s1 = Some (Running (?t\<lparr>history := h, forks := f, wait_calls := k,
       pipe_data := (if to_pipe ch then child_output os ch else []),
       terminal := terminal ?t @ (if to_pipe ch then [] else [child_output os ch]),
       finished := finished ?t @ [ch]\<rparr>))"
    by (rule stage_step[OF assms(1,2) _ ch_def]) (use ch in simp_all)
  show ?thesis
    unfolding code using e ch by (simp add: andThen_def copyProcessOutputToBuffer_def)
qed



text \<open>The built-in \<^verbatim>\<open>history\<close> is such a command as well: its lines stay in the buffer of the child unless they
  are longer than the buffer.\<close>

theorem history_in_pipe_hangs:
  assumes "os_works os" "queue_ok (history s)" "child_pids s = []" "running s = []"
    and "length (concat (map (\<lambda>l. l @ [CHR 0x0A]) (numbered 0 (contents (history s) @ [''history''])))) \<le> STDIO_BUFSIZE"
  shows "executeLine os (''history'' @ CHR ''|'' # rest) s = None"
proof (rule first_stage_stuck[OF assms(1) _ _ assms(2-4)])
  have t: "trim ''history'' = ''history''" "tokens ''history'' = [''history'']" "first_word ''history'' = ''history''"
    by code_simp+
  show "plain_command ''history''" by (simp add: plain_command_def t)
  show "child_output os (command_child (contents (history s)) None True ''history'') = []"
    using assms(5) by (auto simp: child_output_def command_child_def t flushed_def STDIO_BUFSIZE_def Let_def)
qed simp

theorem history_in_pipe_hangs_witness: "executeLine toy_os ''history|cat'' initial_shell = None"
  using history_in_pipe_hangs[OF toy_works, of initial_shell "''cat''"] initial_facts
  by (simp add: STDIO_BUFSIZE_def pad_def show_nat.simps)

text \<open>A \<^verbatim>\<open>cd\<close> that fails, and a \<^verbatim>\<open>cd\<close> without a directory, end the shell; one that succeeds only
  changes the directory and the history.\<close>

theorem cd_behaviour:
  assumes "first_word (trim c) = ''cd''" "length (tokens (trim c)) < 64" "queue_ok (history s)"
  shows "\<exists>h. queue_ok h \<and> contents h = contents (history s) @ [trim c] \<and> executeCommand os c s =
    (case chdir os (cwd s) (if length (tokens (trim c)) > 1 then Some (tokens (trim c) ! 1) else None) of
       None \<Rightarrow> Some (Exited 1 (report ''chdir'' (s\<lparr>history := h\<rparr>)))
     | Some d \<Rightarrow> Some (Running (s\<lparr>history := h, cwd := d\<rparr>)))"
proof -
  obtain h where h: "enqueue (trim c) (history s) = Some h" "queue_ok h" "contents h = contents (history s) @ [trim c]"
    using history.enq_ok[OF assms(3)] by blast
  have "trim c \<noteq> []" using assms(1) by (auto simp: first_word_def)
  moreover have "parseCommand (trim c) = Some (tokens (trim c))"
    using assms(2) by (simp add: parseCommand_def parse_loop_eq MAX_ARGS_COUNT_def)
  ultimately have "executeCommand os c s =
    (case chdir os (cwd s) (if length (tokens (trim c)) > 1 then Some (tokens (trim c) ! 1) else None) of
       None \<Rightarrow> Some (Exited 1 (report ''chdir'' (s\<lparr>history := h\<rparr>)))
     | Some d \<Rightarrow> Some (Running (s\<lparr>history := h, cwd := d\<rparr>)))"
    using h(1) assms(1) by (simp add: executeCommand_def failure_def Let_def split: option.splits)
  with h show ?thesis by blast
qed

theorem cd_behaviour_witness:
  "\<exists>s. executeCommand toy_os ''cd'' initial_shell = Some (Exited 1 s) \<and> contents (history s) = [''cd'']"
proof -
  have t: "trim ''cd'' = ''cd''" "tokens ''cd'' = [''cd'']" "first_word ''cd'' = ''cd''"
    by (simp_all add: trim_eq isspace_def tokens_def first_word_def)
  show ?thesis
    using cd_behaviour[of "''cd''" initial_shell toy_os] initial_facts t
    by (auto simp: toy_os_def report_def)
qed

text \<open>The table of children is never overrun: a command that returns has added at most one child,
  within the 128 entries; with a full table a program is not started but the shell leaves.\<close>

theorem child_table_bounded:
  assumes "length (child_pids s) \<le> 128" "executeCommand os c s = Some (Running s')"
  shows "length (child_pids s') \<le> 128
    \<and> (child_pids s' = child_pids s \<or> (\<exists>pid. child_pids s' = child_pids s @ [pid]))
    \<and> (plain_command c \<longrightarrow> length (child_pids s) < 128)"
  using assms
  by (auto simp: executeCommand_def createChildProcess_def start_child_def failure_def andThen_def
      bind_Some_iff Let_def plain_command_def split: if_splits option.splits outcome.splits)
    (metis outcome.exhaust)+

theorem child_table_bounded_witness:
  "\<exists>s'. executeCommand toy_os ''cat'' initial_shell = Some (Running s') \<and> length (child_pids s') \<le> 128"
proof -
  have p: "plain_command ''cat''" by (simp add: plain_command_def trim_eq isspace_def tokens_def first_word_def)
  obtain s' where s': "executeCommand toy_os ''cat'' initial_shell = Some (Running s')"
    using plain_command_runs[OF toy_works p, of initial_shell] initial_facts by auto
  then show ?thesis using child_table_bounded[OF _ s'] initial_facts by auto
qed

section \<open>Input\<close>

text \<open>The lines of interactive input, executed one after the other.\<close>

fun run_lines :: "shell_os \<Rightarrow> string list \<Rightarrow> action" where
  "run_lines os [] s = Some (Running s)"
| "run_lines os (l # ls) s = andThen (executeLine os l) (andThen prompt (run_lines os ls)) s"

definition ordinary :: "string \<Rightarrow> bool" where
  "ordinary l \<longleftrightarrow> set l \<inter> {NUL, CHR 0x0A, CHR 0xFF} = {}"

lemma shell_loop_line:
  assumes "ordinary l" "ordinary acc" "length acc + length l \<le> 250"
  shows "shell_loop os acc (l @ CHR 0x0A # cs) s
    = andThen (executeLine os (acc @ l)) (andThen prompt (shell_loop os [] cs)) s"
  using assms
proof (induction l arbitrary: acc)
  case Nil
  then have "cstr acc = acc" by (auto simp: cstr_def ordinary_def takeWhile_eq_all_conv)
  then show ?case using Nil by (simp add: Let_def)
next
  case (Cons c l)
  then have "c \<noteq> CHR 0xFF" "c \<noteq> CHR 0x0A" "ordinary l" "ordinary (acc @ [c])" "length acc \<noteq> LINE_SIZE"
    by (auto simp: ordinary_def)
  then show ?case using Cons.IH[of "acc @ [c]"] Cons.prems by (simp add: Let_def)
qed

text \<open>Interactive input is executed line by line, in order, as long as no line is longer than 250
  characters.\<close>

theorem shellMode_lines:
  assumes "\<forall>l \<in> set ls. ordinary l \<and> length l \<le> 250"
  shows "shellMode os (concat (map (\<lambda>l. l @ [CHR 0x0A]) ls)) s = andThen prompt (run_lines os ls) s"
proof -
  have "shell_loop os [] (concat (map (\<lambda>l. l @ [CHR 0x0A]) ls)) = run_lines os ls"
    using assms
  proof (induction ls)
    case Nil
    show ?case by (rule ext) simp
  next
    case (Cons l ls)
    show ?case
    proof (rule ext)
      fix s
      show "shell_loop os [] (concat (map (\<lambda>l. l @ [CHR 0x0A]) (l # ls))) s = run_lines os (l # ls) s"
        using Cons shell_loop_line[of l "[]" os _ s] by (simp add: ordinary_def)
    qed
  qed
  then show ?thesis by (simp add: shellMode_def)
qed

theorem shellMode_lines_witness:
  "shellMode toy_os (''echo hi|cat'' @ [CHR 0x0A]) initial_shell
     = andThen prompt (run_lines toy_os [''echo hi|cat'']) initial_shell"
  using shellMode_lines[of "[''echo hi|cat'']" toy_os initial_shell] by (simp add: ordinary_def)

text \<open>Of a line of 251 to 500 characters the shell reports the length and discards the first 251
  characters, but it executes what is left of it as a command.\<close>

theorem long_line_tail_executed:
  assumes "ordinary l" "251 < length l" "length l \<le> 501"
  shows "shell_loop os [] (l @ CHR 0x0A # cs) s
    = andThen (executeLine os (drop 251 l)) (andThen prompt (shell_loop os [] cs))
        (report ''Discarding the input'' (report ''Error: Command too long'' s))"
proof -
  have fill: "shell_loop os acc (a @ x) s = shell_loop os (acc @ a) x s"
    if "ordinary a" "length acc + length a \<le> 251" "a \<noteq> [] \<longrightarrow> length acc < 251" for acc a x
    using that
  proof (induction a arbitrary: acc)
    case (Cons c a)
    then have "c \<noteq> CHR 0xFF" "c \<noteq> CHR 0x0A" "ordinary a" by (auto simp: ordinary_def)
    then show ?case using Cons.IH[of "acc @ [c]"] Cons.prems by (cases a) (auto simp: Let_def)
  qed simp
  define a where "a = take 251 l"
  obtain c d where d: "drop 251 l = c # d" using assms(2) by (cases "drop 251 l") auto
  have l: "l = a @ c # d" using d append_take_drop_id[of 251 l] by (simp add: a_def)
  have o: "ordinary a" "ordinary (c # d)" using assms(1) l by (auto simp: ordinary_def)
  have la: "length a = 251" using assms(2) by (simp add: a_def)
  have ld: "length d \<le> 249" using arg_cong[OF d, of length] assms(3) by simp
  have "shell_loop os [] (l @ CHR 0x0A # cs) s = shell_loop os a (c # d @ CHR 0x0A # cs) s"
    using fill[of a "[]" "c # d @ CHR 0x0A # cs"] o la l by simp
  also have "\<dots> = shell_loop os [c] (d @ CHR 0x0A # cs)
      (report ''Discarding the input'' (report ''Error: Command too long'' s))"
    using o(2) la by (auto simp: Let_def ordinary_def)
  also have "\<dots> = andThen (executeLine os ([c] @ d)) (andThen prompt (shell_loop os [] cs))
      (report ''Discarding the input'' (report ''Error: Command too long'' s))"
    by (rule shell_loop_line) (use o ld in \<open>auto simp: ordinary_def\<close>)
  finally show ?thesis using d by simp
qed

theorem long_line_tail_executed_witness:
  "shell_loop toy_os [] (replicate 251 (CHR ''x'') @ ''quit'' @ CHR 0x0A # []) initial_shell
    = andThen (executeLine toy_os ''quit'') (andThen prompt (shell_loop toy_os [] []))
        (report ''Discarding the input'' (report ''Error: Command too long'' initial_shell))"
  using long_line_tail_executed[of "replicate 251 (CHR ''x'') @ ''quit''" toy_os "[]" initial_shell]
  by (simp add: ordinary_def)

text \<open>The pieces in which \<^verbatim>\<open>fgets\<close> hands a file to the shell.\<close>

function pieces :: "string \<Rightarrow> string list" where
  "pieces file = (if file = [] then [] else fst (fgets LINE_SIZE file) # pieces (snd (fgets LINE_SIZE file)))"
  by auto
termination
  by (relation "measure length") (simp_all only: in_measure wf_measure, rule fgets_shorter)

declare pieces.simps [simp del]

fun run_pieces :: "shell_os \<Rightarrow> string list \<Rightarrow> action" where
  "run_pieces os [] s = Some (Running s)"
| "run_pieces os (p # ps) s =
     andThen (executeLine os (cstr p)) (run_pieces os ps) (report (''Executing: '' @ cstr p) s)"

lemma fgets_piece:
  "length (fst (fgets n s)) \<le> n - 1
    \<and> (CHR 0x0A \<in> set (fst (fgets n s)) \<longrightarrow> last (fst (fgets n s)) = CHR 0x0A
         \<and> CHR 0x0A \<notin> set (butlast (fst (fgets n s))))
    \<and> (CHR 0x0A \<notin> set (fst (fgets n s)) \<longrightarrow> length (fst (fgets n s)) = n - 1 \<or> snd (fgets n s) = [])"
  by (induction n s rule: fgets.induct) auto

text \<open>A batch file is executed piece by piece: the pieces put together are the file, none is
  longer than 250 characters, and a newline only ends a piece, so a longer line is executed as
  several.\<close>

theorem batch_pieces:
  "batch_loop os f s = run_pieces os (pieces f) s \<and> concat (pieces f) = f
    \<and> (\<forall>p \<in> set (pieces f). length p \<le> 250 \<and> CHR 0x0A \<notin> set (butlast p))"
proof (induction f arbitrary: s rule: pieces.induct)
  case (1 f)
  show ?case
  proof (cases "f = []")
    case True
    then show ?thesis by (simp add: batch_loop.simps pieces.simps)
  next
    case False
    obtain p r where pr: "fgets LINE_SIZE f = (p, r)" by fastforce
    have ih: "batch_loop os r = run_pieces os (pieces r)" "concat (pieces r) = r"
      "\<forall>p \<in> set (pieces r). length p \<le> 250 \<and> CHR 0x0A \<notin> set (butlast p)"
      using "1.IH"[OF False] pr by auto
    have "length p \<le> 250 \<and> CHR 0x0A \<notin> set (butlast p)"
      using fgets_piece[of LINE_SIZE f] pr in_set_butlastD[of "CHR 0x0A" p] by auto
    moreover have "p @ r = f" using fgets_split[of LINE_SIZE f] pr by simp
    moreover have "pieces f = p # pieces r" using False pr by (subst pieces.simps) simp
    moreover have "batch_loop os f s = run_pieces os (p # pieces r) s"
      using False pr ih(1) by (subst batch_loop.simps) simp
    ultimately show ?thesis using ih(2,3) by auto
  qed
qed

end
