(* ===== verification/Rio.thy ===== *)
theory Rio
  imports CText
begin

text \<open>
  The robust I/O package of \<^verbatim>\<open>multiThreadedWebServer/blg312e.c\<close>. A descriptor is the list of what
  the system's \<^verbatim>\<open>read\<close> or \<^verbatim>\<open>write\<close> will do: short counts, interruptions, errors, the end of the
  input, or waiting for ever. The buffer \<^verbatim>\<open>rio_t\<close> is a record. A call that never returns is \<open>None\<close>;
  the wrappers end the process through \<^verbatim>\<open>unix_error\<close>.
\<close>

section \<open>The system calls\<close>

datatype read_event = Chunk string | Intr | Fail | Stall

datatype read_result = Got string | Interrupted | Failed

text \<open>\<^verbatim>\<open>read\<close> of at most \<open>k\<close> bytes. A chunk longer than that stays partly unread; an empty chunk, and
  the end of the list, are the end of the file, which a socket keeps reporting.\<close>

fun os_read :: "nat \<Rightarrow> read_event list \<Rightarrow> (read_result \<times> read_event list) option" where
  "os_read k [] = Some (Got [], [])"
| "os_read k (Chunk bs # es) =
     (if bs = [] then Some (Got [], Chunk [] # es)
      else if length bs \<le> k then Some (Got bs, es) else Some (Got (take k bs), Chunk (drop k bs) # es))"
| "os_read k (Intr # es) = Some (Interrupted, es)"
| "os_read k (Fail # es) = Some (Failed, es)"
| "os_read k (Stall # es) = None"

text \<open>What the process does on a failed call: \<^verbatim>\<open>unix_error\<close> prints the message and exits.\<close>

datatype 'a proc = Done 'a | Died string

definition unix_error :: "string \<Rightarrow> 'a proc" where
  "unix_error msg = Died msg"

section \<open>rio_readn\<close>

partial_function (option) rio_readn_loop ::
  "nat \<Rightarrow> string \<Rightarrow> read_event list \<Rightarrow> (string option \<times> read_event list) option" where
  "rio_readn_loop nleft acc es =
     (if nleft = 0 then Some (Some acc, es)
      else do {
        (r, es) \<leftarrow> os_read nleft es;
        case r of
          Interrupted \<Rightarrow> rio_readn_loop nleft acc es
        | Failed \<Rightarrow> Some (None, es)
        | Got bs \<Rightarrow> if bs = [] then Some (Some acc, es)
                    else rio_readn_loop (nleft - length bs) (acc @ bs) es
      })"

declare rio_readn_loop.simps [code]

text \<open>The returned count, \<open>-1\<close> on error, and what is in the user's buffer.\<close>

definition rio_readn :: "nat \<Rightarrow> read_event list \<Rightarrow> (int \<times> string \<times> read_event list) option" where
  "rio_readn n es = do {
     (r, es) \<leftarrow> rio_readn_loop n [] es;
     Some (case r of None \<Rightarrow> (-1, [], es) | Some bs \<Rightarrow> (int (length bs), bs, es))
   }"

section \<open>rio_writen\<close>

datatype write_event = Takes nat | W_Intr | W_Fail

text \<open>\<^verbatim>\<open>write\<close> of the bytes \<open>bs\<close>: how many the system takes, at least one; all of them once the list has ended.\<close>

datatype write_result = Wrote nat | W_interrupted | W_failed

fun os_write :: "string \<Rightarrow> write_event list \<Rightarrow> write_result \<times> write_event list" where
  "os_write bs [] = (Wrote (length bs), [])"
| "os_write bs (Takes k # es) = (Wrote (min (Suc k) (length bs)), es)"
| "os_write bs (W_Intr # es) = (W_interrupted, es)"
| "os_write bs (W_Fail # es) = (W_failed, es)"

lemma os_write_shorter: "os_write bs es = (W_interrupted, es') \<Longrightarrow> length es' < length es"
  by (cases "(bs, es)" rule: os_write.cases) auto

lemma os_write_events: "os_write bs es = (r, es') \<Longrightarrow> length es' \<le> length es"
  by (cases "(bs, es)" rule: os_write.cases) auto

lemma os_write_took: "os_write bs es = (Wrote k, es') \<Longrightarrow> k \<le> length bs \<and> length es' \<le> length es"
  by (cases "(bs, es)" rule: os_write.cases) auto

text \<open>The loop gives the return code, the bytes sent so far and the rest of the descriptor.\<close>

function rio_writen_loop :: "string \<Rightarrow> string \<Rightarrow> write_event list \<Rightarrow> bool \<times> string \<times> write_event list" where
  "rio_writen_loop left sent es =
     (if left = [] then (True, sent, es)
      else case os_write left es of
        (Wrote k, es') \<Rightarrow> if k = 0 then (False, sent, es') else rio_writen_loop (drop k left) (sent @ take k left) es'
      | (W_interrupted, es') \<Rightarrow> rio_writen_loop left sent es'
      | (W_failed, es') \<Rightarrow> (False, sent, es'))"
  by auto

termination
  by (relation "measure (\<lambda>(left, sent, es). length left + length es)")
    (auto dest!: os_write_shorter[OF sym] os_write_took[OF sym] dest: os_write_events)

declare rio_writen_loop.simps [simp del]

definition rio_writen :: "string \<Rightarrow> write_event list \<Rightarrow> int \<times> string \<times> write_event list" where
  "rio_writen bs es = (case rio_writen_loop bs [] es of
     (ok, sent, es') \<Rightarrow> (if ok then int (length bs) else -1, sent, es'))"

section \<open>The buffered reader\<close>

record rio_t =
  rio_cnt :: int
  rio_ptr :: nat
  rio_buf :: string

abbreviation RIO_BUFSIZE :: nat where "RIO_BUFSIZE \<equiv> 8192"
abbreviation MAXLINE :: nat where "MAXLINE \<equiv> 8192"
abbreviation MAXBUF :: nat where "MAXBUF \<equiv> 8192"

definition rio_readinitb :: "rio_t \<Rightarrow> rio_t" where
  "rio_readinitb rp = rp\<lparr>rio_cnt := 0, rio_ptr := 0\<rparr>"

text \<open>The loop that refills the buffer: its outcome is the error, the end of the file, or bytes to copy.\<close>

datatype refill = Refill_error | Refill_eof | Refilled

partial_function (option) rio_refill ::
  "rio_t \<Rightarrow> read_event list \<Rightarrow> (refill \<times> rio_t \<times> read_event list) option" where
  "rio_refill rp es =
     (if rio_cnt rp > 0 then Some (Refilled, rp, es)
      else do {
        (r, es) \<leftarrow> os_read RIO_BUFSIZE es;
        case r of
          Interrupted \<Rightarrow> rio_refill (rp\<lparr>rio_cnt := -1\<rparr>) es
        | Failed \<Rightarrow> Some (Refill_error, rp\<lparr>rio_cnt := -1\<rparr>, es)
        | Got bs \<Rightarrow>
            if bs = [] then Some (Refill_eof, rp\<lparr>rio_cnt := 0\<rparr>, es)
            else rio_refill (rp\<lparr>rio_cnt := int (length bs), rio_buf := bs @ drop (length bs) (rio_buf rp),
                               rio_ptr := 0\<rparr>) es
      })"

declare rio_refill.simps [code]

definition rio_read ::
  "rio_t \<Rightarrow> nat \<Rightarrow> read_event list \<Rightarrow> (int \<times> string \<times> rio_t \<times> read_event list) option" where
  "rio_read rp n es = do {
     (r, rp, es) \<leftarrow> rio_refill rp es;
     case r of
       Refill_error \<Rightarrow> Some (-1, [], rp, es)
     | Refill_eof \<Rightarrow> Some (0, [], rp, es)
     | Refilled \<Rightarrow>
         let cnt = (if rio_cnt rp < int n then nat (rio_cnt rp) else n) in
         Some (int cnt, take cnt (drop (rio_ptr rp) (rio_buf rp)),
               rp\<lparr>rio_ptr := rio_ptr rp + cnt, rio_cnt := rio_cnt rp - int cnt\<rparr>, es)
   }"

partial_function (option) rio_readnb_loop ::
  "rio_t \<Rightarrow> nat \<Rightarrow> string \<Rightarrow> read_event list \<Rightarrow> (string option \<times> rio_t \<times> read_event list) option" where
  "rio_readnb_loop rp nleft acc es =
     (if nleft = 0 then Some (Some acc, rp, es)
      else do {
        (rc, bs, rp, es) \<leftarrow> rio_read rp nleft es;
        if rc < 0 then Some (None, rp, es)
        else if rc = 0 then Some (Some acc, rp, es)
        else rio_readnb_loop rp (nleft - length bs) (acc @ bs) es
      })"

declare rio_readnb_loop.simps [code]

definition rio_readnb :: "rio_t \<Rightarrow> nat \<Rightarrow> read_event list \<Rightarrow> (int \<times> string \<times> rio_t \<times> read_event list) option" where
  "rio_readnb rp n es = do {
     (r, rp, es) \<leftarrow> rio_readnb_loop rp n [] es;
     Some (case r of None \<Rightarrow> (-1, [], rp, es) | Some bs \<Rightarrow> (int (length bs), bs, rp, es))
   }"

text \<open>
  The line reader. The result has the return code and the terminated line, \<open>None\<close> where the code
  returns before it writes the terminating zero.
\<close>

function rio_readline_loop ::
  "nat \<Rightarrow> nat \<Rightarrow> string \<Rightarrow> rio_t \<Rightarrow> read_event list
     \<Rightarrow> (int \<times> string option \<times> rio_t \<times> read_event list) option" where
  "rio_readline_loop maxlen n acc rp es =
     (if n < maxlen then do {
        (rc, c, rp, es) \<leftarrow> rio_read rp 1 es;
        if rc = 1 then
          (if c = [CHR 0x0A] then Some (int n, Some (acc @ c), rp, es)
           else rio_readline_loop maxlen (n + 1) (acc @ c) rp es)
        else if rc = 0 then
          (if n = 1 then Some (0, None, rp, es) else Some (int n, Some acc, rp, es))
        else Some (-1, None, rp, es)
      } else Some (int n, Some acc, rp, es))"
  by auto
termination
  by (relation "measure (\<lambda>(maxlen, n, acc, rp, es). maxlen - n)") auto

declare rio_readline_loop.simps [simp del]

definition rio_readlineb ::
  "rio_t \<Rightarrow> nat \<Rightarrow> read_event list \<Rightarrow> (int \<times> string option \<times> rio_t \<times> read_event list) option" where
  "rio_readlineb rp maxlen es = rio_readline_loop maxlen 1 [] rp es"

section \<open>The wrappers\<close>

definition Rio_readn :: "nat \<Rightarrow> read_event list \<Rightarrow> (int \<times> string \<times> read_event list) proc option" where
  "Rio_readn n es = do { (rc, bs, es) \<leftarrow> rio_readn n es;
     Some (if rc < 0 then unix_error ''Rio_readn error'' else Done (rc, bs, es)) }"

definition Rio_writen :: "string \<Rightarrow> write_event list \<Rightarrow> (string \<times> write_event list) proc" where
  "Rio_writen bs es = (case rio_writen bs es of
     (rc, sent, es') \<Rightarrow> if rc \<noteq> int (length bs) then unix_error ''Rio_writen error'' else Done (sent, es'))"

definition Rio_readnb :: "rio_t \<Rightarrow> nat \<Rightarrow> read_event list \<Rightarrow> (int \<times> string \<times> rio_t \<times> read_event list) proc option" where
  "Rio_readnb rp n es = do { (rc, bs, rp, es) \<leftarrow> rio_readnb rp n es;
     Some (if rc < 0 then unix_error ''Rio_readnb error'' else Done (rc, bs, rp, es)) }"

definition Rio_readlineb ::
  "rio_t \<Rightarrow> nat \<Rightarrow> read_event list \<Rightarrow> (int \<times> string option \<times> rio_t \<times> read_event list) proc option" where
  "Rio_readlineb rp maxlen es = do { (rc, l, rp, es) \<leftarrow> rio_readlineb rp maxlen es;
     Some (if rc < 0 then unix_error ''Rio_readlineb error'' else Done (rc, l, rp, es)) }"

section \<open>What a descriptor delivers\<close>

datatype ending = At_eof | At_error | At_stall

text \<open>The bytes up to the first end of file, error or wait, and which of the three it is.\<close>

fun delivered :: "read_event list \<Rightarrow> string \<times> ending" where
  "delivered [] = ([], At_eof)"
| "delivered (Chunk bs # es) =
     (if bs = [] then ([], At_eof) else (bs @ fst (delivered es), snd (delivered es)))"
| "delivered (Intr # es) = delivered es"
| "delivered (Fail # es) = ([], At_error)"
| "delivered (Stall # es) = ([], At_stall)"

fun weight :: "read_event list \<Rightarrow> nat" where
  "weight [] = 0"
| "weight (Chunk bs # es) = Suc (length bs + weight es)"
| "weight (e # es) = Suc (weight es)"

lemma os_read_none: "os_read k es = None \<Longrightarrow> delivered es = ([], At_stall)"
  by (cases "(k, es)" rule: os_read.cases) (auto split: if_splits)

lemma os_read_some:
  assumes "os_read k es = Some (r, es')" "0 < k"
  shows "case r of
      Got bs \<Rightarrow> if bs = [] then delivered es = ([], At_eof) \<and> delivered es' = ([], At_eof)
        else length bs \<le> k \<and> weight es' < weight es
          \<and> delivered es = (bs @ fst (delivered es'), snd (delivered es'))
    | Interrupted \<Rightarrow> weight es' < weight es \<and> delivered es' = delivered es
    | Failed \<Rightarrow> delivered es = ([], At_error)"
  using assms by (cases "(k, es)" rule: os_read.cases) (auto split: if_splits)

text \<open>
  The contract of the readers of \<open>n\<close> bytes, the unbuffered and the buffered one: \<open>pend\<close> is what the source will
  deliver; each round of the loop takes a part of it, and the loop stops at the end, at an error, or never.
\<close>

locale read_loop =
  fixes ok :: "'s \<Rightarrow> bool" and pend :: "'s \<Rightarrow> string \<times> ending"
    and loop :: "nat \<Rightarrow> string \<Rightarrow> 's \<Rightarrow> (string option \<times> 's) option"
  assumes loop_done: "ok s \<Longrightarrow> loop 0 acc s = Some (Some acc, s)"
    and loop_more: "ok s \<Longrightarrow> 0 < n \<Longrightarrow> fst (pend s) \<noteq> [] \<Longrightarrow>
      \<exists>bs s'. loop n acc s = loop (n - length bs) (acc @ bs) s' \<and> ok s' \<and> 0 < length bs \<and> length bs \<le> n
        \<and> pend s = (bs @ fst (pend s'), snd (pend s'))"
    and loop_eof: "ok s \<Longrightarrow> 0 < n \<Longrightarrow> pend s = ([], At_eof) \<Longrightarrow> \<exists>s'. loop n acc s = Some (Some acc, s')"
    and loop_error: "ok s \<Longrightarrow> 0 < n \<Longrightarrow> pend s = ([], At_error) \<Longrightarrow> \<exists>s'. loop n acc s = Some (None, s')"
    and loop_stall: "ok s \<Longrightarrow> 0 < n \<Longrightarrow> pend s = ([], At_stall) \<Longrightarrow> loop n acc s = None"
begin

lemma reads:
  assumes "ok s"
  shows "case pend s of (bs, e) \<Rightarrow>
     if n \<le> length bs then \<exists>s'. loop n acc s = Some (Some (acc @ take n bs), s') \<and> ok s' \<and> pend s' = (drop n bs, e)
     else case e of
       At_eof \<Rightarrow> \<exists>s'. loop n acc s = Some (Some (acc @ bs), s')
     | At_error \<Rightarrow> \<exists>s'. loop n acc s = Some (None, s')
     | At_stall \<Rightarrow> loop n acc s = None"
  using assms
proof (induction n arbitrary: s acc rule: less_induct)
  case (less n)
  obtain bs e where p: "pend s = (bs, e)" by fastforce
  consider "n = 0" | "0 < n" "bs = []" | (more) "0 < n" "bs \<noteq> []" by blast
  then show ?case
  proof cases
    case more
    obtain as s' where r: "loop n acc s = loop (n - length as) (acc @ as) s'" "ok s'" "0 < length as" "length as \<le> n"
      "bs = as @ fst (pend s')" "e = snd (pend s')"
      using loop_more[OF less.prems more(1)] more(2) p by fastforce
    then show ?thesis using less.IH[OF _ r(2), of "n - length as" "acc @ as"] p
      by (cases "pend s'"; cases e) (auto split: if_splits)
  qed (use p loop_done loop_eof loop_error loop_stall less.prems in \<open>auto split: ending.splits\<close>)
qed

end

lemma rio_readn_loop_Intr: "0 < n \<Longrightarrow> rio_readn_loop n acc (Intr # es) = rio_readn_loop n acc es"
  by (simp add: rio_readn_loop.simps)

lemma rio_readn_loop_more:
  "0 < n \<Longrightarrow> fst (delivered es) \<noteq> [] \<Longrightarrow>
     \<exists>bs es'. rio_readn_loop n acc es = rio_readn_loop (n - length bs) (acc @ bs) es' \<and> 0 < length bs \<and> length bs \<le> n
       \<and> delivered es = (bs @ fst (delivered es'), snd (delivered es'))"
proof (induction es rule: delivered.induct)
  case (2 bs es)
  obtain r es' where r: "os_read n (Chunk bs # es) = Some (r, es')"
    by (cases "bs = []"; cases "length bs \<le> n") auto
  then have g: "r = Got (take n bs)" "bs \<noteq> []" using 2 by (auto split: if_splits)
  have "rio_readn_loop n acc (Chunk bs # es) = rio_readn_loop (n - length (take n bs)) (acc @ take n bs) es'"
    using r g "2.prems" by (subst rio_readn_loop.simps) simp
  then show ?case using os_read_some[OF r "2.prems"(1)] g "2.prems" by (intro exI[of _ "take n bs"] exI[of _ es']) simp
qed (simp_all add: rio_readn_loop_Intr)

lemma rio_readn_loop_ends:
  "0 < n \<Longrightarrow> delivered es = ([], e) \<Longrightarrow> case e of
      At_eof \<Rightarrow> \<exists>es'. rio_readn_loop n acc es = Some (Some acc, es')
    | At_error \<Rightarrow> \<exists>es'. rio_readn_loop n acc es = Some (None, es')
    | At_stall \<Rightarrow> rio_readn_loop n acc es = None"
  by (induction es rule: delivered.induct)
    (auto simp: rio_readn_loop_Intr split: ending.splits, auto simp: rio_readn_loop.simps split: if_splits)

interpretation unbuffered: read_loop "\<lambda>_. True" delivered rio_readn_loop
proof
  fix n :: nat and acc es
  show "rio_readn_loop 0 acc es = Some (Some acc, es)" by (simp add: rio_readn_loop.simps)
  assume n: "0 < n"
  show "fst (delivered es) \<noteq> [] \<Longrightarrow> \<exists>bs es'. rio_readn_loop n acc es = rio_readn_loop (n - length bs) (acc @ bs) es'
      \<and> True \<and> 0 < length bs \<and> length bs \<le> n \<and> delivered es = (bs @ fst (delivered es'), snd (delivered es'))"
    using rio_readn_loop_more[OF n] by simp
  show "delivered es = ([], At_eof) \<Longrightarrow> \<exists>es'. rio_readn_loop n acc es = Some (Some acc, es')"
    "delivered es = ([], At_error) \<Longrightarrow> \<exists>es'. rio_readn_loop n acc es = Some (None, es')"
    "delivered es = ([], At_stall) \<Longrightarrow> rio_readn_loop n acc es = None"
    using rio_readn_loop_ends[OF n] by fastforce+
qed

text \<open>The unbuffered reader reads through short counts and interruptions: it returns exactly the
  first \<open>n\<close> bytes when so many arrive, the shorter input at the end of the file, \<open>-1\<close> on an error, and
  it fails to return only when the input stays silent before that.\<close>

theorem rio_readn_correct:
  "case delivered es of (bs, e) \<Rightarrow>
     if n \<le> length bs then \<exists>es'. rio_readn n es = Some (int n, take n bs, es') \<and> delivered es' = (drop n bs, e)
     else case e of
       At_eof \<Rightarrow> \<exists>es'. rio_readn n es = Some (int (length bs), bs, es')
     | At_error \<Rightarrow> \<exists>es'. rio_readn n es = Some (-1, [], es')
     | At_stall \<Rightarrow> rio_readn n es = None"
  using unbuffered.reads[where s = es and n = n and acc = "[]"]
  by (auto simp: rio_readn_def split: prod.splits if_splits ending.splits)

section \<open>Writing\<close>

lemma rio_writen_loop_spec:
  "rio_writen_loop left sent es = (ok, sent', es') \<Longrightarrow>
     \<exists>k \<le> length left. sent' = sent @ take k left \<and> (if ok then k = length left else k < length left \<and> W_Fail \<in> set es)"
proof (induction left sent es arbitrary: ok sent' es' rule: rio_writen_loop.induct)
  case (1 left sent es)
  show ?case
  proof (cases "left = []")
    case True
    then show ?thesis using 1(3) by (subst (asm) rio_writen_loop.simps) auto
  next
    case ne: False
    obtain r fs where r: "os_write left es = (r, fs)" by fastforce
    have sub: "set fs \<subseteq> set es" "r = W_failed \<Longrightarrow> W_Fail \<in> set es" "\<And>k. r = Wrote k \<Longrightarrow> 0 < k \<and> k \<le> length left"
      using r ne by (cases "(left, es)" rule: os_write.cases; auto)+
    show ?thesis
    proof (cases r)
      case (Wrote k)
      have "rio_writen_loop (drop k left) (sent @ take k left) fs = (ok, sent', es')"
        using 1(3) r ne Wrote sub(3) by (subst (asm) rio_writen_loop.simps) simp
      then obtain j where "j \<le> length (drop k left)" "sent' = (sent @ take k left) @ take j (drop k left)"
        "if ok then j = length (drop k left) else j < length (drop k left) \<and> W_Fail \<in> set fs"
        using 1(1)[OF ne r[symmetric] Wrote] sub(3)[OF Wrote] by auto
      then show ?thesis using sub Wrote
        by (intro exI[of _ "k + j"]) (auto simp: take_add split: if_splits)
    next
      case W_interrupted
      then have "rio_writen_loop left sent fs = (ok, sent', es')"
        using 1(3) r ne by (subst (asm) rio_writen_loop.simps) simp
      then obtain k where "k \<le> length left" "sent' = sent @ take k left"
        "if ok then k = length left else k < length left \<and> W_Fail \<in> set fs"
        using 1(2)[OF ne r[symmetric] W_interrupted] by blast
      then show ?thesis using sub(1) by (intro exI[of _ k]) (auto split: if_splits)
    next
      case W_failed
      then show ?thesis using 1(3) r ne sub(2) by (subst (asm) rio_writen_loop.simps) auto
    qed
  qed
qed

lemma rio_writen_loop_rest: "rio_writen_loop left sent es = (ok, sent', es') \<Longrightarrow> set es' \<subseteq> set es"
proof (induction left sent es arbitrary: ok sent' es' rule: rio_writen_loop.induct)
  case (1 left sent es)
  obtain r fs where r: "os_write left es = (r, fs)" by fastforce
  have sub: "set fs \<subseteq> set es"
    using r by (cases "(left, es)" rule: os_write.cases) auto
  note step = 1(3)[unfolded rio_writen_loop.simps[of left sent es] r prod.case]
  show ?case
  proof (cases "left = []")
    case False
    show ?thesis
    proof (cases r)
      case (Wrote k)
      then show ?thesis using step sub 1(1)[OF False r[symmetric] Wrote] False
        by (cases "k = 0") fastforce+
    next
      case W_interrupted
      then show ?thesis using step sub 1(2)[OF False r[symmetric] W_interrupted] False by fastforce
    qed (use step sub False in simp)
  qed (use step in simp)
qed

text \<open>On a descriptor that never fails, everything is sent.\<close>

lemma Rio_writen_works:
  assumes "W_Fail \<notin> set es"
  shows "\<exists>es'. Rio_writen bs es = Done (bs, es') \<and> W_Fail \<notin> set es'"
proof -
  obtain ok sent es' where r: "rio_writen_loop bs [] es = (ok, sent, es')" by (metis prod_cases3)
  then have "ok" "sent = bs" using rio_writen_loop_spec[OF r] assms by (auto split: if_splits)
  then show ?thesis using r rio_writen_loop_rest[OF r] assms by (auto simp: Rio_writen_def rio_writen_def)
qed

text \<open>C30. \<^verbatim>\<open>Rio_writen\<close> sends all bytes in order whatever short counts and interruptions the system
  gives; only when a write really fails does it stop, and then the whole server process ends, with an
  unsent rest.\<close>

theorem Rio_writen_correct:
  "(\<exists>es'. Rio_writen bs es = Done (bs, es'))
   \<or> Rio_writen bs es = Died ''Rio_writen error'' \<and> W_Fail \<in> set es
     \<and> (\<exists>k < length bs. fst (snd (rio_writen bs es)) = take k bs)"
proof -
  obtain ok sent es' where r: "rio_writen_loop bs [] es = (ok, sent, es')" by (metis prod_cases3)
  then show ?thesis using rio_writen_loop_spec[OF r]
    by (cases ok) (auto simp: Rio_writen_def rio_writen_def unix_error_def)
qed

section \<open>The buffered reader delivers the same bytes\<close>

definition unread :: "rio_t \<Rightarrow> string" where
  "unread rp = take (nat (rio_cnt rp)) (drop (rio_ptr rp) (rio_buf rp))"

definition rio_ok :: "rio_t \<Rightarrow> bool" where
  "rio_ok rp \<longleftrightarrow> rio_ptr rp + nat (rio_cnt rp) \<le> length (rio_buf rp)"

text \<open>What is still to come: the unread part of the buffer, then what the descriptor delivers.\<close>

definition pending :: "rio_t \<Rightarrow> read_event list \<Rightarrow> string \<times> ending" where
  "pending rp es = (unread rp @ fst (delivered es), snd (delivered es))"

lemma unread_empty_iff: "rio_ok rp \<Longrightarrow> unread rp = [] \<longleftrightarrow> rio_cnt rp \<le> 0"
  by (auto simp: unread_def rio_ok_def)

lemma readinitb_pending:
  "rio_ok (rio_readinitb rp)" "pending (rio_readinitb rp) es = delivered es"
  by (simp_all add: rio_readinitb_def rio_ok_def pending_def unread_def)

lemma rio_refill_full: "rio_cnt rp > 0 \<Longrightarrow> rio_refill rp es = Some (Refilled, rp, es)"
  by (simp add: rio_refill.simps)

lemma rio_refill_got:
  assumes "\<not> rio_cnt rp > 0" "os_read RIO_BUFSIZE es = Some (Got bs, es')" "bs \<noteq> []"
  obtains rp' where "rio_refill rp es = Some (Refilled, rp', es')" "rio_ok rp'" "unread rp' = bs"
proof -
  let ?rp = "rp\<lparr>rio_cnt := int (length bs), rio_buf := bs @ drop (length bs) (rio_buf rp), rio_ptr := 0\<rparr>"
  have "rio_refill rp es = rio_refill ?rp es'" using assms by (subst rio_refill.simps) simp
  also have "\<dots> = Some (Refilled, ?rp, es')" using assms(3) by (intro rio_refill_full) simp
  finally show thesis by (rule that) (auto simp: rio_ok_def unread_def)
qed

lemma rio_refill_spec:
  assumes "rio_ok rp"
  shows "case pending rp es of
      (c # cs, e) \<Rightarrow> \<exists>rp' es'. rio_refill rp es = Some (Refilled, rp', es') \<and> rio_ok rp'
        \<and> unread rp' \<noteq> [] \<and> pending rp' es' = (c # cs, e)
    | ([], At_eof) \<Rightarrow> \<exists>rp' es'. rio_refill rp es = Some (Refill_eof, rp', es') \<and> rio_ok rp'
        \<and> pending rp' es' = ([], At_eof)
    | ([], At_error) \<Rightarrow> \<exists>rp' es'. rio_refill rp es = Some (Refill_error, rp', es') \<and> rio_ok rp'
    | ([], At_stall) \<Rightarrow> rio_refill rp es = None"
proof (cases "rio_cnt rp > 0")
  case True
  then have "unread rp \<noteq> []" using unread_empty_iff[OF assms] by simp
  then show ?thesis using True assms rio_refill_full[OF True]
    by (cases "unread rp") (auto simp: pending_def)
next
  case False
  then show ?thesis using assms
  proof (induction es arbitrary: rp rule: delivered.induct)
    case (2 bs es)
    note u = unread_empty_iff[OF "2.prems"(2)]
    show ?case
    proof (cases "bs = []")
      case True
      then show ?thesis using "2.prems" u by (simp add: rio_refill.simps pending_def rio_ok_def unread_def)
    next
      case False
      then obtain as es' where r: "os_read RIO_BUFSIZE (Chunk bs # es) = Some (Got as, es')" "as \<noteq> []"
        by (cases "length bs \<le> RIO_BUFSIZE") auto
      obtain rp' where rp: "rio_refill rp (Chunk bs # es) = Some (Refilled, rp', es')" "rio_ok rp'" "unread rp' = as"
        using rio_refill_got[OF "2.prems"(1) r] .
      have "pending rp' es' = pending rp (Chunk bs # es)"
        using os_read_some[OF r(1)] r(2) rp(3) "2.prems"(1) u by (simp add: pending_def)
      moreover have "fst (pending rp (Chunk bs # es)) \<noteq> []" using False by (simp add: pending_def)
      ultimately show ?thesis using rp r(2)
        by (cases "pending rp (Chunk bs # es)"; cases "fst (pending rp (Chunk bs # es))") auto
    qed
  next
    case (3 es)
    have e: "rio_refill rp (Intr # es) = rio_refill (rp\<lparr>rio_cnt := -1\<rparr>) es"
      using "3.prems"(1) by (subst rio_refill.simps) simp
    have q: "pending (rp\<lparr>rio_cnt := -1\<rparr>) es = pending rp (Intr # es)"
      using unread_empty_iff[OF "3.prems"(2)] "3.prems"(1) by (simp add: pending_def unread_def)
    show ?case unfolding e q[symmetric]
      by (rule "3.IH") (use "3.prems" in \<open>simp_all add: rio_ok_def\<close>)
  qed (auto simp: rio_refill.simps pending_def rio_ok_def unread_def)
qed

text \<open>One call of the buffered reader, as a step on what is pending.\<close>

lemma rio_read_spec:
  assumes "rio_ok rp" "0 < n"
  shows "case pending rp es of
      (c # cs, e) \<Rightarrow> \<exists>bs rp' es'. rio_read rp n es = Some (int (length bs), bs, rp', es') \<and> rio_ok rp'
        \<and> 0 < length bs \<and> length bs \<le> n \<and> (c # cs, e) = (bs @ fst (pending rp' es'), snd (pending rp' es'))
    | ([], At_eof) \<Rightarrow> \<exists>rp' es'. rio_read rp n es = Some (0, [], rp', es') \<and> rio_ok rp'
        \<and> pending rp' es' = ([], At_eof)
    | ([], At_error) \<Rightarrow> \<exists>rp' es'. rio_read rp n es = Some (-1, [], rp', es') \<and> rio_ok rp'
    | ([], At_stall) \<Rightarrow> rio_read rp n es = None"
proof -
  note spec = rio_refill_spec[OF assms(1), of es]
  obtain bs e where p: "pending rp es = (bs, e)" by fastforce
  show ?thesis
  proof (cases bs)
    case Nil
    then show ?thesis using spec p by (cases e) (auto simp: rio_read_def)
  next
    case (Cons c cs)
    obtain rp' es' where r: "rio_refill rp es = Some (Refilled, rp', es')" "rio_ok rp'" "unread rp' \<noteq> []"
      "pending rp' es' = (c # cs, e)" using spec p Cons by auto
    have pos: "0 < rio_cnt rp'" using unread_empty_iff[OF r(2)] r(3) by simp
    define k where "k = (if rio_cnt rp' < int n then nat (rio_cnt rp') else n)"
    define bs' where "bs' = take k (drop (rio_ptr rp') (rio_buf rp'))"
    let ?rp = "rp'\<lparr>rio_ptr := rio_ptr rp' + k, rio_cnt := rio_cnt rp' - int k\<rparr>"
    have k: "0 < k" "k \<le> n" "k \<le> nat (rio_cnt rp')" using pos assms(2) by (auto simp: k_def)
    then have l: "length bs' = k" using r(2) by (simp add: bs'_def rio_ok_def)
    have "nat (rio_cnt rp') = k + nat (rio_cnt rp' - int k)" using k by simp
    then have "unread rp' = bs' @ unread ?rp"
      by (simp add: unread_def bs'_def take_add add.commute)
    then have "pending rp' es' = (bs' @ fst (pending ?rp es'), snd (pending ?rp es'))"
      by (simp add: pending_def)
    moreover have "rio_ok ?rp" using r(2) k by (simp add: rio_ok_def nat_diff_distrib')
    moreover have "rio_read rp n es = Some (int (length bs'), bs', ?rp, es')"
      using l by (simp add: rio_read_def r(1) k_def[symmetric] bs'_def Let_def)
    ultimately have "rio_read rp n es = Some (int (length bs'), bs', ?rp, es') \<and> rio_ok ?rp
        \<and> 0 < length bs' \<and> length bs' \<le> n \<and> (c # cs, e) = (bs' @ fst (pending ?rp es'), snd (pending ?rp es'))"
      using k l r(4) by simp
    then show ?thesis unfolding p Cons prod.case list.case by blast
  qed
qed

text \<open>The buffered reader of \<open>n\<close> bytes has the contract of the unbuffered one.\<close>

definition readnb_run :: "nat \<Rightarrow> string \<Rightarrow> rio_t \<times> read_event list
    \<Rightarrow> (string option \<times> rio_t \<times> read_event list) option" where
  "readnb_run n acc s = rio_readnb_loop (fst s) n acc (snd s)"

interpretation buffered: read_loop "\<lambda>s. rio_ok (fst s)" "\<lambda>s. pending (fst s) (snd s)" readnb_run
proof
  fix s :: "rio_t \<times> read_event list" and n :: nat and acc
  assume ok: "rio_ok (fst s)"
  show "readnb_run 0 acc s = Some (Some acc, s)" by (simp add: readnb_run_def rio_readnb_loop.simps)
  assume n: "0 < n"
  note spec = rio_read_spec[OF ok n, of "snd s"]
  show "pending (fst s) (snd s) = ([], At_eof) \<Longrightarrow> \<exists>s'. readnb_run n acc s = Some (Some acc, s')"
    "pending (fst s) (snd s) = ([], At_error) \<Longrightarrow> \<exists>s'. readnb_run n acc s = Some (None, s')"
    "pending (fst s) (snd s) = ([], At_stall) \<Longrightarrow> readnb_run n acc s = None"
    using spec n by (auto simp: readnb_run_def rio_readnb_loop.simps)
  assume "fst (pending (fst s) (snd s)) \<noteq> []"
  then obtain c cs e where p: "pending (fst s) (snd s) = (c # cs, e)"
    by (metis list.exhaust prod.collapse)
  obtain bs rp' es' where r: "rio_read (fst s) n (snd s) = Some (int (length bs), bs, rp', es')" "rio_ok rp'"
    "0 < length bs" "length bs \<le> n" "(c # cs, e) = (bs @ fst (pending rp' es'), snd (pending rp' es'))"
    using spec unfolding p prod.case list.case by blast
  have "readnb_run n acc s = readnb_run (n - length bs) (acc @ bs) (rp', es')"
    unfolding readnb_run_def using r(1,3) n by (subst rio_readnb_loop.simps) simp
  then show "\<exists>bs s'. readnb_run n acc s = readnb_run (n - length bs) (acc @ bs) s' \<and> rio_ok (fst s') \<and> 0 < length bs
      \<and> length bs \<le> n \<and> pending (fst s) (snd s) = (bs @ fst (pending (fst s') (snd s')), snd (pending (fst s') (snd s')))"
    using r(2-5) p by (intro exI[of _ bs] exI[of _ "(rp', es')"]) simp
qed

theorem rio_readnb_correct:
  assumes "rio_ok rp"
  shows "case pending rp es of (bs, e) \<Rightarrow>
     if n \<le> length bs then \<exists>rp' es'. rio_readnb rp n es = Some (int n, take n bs, rp', es')
         \<and> rio_ok rp' \<and> pending rp' es' = (drop n bs, e)
     else case e of
       At_eof \<Rightarrow> \<exists>rp' es'. rio_readnb rp n es = Some (int (length bs), bs, rp', es')
     | At_error \<Rightarrow> \<exists>rp' es'. rio_readnb rp n es = Some (-1, [], rp', es')
     | At_stall \<Rightarrow> rio_readnb rp n es = None"
  using buffered.reads[where s = "(rp, es)" and n = n and acc = "[]"] assms
  by (auto simp: rio_readnb_def readnb_run_def split: prod.splits if_splits ending.splits)

section \<open>Lines\<close>

text \<open>The characters of the first line, at most \<open>m\<close>, with its newline.\<close>

fun take_line :: "nat \<Rightarrow> string \<Rightarrow> string" where
  "take_line 0 cs = []"
| "take_line (Suc m) [] = []"
| "take_line (Suc m) (c # cs) = c # (if c = CHR 0x0A then [] else take_line m cs)"

lemma take_line_numeral [simp]:
  "take_line (numeral k) [] = []"
  "take_line (numeral k) (c # cs) = c # (if c = CHR 0x0A then [] else take_line (pred_numeral k) cs)"
  by (simp_all add: numeral_eq_Suc)

definition ends_line :: "string \<Rightarrow> bool" where
  "ends_line l \<longleftrightarrow> l \<noteq> [] \<and> last l = CHR 0x0A"

lemma take_line_prefix: "take_line m cs = take (length (take_line m cs)) cs"
  by (induction m cs rule: take_line.induct) auto

lemma take_line_length: "length (take_line m cs) \<le> m" "length (take_line m cs) \<le> length cs"
  by (induction m cs rule: take_line.induct) auto

lemma take_line_partial: "\<not> ends_line (take_line m cs) \<Longrightarrow> length (take_line m cs) \<noteq> m \<Longrightarrow> take_line m cs = cs"
  by (induction m cs rule: take_line.induct) (auto simp: ends_line_def split: if_splits)

lemma rio_read_one:
  assumes "rio_ok rp" "pending rp es = (c # cs, e)"
  obtains rp' es' where "rio_read rp 1 es = Some (1, [c], rp', es')" "rio_ok rp'" "pending rp' es' = (cs, e)"
proof -
  obtain as rp' es' where r: "rio_read rp 1 es = Some (int (length as), as, rp', es')" "rio_ok rp'"
    "0 < length as" "length as \<le> 1" "c # cs = as @ fst (pending rp' es')" "e = snd (pending rp' es')"
    using rio_read_spec[OF assms(1), of 1 es] assms(2) by auto
  then have "as = [c]" by (cases as) auto
  then show thesis using that r by (cases "pending rp' es'") auto
qed

lemma rio_readline_loop_spec:
  assumes "rio_ok rp" "n \<le> maxlen" "0 < n"
  shows "case pending rp es of (bs, e) \<Rightarrow> let l = take_line (maxlen - n) bs in
     if ends_line l then \<exists>rp' es'. rio_readline_loop maxlen n acc rp es
           = Some (int (n - 1 + length l), Some (acc @ l), rp', es') \<and> rio_ok rp' \<and> pending rp' es' = (drop (length l) bs, e)
     else if length l = maxlen - n then \<exists>rp' es'. rio_readline_loop maxlen n acc rp es
           = Some (int (n + length l), Some (acc @ l), rp', es') \<and> rio_ok rp' \<and> pending rp' es' = (drop (length l) bs, e)
     else case e of
       At_eof \<Rightarrow> \<exists>rp' es'. rio_readline_loop maxlen n acc rp es
           = Some (if n + length l = 1 then (0, None, rp', es') else (int (n + length l), Some (acc @ l), rp', es'))
           \<and> rio_ok rp' \<and> pending rp' es' = ([], At_eof)
     | At_error \<Rightarrow> \<exists>rp' es'. rio_readline_loop maxlen n acc rp es = Some (-1, None, rp', es') \<and> rio_ok rp'
     | At_stall \<Rightarrow> rio_readline_loop maxlen n acc rp es = None"
  using assms
proof (induction "maxlen - n" arbitrary: n rp acc es)
  case 0
  then show ?case by (cases "pending rp es") (auto simp: rio_readline_loop.simps ends_line_def)
next
  case (Suc m)
  have n: "n < maxlen" "maxlen - n = Suc (maxlen - (n + 1))" "m = maxlen - (n + 1)" "n + 1 \<le> maxlen"
    using Suc.hyps(2) by auto
  obtain bs e where p: "pending rp es = (bs, e)" by fastforce
  show ?case
  proof (cases bs)
    case Nil
    then show ?thesis using rio_read_spec[OF Suc.prems(1), of 1 es] p n Suc.prems
      by (cases e) (auto simp: rio_readline_loop.simps[of maxlen n] ends_line_def Let_def)
  next
    case (Cons c cs)
    obtain rp' es' where r: "rio_read rp 1 es = Some (1, [c], rp', es')" "rio_ok rp'" "pending rp' es' = (cs, e)"
      using rio_read_one[OF Suc.prems(1) p[unfolded Cons]] .
    have step: "rio_readline_loop maxlen n acc rp es =
        (if c = CHR 0x0A then Some (int n, Some (acc @ [c]), rp', es')
         else rio_readline_loop maxlen (n + 1) (acc @ [c]) rp' es')"
      using r(1) n(1) by (subst rio_readline_loop.simps) simp
    show ?thesis
      using Suc.hyps(1)[OF n(3) r(2) n(4), of "acc @ [c]" es'] r(2,3) Suc.prems(3)
      unfolding step p prod.case n(2) Let_def
      by (cases "c = CHR 0x0A"; cases e) (auto simp: Cons ends_line_def)
  qed
qed

text \<open>C29. The line reader, whatever the chunks and interruptions in which the input arrives: it stores
  the first line, at most \<open>maxlen - 1\<close> characters of it, and leaves the rest pending. It returns the
  number of characters only for a line that ends; at the end of the file and for a line that fills the
  buffer it returns one more. With nothing left it returns 0 and does not touch the caller's buffer.\<close>

theorem rio_readlineb_correct:
  assumes "rio_ok rp" "0 < maxlen"
  shows "case pending rp es of (bs, e) \<Rightarrow> let l = take_line (maxlen - 1) bs in
     if ends_line l then \<exists>rp' es'. rio_readlineb rp maxlen es = Some (int (length l), Some l, rp', es')
         \<and> rio_ok rp' \<and> pending rp' es' = (drop (length l) bs, e)
     else if length l = maxlen - 1 then \<exists>rp' es'. rio_readlineb rp maxlen es = Some (int (length l) + 1, Some l, rp', es')
         \<and> rio_ok rp' \<and> pending rp' es' = (drop (length l) bs, e)
     else case e of
       At_eof \<Rightarrow> \<exists>rp' es'. rio_readlineb rp maxlen es
         = Some (if bs = [] then (0, None, rp', es') else (int (length bs) + 1, Some bs, rp', es'))
           \<and> rio_ok rp' \<and> pending rp' es' = ([], At_eof)
     | At_error \<Rightarrow> \<exists>rp' es'. rio_readlineb rp maxlen es = Some (-1, None, rp', es')
     | At_stall \<Rightarrow> rio_readlineb rp maxlen es = None"
proof -
  obtain bs e where p: "pending rp es = (bs, e)" by fastforce
  show ?thesis
    using rio_readline_loop_spec[OF assms(1), of 1 maxlen "[]" es] assms(2) take_line_partial[of "maxlen - 1" bs]
    unfolding rio_readlineb_def p
    by (cases e) (auto simp: Let_def split: if_splits)
qed

theorem rio_readlineb_correct_witness:
  "\<exists>rp es. rio_readlineb (rio_readinitb \<lparr>rio_cnt = 7, rio_ptr = 3, rio_buf = ''old''\<rparr>) 8192
      [Chunk ''GE'', Intr, Chunk (''T /'' @ [CHR 0x0A, CHR ''x''])] = Some (6, Some (''GET /'' @ [CHR 0x0A]), rp, es)
    \<and> pending rp es = (''x'', At_eof)"
proof -
  have "take_line (8192 - 1) (''GET /'' @ [CHR 0x0A, CHR ''x'']) = ''GET /'' @ [CHR 0x0A]"
    by simp
  then show ?thesis
    using rio_readlineb_correct[OF readinitb_pending(1)[of "\<lparr>rio_cnt = 7, rio_ptr = 3, rio_buf = ''old''\<rparr>"],
        of 8192 "[Chunk ''GE'', Intr, Chunk (''T /'' @ [CHR 0x0A, CHR ''x''])]"]
    by (auto simp: readinitb_pending(2) ends_line_def)
qed

end
