(* ===== verification/Wrappers.thy ===== *)
theory Wrappers
  imports Rio
begin

text \<open>
  The error-checking wrappers of \<^verbatim>\<open>multiThreadedWebServer/blg312e.c\<close> that the server and the client
  call, and the two socket helpers. The system calls are parameters: a wrapper is a function of what
  its call returned. A failed call ends the whole process.
\<close>

section \<open>Running a sequence of calls\<close>

text \<open>\<open>None\<close> is undefined behaviour or a call that never returns; \<open>Died\<close> is the end of the process.\<close>

type_synonym 'a run = "'a proc option"

fun then_run :: "'a run \<Rightarrow> ('a \<Rightarrow> 'b run) \<Rightarrow> 'b run" where
  "then_run None f = None"
| "then_run (Some (Died msg)) f = Some (Died msg)"
| "then_run (Some (Done a)) f = f a"

lemma then_run_Done_iff: "then_run m f = Some (Done b) \<longleftrightarrow> (\<exists>a. m = Some (Done a) \<and> f a = Some (Done b))"
  by (cases "(m, f)" rule: then_run.cases) auto

section \<open>System calls\<close>

definition checked :: "string \<Rightarrow> int \<Rightarrow> int run" where
  "checked msg rc = Some (if rc < 0 then unix_error msg else Done rc)"

definition Fork :: "int \<Rightarrow> int run" where "Fork = checked ''Fork error''"
definition Wait :: "int \<Rightarrow> int run" where "Wait = checked ''Wait error''"
definition Open :: "int \<Rightarrow> int run" where "Open = checked ''Open error''"
definition Close :: "int \<Rightarrow> int run" where "Close = checked ''Close error''"
definition Munmap :: "int \<Rightarrow> int run" where "Munmap = checked ''munmap error''"
definition Setenv :: "int \<Rightarrow> int run" where "Setenv = checked ''Setenv error''"
definition Dup2 :: "int \<Rightarrow> int run" where "Dup2 = checked ''Dup2 error''"
definition Accept :: "int \<Rightarrow> int run" where "Accept = checked ''Accept error''"

text \<open>The message of this one names another call, as in the source.\<close>

definition Gethostname :: "int \<Rightarrow> int run" where "Gethostname = checked ''Setenv error''"

text \<open>\<^verbatim>\<open>Execve\<close> comes back only when the call fails; else the process is what the new program does.\<close>

definition Execve :: "int \<Rightarrow> 'a run \<Rightarrow> 'a run" where
  "Execve rc program = (if rc < 0 then Some (unix_error ''Execve error'') else program)"

text \<open>The wrappers of the package that neither the server nor the client calls.\<close>

definition Read :: "int \<Rightarrow> int run" where "Read = checked ''Read error''"
definition Write :: "int \<Rightarrow> int run" where "Write = checked ''Write error''"
definition Lseek :: "int \<Rightarrow> int run" where "Lseek = checked ''Lseek error''"
definition Select :: "int \<Rightarrow> int run" where "Select = checked ''Select error''"
definition Stat :: "int \<Rightarrow> int run" where "Stat = checked ''Stat error''"
definition Fstat :: "int \<Rightarrow> int run" where "Fstat = checked ''Fstat error''"
definition Socket :: "int \<Rightarrow> int run" where "Socket = checked ''Socket error''"
definition Setsockopt :: "int \<Rightarrow> int run" where "Setsockopt = checked ''Setsockopt error''"
definition Bind :: "int \<Rightarrow> int run" where "Bind = checked ''Bind error''"
definition Listen :: "int \<Rightarrow> int run" where "Listen = checked ''Listen error''"
definition Connect :: "int \<Rightarrow> int run" where "Connect = checked ''Connect error''"

text \<open>\<^verbatim>\<open>Mmap\<close> gives the mapped bytes.\<close>

definition Mmap :: "string option \<Rightarrow> string run" where
  "Mmap m = Some (case m of None \<Rightarrow> unix_error ''mmap error'' | Some bytes \<Rightarrow> Done bytes)"

lemma checked_simps [simp]:
  "0 \<le> rc \<Longrightarrow> checked msg rc = Some (Done rc)"
  "rc < 0 \<Longrightarrow> checked msg rc = Some (Died msg)"
  by (auto simp: checked_def unix_error_def)

lemmas wrapper_defs = Fork_def Wait_def Open_def Close_def Munmap_def Accept_def Gethostname_def Setenv_def Dup2_def
  Read_def Write_def Lseek_def Select_def Stat_def Fstat_def Socket_def Setsockopt_def Bind_def Listen_def Connect_def

lemma Mmap_simps [simp]:
  "Mmap (Some bs) = Some (Done bs)" "Mmap None = Some (Died ''mmap error'')"
  by (simp_all add: Mmap_def unix_error_def)

section \<open>Opening sockets\<close>

text \<open>\<^verbatim>\<open>open_clientfd\<close>: what \<^verbatim>\<open>socket\<close>, \<^verbatim>\<open>gethostbyname\<close> (found or not) and \<^verbatim>\<open>connect\<close> answer.\<close>

definition open_clientfd :: "int \<Rightarrow> bool \<Rightarrow> int \<Rightarrow> int" where
  "open_clientfd sock found conn =
     (if sock < 0 then -1 else if \<not> found then -2 else if conn < 0 then -1 else sock)"

definition dns_error :: "string \<Rightarrow> 'a proc" where
  "dns_error msg = Died msg"

definition posix_error :: "string \<Rightarrow> 'a proc" where
  "posix_error msg = Died msg"

definition app_error :: "string \<Rightarrow> 'a proc" where
  "app_error msg = Died msg"

text \<open>The lookups of a host: the entry, or no entry.\<close>

definition Gethostbyname :: "'h option \<Rightarrow> 'h run" where
  "Gethostbyname p = Some (case p of None \<Rightarrow> dns_error ''Gethostbyname error'' | Some h \<Rightarrow> Done h)"

definition Gethostbyaddr :: "'h option \<Rightarrow> 'h run" where
  "Gethostbyaddr p = Some (case p of None \<Rightarrow> dns_error ''Gethostbyaddr error'' | Some h \<Rightarrow> Done h)"

definition Open_clientfd :: "int \<Rightarrow> bool \<Rightarrow> int \<Rightarrow> int run" where
  "Open_clientfd sock found conn = (let rc = open_clientfd sock found conn in
     if rc < 0 then Some (if rc = -1 then unix_error ''Open_clientfd Unix error''
                          else dns_error ''Open_clientfd DNS error'')
     else Some (Done rc))"

text \<open>\<^verbatim>\<open>open_listenfd\<close>: the answers of \<^verbatim>\<open>socket\<close>, \<^verbatim>\<open>setsockopt\<close>, \<^verbatim>\<open>bind\<close> and \<^verbatim>\<open>listen\<close>; also the message on the
  error stream.\<close>

definition open_listenfd :: "int \<Rightarrow> int \<Rightarrow> int \<Rightarrow> int \<Rightarrow> int \<times> string" where
  "open_listenfd sock opt bnd lst =
     (if sock < 0 then (-1, ''socket failed'')
      else if opt < 0 then (-1, ''setsockopt failed'')
      else if bnd < 0 then (-1, ''bind failed'')
      else if lst < 0 then (-1, ''listen failed'')
      else (sock, []))"

definition Open_listenfd :: "int \<Rightarrow> int \<Rightarrow> int \<Rightarrow> int \<Rightarrow> int run" where
  "Open_listenfd sock opt bnd lst = checked ''Open_listenfd error'' (fst (open_listenfd sock opt bnd lst))"

end
