(* ===== verification/Request.thy ===== *)
theory Request
  imports Wrappers
begin

text \<open>
  The request handling of the web server, \<^verbatim>\<open>multiThreadedWebServer/request.c\<close>: parsing the address,
  skipping the headers, and the responses. The file system and the processes are the record \<open>web_os\<close>;
  the connection records what was written to it and to the server's own output.
\<close>

unbundle bit_operations_syntax

section \<open>Data\<close>

record stat_t =
  st_mode :: "32 word"
  st_size :: int
  st_mtime :: int

definition S_ISREG :: "32 word \<Rightarrow> bool" where "S_ISREG m \<longleftrightarrow> m AND 0xF000 = 0x8000"
definition S_IRUSR :: "32 word" where "S_IRUSR = 0x100"
definition S_IXUSR :: "32 word" where "S_IXUSR = 0x40"

record request_t =
  connfd :: int
  is_static :: int
  stat_return :: int
  sbuf :: stat_t
  buf :: string
  req_method :: string
  uri :: string
  version :: string
  filename :: string
  cgiargs :: string
  rio :: rio_t

text \<open>
  The answers of the system: \<^verbatim>\<open>stat\<close>, \<^verbatim>\<open>open\<close>, \<^verbatim>\<open>mmap\<close> of a file and a length (the bytes that can be read there), \<^verbatim>\<open>fork\<close> in the parent, the calls
  that release what was used, and all that the child writes to the connection, which runs a program with \<^verbatim>\<open>QUERY_STRING\<close> set.
\<close>

record web_os =
  stat_file :: "string \<Rightarrow> stat_t option"
  open_file :: "string \<Rightarrow> int"
  map_file :: "string \<Rightarrow> int \<Rightarrow> string option"
  fork_rc :: int
  wait_rc :: int
  close_rc :: int
  munmap_rc :: int
  cgi_output :: "string \<Rightarrow> string \<Rightarrow> string"

record conn =
  sent :: string
  wr :: "write_event list"
  out :: string

definition CRLF :: string where "CRLF = [CHR 0x0D, CHR 0x0A]"

text \<open>\<^verbatim>\<open>sprintf\<close> and \<^verbatim>\<open>strcpy\<close> into an array of \<open>n\<close> characters.\<close>

definition store :: "nat \<Rightarrow> string \<Rightarrow> string option" where
  "store n s = (if length s < n then Some s else None)"

definition put :: "string \<Rightarrow> conn \<Rightarrow> conn run" where
  "put t io = Some (case Rio_writen t (wr io) of
     Done (bs, ws) \<Rightarrow> Done (io\<lparr>sent := sent io @ bs, wr := ws\<rparr>) | Died msg \<Rightarrow> Died msg)"

definition say :: "string \<Rightarrow> conn \<Rightarrow> conn" where
  "say t io = io\<lparr>out := out io @ t\<rparr>"

definition put_say :: "string \<Rightarrow> conn \<Rightarrow> conn run" where
  "put_say t io = then_run (put t io) (\<lambda>io. Some (Done (say t io)))"

section \<open>requestError\<close>

definition requestError :: "string \<Rightarrow> string \<Rightarrow> string \<Rightarrow> string \<Rightarrow> conn \<Rightarrow> conn run" where
  "requestError cause errnum shortmsg longmsg io = do {
     body \<leftarrow> store MAXBUF ''<html><title>blg312e Error</title>'';
     body \<leftarrow> store MAXBUF (body @ ''<body bgcolor=fffff>'' @ CRLF);
     body \<leftarrow> store MAXBUF (body @ errnum @ '': '' @ shortmsg @ CRLF);
     body \<leftarrow> store MAXBUF (body @ ''<p>'' @ longmsg @ '': '' @ cause @ CRLF);
     body \<leftarrow> store MAXBUF (body @ ''<hr>blg312e Web Server'' @ CRLF);
     buf \<leftarrow> store MAXLINE (''HTTP/1.0 '' @ errnum @ '' '' @ shortmsg @ CRLF);
     then_run (put_say buf io) (\<lambda>io. do {
     buf \<leftarrow> store MAXLINE (''Content-Type: text/html'' @ CRLF);
     then_run (put_say buf io) (\<lambda>io. do {
     buf \<leftarrow> store MAXLINE (''Content-Length: '' @ show_nat (length body) @ CRLF @ CRLF);
     then_run (put_say buf io) (\<lambda>io. put_say body io) }) }) }"

section \<open>requestReadhdrs\<close>

text \<open>\<open>b\<close> is the local array, uninitialised at the start.\<close>

partial_function (option) requestReadhdrs_loop ::
  "string \<Rightarrow> rio_t \<Rightarrow> read_event list \<Rightarrow> (rio_t \<times> read_event list) run" where
  "requestReadhdrs_loop b rp es =
     (if cstr b = CRLF then Some (Done (rp, es))
      else do {
        r \<leftarrow> Rio_readlineb rp MAXLINE es;
        case r of
          Died msg \<Rightarrow> Some (Died msg)
        | Done (rc, l, rp, es) \<Rightarrow> requestReadhdrs_loop (case l of None \<Rightarrow> b | Some l \<Rightarrow> l) rp es
      })"

declare requestReadhdrs_loop.simps [code]

definition requestReadhdrs :: "string \<Rightarrow> rio_t \<Rightarrow> read_event list \<Rightarrow> (rio_t \<times> read_event list) run" where
  "requestReadhdrs b rp es = do {
     r \<leftarrow> Rio_readlineb rp MAXLINE es;
     case r of
       Died msg \<Rightarrow> Some (Died msg)
     | Done (rc, l, rp, es) \<Rightarrow> requestReadhdrs_loop (case l of None \<Rightarrow> b | Some l \<Rightarrow> l) rp es
   }"

section \<open>requestParseURI\<close>

text \<open>The result and the arrays the function leaves: the address (cut at the question mark), the
  file name, the arguments. Reading the last character of an empty address is out of bounds.\<close>

definition requestParseURI :: "string \<Rightarrow> (int \<times> string \<times> string \<times> string) option" where
  "requestParseURI u =
     (if \<not> contains ''cgi'' u then do {
        fname \<leftarrow> store MAXLINE (''.'' @ u);
        if u = [] then None
        else if last u = CHR ''/'' then do {
          fname \<leftarrow> store MAXLINE (fname @ ''home.html'');
          Some (1, u, fname, [])
        } else Some (1, u, fname, [])
      } else if CHR ''?'' \<in> set u then do {
        args \<leftarrow> store MAXLINE (tl (dropWhile (\<lambda>c. c \<noteq> CHR ''?'') u));
        fname \<leftarrow> store MAXLINE (''.'' @ takeWhile (\<lambda>c. c \<noteq> CHR ''?'') u);
        Some (0, takeWhile (\<lambda>c. c \<noteq> CHR ''?'') u, fname, args)
      } else do {
        fname \<leftarrow> store MAXLINE (''.'' @ u);
        Some (0, u, fname, [])
      })"

definition requestGetFiletype :: "string \<Rightarrow> string" where
  "requestGetFiletype fname =
     (if contains ''.html'' fname then ''text/html''
      else if contains ''.gif'' fname then ''image/gif''
      else if contains ''.jpg'' fname then ''image/jpeg''
      else ''text/plain'')"

section \<open>Serving\<close>

definition requestServeDynamic :: "web_os \<Rightarrow> string \<Rightarrow> string \<Rightarrow> conn \<Rightarrow> conn run" where
  "requestServeDynamic os fname args io = do {
     buf \<leftarrow> store MAXLINE (''HTTP/1.0 200 OK'' @ CRLF);
     buf \<leftarrow> store MAXLINE (buf @ ''Server: blg312e Web Server'' @ CRLF);
     then_run (put buf io) (\<lambda>io.
     then_run (Fork (fork_rc os)) (\<lambda>pid.
       let io = io\<lparr>sent := sent io @ cgi_output os fname args\<rparr> in
     then_run (Wait (wait_rc os)) (\<lambda>_. Some (Done io)))) }"

text \<open>The connection gets \<^verbatim>\<open>filesize\<close> bytes of the mapping; when the file has become shorter the access is a fault.\<close>

definition requestServeStatic :: "web_os \<Rightarrow> string \<Rightarrow> int \<Rightarrow> conn \<Rightarrow> conn run" where
  "requestServeStatic os fname filesize io =
     then_run (Open (open_file os fname)) (\<lambda>srcfd.
     then_run (Mmap (map_file os fname filesize)) (\<lambda>srcp.
     then_run (Close (close_rc os)) (\<lambda>_. do {
       buf \<leftarrow> store MAXBUF (''HTTP/1.0 200 OK'' @ CRLF);
       buf \<leftarrow> store MAXBUF (buf @ ''Server: blg312e Web Server'' @ CRLF);
       buf \<leftarrow> store MAXBUF (buf @ ''Content-Length: '' @ show_int filesize @ CRLF);
       buf \<leftarrow> store MAXBUF (buf @ ''Content-Type: '' @ requestGetFiletype fname @ CRLF @ CRLF);
       then_run (put buf io) (\<lambda>io.
       if length srcp < nat filesize then None
       else then_run (put (take (nat filesize) srcp) io) (\<lambda>io.
       then_run (Munmap (munmap_rc os)) (\<lambda>_. Some (Done io)))) })))"

section \<open>requestHandle\<close>

definition tolower :: "char \<Rightarrow> char" where
  "tolower c = (if 65 \<le> (of_char c :: nat) \<and> (of_char c :: nat) \<le> 90 then char_of ((of_char c :: nat) + 32) else c)"

definition strcasecmp_eq :: "string \<Rightarrow> string \<Rightarrow> bool" where
  "strcasecmp_eq s t \<longleftrightarrow> map tolower s = map tolower t"

text \<open>The conversion of the file size from \<^verbatim>\<open>off_t\<close> to the parameter's type \<^verbatim>\<open>int\<close>.\<close>

definition to_int :: "int \<Rightarrow> int" where
  "to_int x = (x + 2 ^ 31) mod 2 ^ 32 - 2 ^ 31"

definition requestHandle :: "web_os \<Rightarrow> request_t \<Rightarrow> conn \<Rightarrow> conn run" where
  "requestHandle os request io = (
     let io = say (req_method request @ '' '' @ uri request @ '' '' @ version request @ [CHR 0x0A]) io;
         sb = sbuf request
     in
     if \<not> strcasecmp_eq (req_method request) ''GET'' then
       requestError (req_method request) ''501'' ''Not Implemented''
         ''blg312e Server does not implement this method'' io
     else if stat_return request < 0 then
       requestError (filename request) ''404'' ''Not found'' ''blg312e Server could not find this file'' io
     else if is_static request \<noteq> 0 then
       (if \<not> S_ISREG (st_mode sb) \<or> S_IRUSR AND st_mode sb = 0 then
          requestError (filename request) ''403'' ''Forbidden'' ''blg312e Server could not read this file'' io
        else requestServeStatic os (filename request) (to_int (st_size sb)) io)
     else
       (if \<not> S_ISREG (st_mode sb) \<or> S_IXUSR AND st_mode sb = 0 then
          requestError (filename request) ''403'' ''Forbidden'' ''blg312e Server could not run this CGI program'' io
        else requestServeDynamic os (filename request) (cgiargs request) io))"

end
