(* ===== verification/RequestProps.thy ===== *)
theory RequestProps
  imports Request
begin

text \<open>
  What a client receives: the reply of the server as a function of the request, the handler against
  it, the sizes at which the handler overruns its arrays, and the end of the header lines.
\<close>

section \<open>Writing to a connection that works\<close>

definition working :: "conn \<Rightarrow> bool" where
  "working io \<longleftrightarrow> W_Fail \<notin> set (wr io)"

definition replies :: "conn \<Rightarrow> string \<Rightarrow> conn run \<Rightarrow> bool" where
  "replies io t m \<longleftrightarrow> (\<exists>io'. m = Some (Done io') \<and> sent io' = sent io @ t \<and> working io')"

lemma replies_done: "working io' \<Longrightarrow> sent io' = sent io @ t \<Longrightarrow> replies io t (Some (Done io'))"
  by (simp add: replies_def)

lemma replies_put: "working io \<Longrightarrow> replies io t (put t io)"
  using Rio_writen_works[of "wr io" t] by (auto simp: replies_def put_def working_def)

lemma replies_then:
  assumes "replies io t m" "\<And>io'. working io' \<Longrightarrow> sent io' = sent io @ t \<Longrightarrow> replies io' u (f io')"
  shows "replies io (t @ u) (then_run m f)"
  using assms by (fastforce simp: replies_def)

lemma replies_put_say: "working io \<Longrightarrow> replies io t (put_say t io)"
  unfolding put_say_def using replies_put[of io t]
  by (auto simp: replies_def say_def working_def)

lemma replies_from: "sent io' = sent io \<Longrightarrow> replies io' t m \<Longrightarrow> replies io t m"
  by (simp add: replies_def)

section \<open>The replies\<close>

definition error_body :: "string \<Rightarrow> string \<Rightarrow> string \<Rightarrow> string \<Rightarrow> string" where
  "error_body cause errnum shortmsg longmsg =
     ''<html><title>blg312e Error</title>'' @ ''<body bgcolor=fffff>'' @ CRLF @ errnum @ '': '' @ shortmsg @ CRLF
     @ ''<p>'' @ longmsg @ '': '' @ cause @ CRLF @ ''<hr>blg312e Web Server'' @ CRLF"

definition error_reply :: "string \<Rightarrow> string \<Rightarrow> string \<Rightarrow> string \<Rightarrow> string" where
  "error_reply cause errnum shortmsg longmsg =
     ''HTTP/1.0 '' @ errnum @ '' '' @ shortmsg @ CRLF @ ''Content-Type: text/html'' @ CRLF
     @ ''Content-Length: '' @ show_nat (length (error_body cause errnum shortmsg longmsg)) @ CRLF @ CRLF
     @ error_body cause errnum shortmsg longmsg"

definition static_reply :: "string \<Rightarrow> string \<Rightarrow> string" where
  "static_reply fname bytes =
     ''HTTP/1.0 200 OK'' @ CRLF @ ''Server: blg312e Web Server'' @ CRLF
     @ ''Content-Length: '' @ show_nat (length bytes) @ CRLF
     @ ''Content-Type: '' @ requestGetFiletype fname @ CRLF @ CRLF @ bytes"

definition dynamic_reply :: "string \<Rightarrow> string" where
  "dynamic_reply output = ''HTTP/1.0 200 OK'' @ CRLF @ ''Server: blg312e Web Server'' @ CRLF @ output"

lemma CRLF_length [simp]: "length CRLF = 2"
  by (simp add: CRLF_def)

lemma show_nat_length: "n < 10 ^ k \<Longrightarrow> 0 < k \<Longrightarrow> length (show_nat n) \<le> k"
proof (induction k arbitrary: n)
  case (Suc k)
  show ?case
  proof (cases "n < 10")
    case True
    then show ?thesis by (subst show_nat.simps) simp
  next
    case False
    then have "n div 10 < 10 ^ k" "0 < k" using Suc.prems by (auto intro!: Nat.gr0I)
    then show ?thesis using Suc.IH False by (subst show_nat.simps) simp
  qed
qed simp

text \<open>The array for the body is the only one that can be too small.\<close>

lemma requestError_eq:
  assumes "length errnum + length shortmsg < 100"
  shows "requestError cause errnum shortmsg longmsg io =
    (if length (error_body cause errnum shortmsg longmsg) < MAXBUF then
       then_run (put_say (''HTTP/1.0 '' @ errnum @ '' '' @ shortmsg @ CRLF) io) (\<lambda>io.
       then_run (put_say (''Content-Type: text/html'' @ CRLF) io) (\<lambda>io.
       then_run (put_say (''Content-Length: '' @ show_nat (length (error_body cause errnum shortmsg longmsg)) @ CRLF @ CRLF) io)
         (put_say (error_body cause errnum shortmsg longmsg))))
     else None)"
proof (cases "length (error_body cause errnum shortmsg longmsg) < MAXBUF")
  case True
  then have l: "length (show_nat (length (error_body cause errnum shortmsg longmsg))) \<le> 4"
    by (intro show_nat_length) auto
  have m: "length cause + length errnum + length shortmsg + length longmsg < MAXBUF - 88"
    using True by (simp add: error_body_def)
  then show ?thesis using assms True l
    by (simp add: requestError_def store_def error_body_def)
next
  case False
  then show ?thesis by (simp add: requestError_def store_def error_body_def)
qed

lemma requestError_replies:
  assumes "working io" "length errnum + length shortmsg < 100"
    "length (error_body cause errnum shortmsg longmsg) < MAXBUF"
  shows "replies io (error_reply cause errnum shortmsg longmsg) (requestError cause errnum shortmsg longmsg io)"
proof -
  let ?b = "error_body cause errnum shortmsg longmsg"
  have "replies io ((''HTTP/1.0 '' @ errnum @ '' '' @ shortmsg @ CRLF) @ (''Content-Type: text/html'' @ CRLF)
      @ (''Content-Length: '' @ show_nat (length ?b) @ CRLF @ CRLF) @ ?b)
    (requestError cause errnum shortmsg longmsg io)"
    unfolding requestError_eq[OF assms(2)] if_P[OF assms(3)]
    by (intro replies_then replies_put_say assms(1))
  then show ?thesis by (simp add: error_reply_def)
qed

section \<open>The handler\<close>

definition status_of :: "request_t \<Rightarrow> nat" where
  "status_of req =
     (if \<not> strcasecmp_eq (req_method req) ''GET'' then 501
      else if stat_return req < 0 then 404
      else if S_ISREG (st_mode (sbuf req))
          \<and> (if is_static req \<noteq> 0 then S_IRUSR else S_IXUSR) AND st_mode (sbuf req) \<noteq> 0 then 200
      else 403)"

text \<open>What the client of a request receives.\<close>

definition reply :: "web_os \<Rightarrow> request_t \<Rightarrow> string" where
  "reply os req =
     (if status_of req = 501 then
        error_reply (req_method req) ''501'' ''Not Implemented'' ''blg312e Server does not implement this method''
      else if status_of req = 404 then
        error_reply (filename req) ''404'' ''Not found'' ''blg312e Server could not find this file''
      else if status_of req = 403 then
        error_reply (filename req) ''403'' ''Forbidden''
          (if is_static req \<noteq> 0 then ''blg312e Server could not read this file''
           else ''blg312e Server could not run this CGI program'')
      else if is_static req \<noteq> 0 then
        static_reply (filename req) (the (map_file os (filename req) (st_size (sbuf req))))
      else dynamic_reply (cgi_output os (filename req) (cgiargs req)))"

text \<open>The calls for this request succeed: a static file still has the size that \<^verbatim>\<open>stat\<close> told, which is not 0.\<close>

definition served_well :: "web_os \<Rightarrow> request_t \<Rightarrow> bool" where
  "served_well os req \<longleftrightarrow> 0 \<le> close_rc os \<and> 0 \<le> munmap_rc os \<and> 0 \<le> wait_rc os \<and> 0 \<le> fork_rc os
     \<and> (is_static req \<noteq> 0 \<longrightarrow> 0 \<le> open_file os (filename req) \<and> 0 < st_size (sbuf req) \<and> st_size (sbuf req) < 2 ^ 31
          \<and> (\<exists>bytes. map_file os (filename req) (st_size (sbuf req)) = Some bytes
                \<and> int (length bytes) = st_size (sbuf req)))"

lemma to_int_small: "0 \<le> x \<Longrightarrow> x < 2 ^ 31 \<Longrightarrow> to_int x = x"
  by (simp add: to_int_def)

lemma filetype_length: "length (requestGetFiletype f) \<le> 10"
  by (simp add: requestGetFiletype_def)

lemma ServeStatic_replies:
  assumes "working io" "0 \<le> open_file os f" "0 \<le> close_rc os" "0 \<le> munmap_rc os"
    and "map_file os f n = Some bytes" "int (length bytes) = n" "n < 2 ^ 31"
  shows "replies io (static_reply f bytes) (requestServeStatic os f n io)"
proof -
  let ?h = "''HTTP/1.0 200 OK'' @ CRLF @ ''Server: blg312e Web Server'' @ CRLF
     @ ''Content-Length: '' @ show_nat (length bytes) @ CRLF @ ''Content-Type: '' @ requestGetFiletype f @ CRLF @ CRLF"
  have "length bytes < 10 ^ 10" using assms(6,7) by simp
  then have l: "length (show_nat (length bytes)) \<le> 10" by (intro show_nat_length) auto
  have eq: "requestServeStatic os f n io = then_run (put ?h io) (\<lambda>io. then_run (put bytes io)
      (\<lambda>io. then_run (Munmap (munmap_rc os)) (\<lambda>_. Some (Done io))))"
    using assms l filetype_length[of f]
    by (auto simp: requestServeStatic_def wrapper_defs store_def show_int_def)
  have "replies io (?h @ bytes @ []) (requestServeStatic os f n io)"
    unfolding eq using assms(4)
    by (intro replies_then replies_put assms(1)) (simp_all add: wrapper_defs replies_def)
  then show ?thesis by (simp add: static_reply_def)
qed

lemma ServeDynamic_replies:
  assumes "working io" "0 \<le> fork_rc os" "0 \<le> wait_rc os"
  shows "replies io (dynamic_reply (cgi_output os f args)) (requestServeDynamic os f args io)"
proof -
  let ?h = "''HTTP/1.0 200 OK'' @ CRLF @ ''Server: blg312e Web Server'' @ CRLF"
  have "replies io (?h @ cgi_output os f args) (requestServeDynamic os f args io)"
    unfolding requestServeDynamic_def using assms
    by (simp add: store_def wrapper_defs)
      (intro replies_then[where t = "''HTTP/1.0 200 OK'' @ CRLF @ ''Server: blg312e Web Server'' @ CRLF", simplified]
        replies_put[where t = "''HTTP/1.0 200 OK'' @ CRLF @ ''Server: blg312e Web Server'' @ CRLF", simplified],
       auto simp: replies_def working_def)
  then show ?thesis by (simp add: dynamic_reply_def)
qed

lemma handle_io:
  "sent (say t io) = sent io" "working (say t io) = working io"
  by (simp_all add: say_def working_def)

lemma requestHandle_sends:
  assumes "working io" "length (req_method req) < 8000" "length (filename req) < 8000"
    and "status_of req = 200 \<Longrightarrow> served_well os req"
  shows "\<exists>io'. requestHandle os req io = Some (Done io') \<and> sent io' = sent io @ reply os req \<and> working io'"
proof -
  let ?io = "say (req_method req @ '' '' @ uri req @ '' '' @ version req @ [CHR 0x0A]) io"
  have w: "working ?io" using assms(1) by (simp add: handle_io)
  have e: "length (error_body c n s l) < MAXBUF"
    if "length c < 8000" "length n + length s + length l < 80" for c n s l
    using that by (simp add: error_body_def)
  have "replies ?io (reply os req) (requestHandle os req io)"
  proof (cases "status_of req = 200")
    case False
    then have "status_of req = 501 \<or> status_of req = 404 \<or> status_of req = 403"
      by (simp add: status_of_def split: if_splits)
    then show ?thesis
      using w assms(2,3)
      by (auto simp: requestHandle_def Let_def reply_def status_of_def e split: if_splits
          intro!: requestError_replies)
  next
    case True
    then have ok: "strcasecmp_eq (req_method req) ''GET''" "\<not> stat_return req < 0" "S_ISREG (st_mode (sbuf req))"
      "(if is_static req \<noteq> 0 then S_IRUSR else S_IXUSR) AND st_mode (sbuf req) \<noteq> 0"
      by (auto simp: status_of_def split: if_splits)
    note good = assms(4)[OF True, unfolded served_well_def]
    show ?thesis
    proof (cases "is_static req = 0")
      case False
      then obtain bytes where b: "map_file os (filename req) (st_size (sbuf req)) = Some bytes"
        "int (length bytes) = st_size (sbuf req)" using good by auto
      have "requestHandle os req io = requestServeStatic os (filename req) (st_size (sbuf req)) ?io"
        using ok False good to_int_small[of "st_size (sbuf req)"] by (simp add: requestHandle_def Let_def)
      then show ?thesis using ServeStatic_replies[OF w _ _ _ b] False good True b
        by (simp add: reply_def)
    next
      case True
      have "requestHandle os req io = requestServeDynamic os (filename req) (cgiargs req) ?io"
        using ok True by (simp add: requestHandle_def Let_def)
      then show ?thesis using ServeDynamic_replies[OF w] True good \<open>status_of req = 200\<close>
        by (simp add: reply_def)
    qed
  qed
  then show ?thesis by (simp add: replies_def handle_io)
qed

text \<open>C25. On a connection that works and with a name that fits, the handler sends exactly the reply
  that belongs to the request: the status by method, existence, file type and permission, with the
  page of that error, the bytes of the file, or the output of the program.\<close>

theorem requestHandle_replies:
  assumes "working io" "length (req_method req) < 8000" "length (filename req) < 8000"
    and "status_of req = 200 \<Longrightarrow> served_well os req"
  shows "\<exists>io'. requestHandle os req io = Some (Done io') \<and> sent io' = sent io @ reply os req \<and> working io'"
  using assms by (rule requestHandle_sends)

definition demo_rio :: rio_t where
  "demo_rio = \<lparr>rio_cnt = 0, rio_ptr = 0, rio_buf = []\<rparr>"

definition demo_request :: request_t where
  "demo_request = \<lparr>connfd = 4, is_static = 1, stat_return = 0,
     sbuf = \<lparr>st_mode = 0x81A4, st_size = 5, st_mtime = 10\<rparr>, buf = [], req_method = ''get'', uri = ''/a.html'',
     version = ''HTTP/1.1'', filename = ''./a.html'', cgiargs = [], rio = demo_rio\<rparr>"

definition demo_web :: web_os where
  "demo_web = \<lparr>stat_file = (\<lambda>f. if f = ''./a.html'' then Some \<lparr>st_mode = 0x81A4, st_size = 5, st_mtime = 10\<rparr> else None),
     open_file = (\<lambda>f. 5), map_file = (\<lambda>f n. if n = 0 then None else Some ''hello''),
     fork_rc = 7, wait_rc = 7, close_rc = 0, munmap_rc = 0, cgi_output = (\<lambda>f q. ''done'')\<rparr>"

definition demo_conn :: conn where
  "demo_conn = \<lparr>sent = [], wr = [Takes 3, W_Intr], out = []\<rparr>"

lemma demo_working: "working demo_conn"
  by (simp add: working_def demo_conn_def)

lemma demo_get: "strcasecmp_eq ''get'' ''GET''" "strcasecmp_eq ''GET'' ''GET''" "\<not> strcasecmp_eq ''PUT'' ''GET''"
  by code_simp+

lemma demo_status: "status_of demo_request = 200"
  by (simp add: status_of_def demo_request_def demo_get S_ISREG_def S_IRUSR_def)

theorem requestHandle_replies_witness:
  "\<exists>io'. requestHandle demo_web demo_request demo_conn = Some (Done io')
     \<and> sent io' = static_reply ''./a.html'' ''hello''"
proof -
  have "served_well demo_web demo_request"
    by (simp add: served_well_def demo_web_def demo_request_def)
  moreover have "reply demo_web demo_request = static_reply ''./a.html'' ''hello''"
    unfolding reply_def demo_status by (simp add: demo_request_def demo_web_def)
  ultimately show ?thesis
    using requestHandle_replies[OF demo_working, of demo_request demo_web]
    by (auto simp: demo_request_def demo_conn_def)
qed

section \<open>Names that do not fit\<close>

text \<open>C36. The page of an error is composed in an array of 8192 characters with the name in it, and no
  length is checked: a request for a missing file with a name of 8050 characters or more overruns the
  array, and a request with a shorter one is answered.\<close>

theorem not_found_overrun:
  assumes "status_of req = 404" "working io"
  shows "requestHandle os req io = None \<longleftrightarrow> 8050 \<le> length (filename req)"
proof -
  let ?io = "say (req_method req @ '' '' @ uri req @ '' '' @ version req @ [CHR 0x0A]) io"
  have eq: "requestHandle os req io
      = requestError (filename req) ''404'' ''Not found'' ''blg312e Server could not find this file'' ?io"
    using assms(1) by (auto simp: requestHandle_def status_of_def Let_def split: if_splits)
  have l: "length (error_body (filename req) ''404'' ''Not found'' ''blg312e Server could not find this file'') < MAXBUF
      \<longleftrightarrow> length (filename req) < 8050"
    by (simp add: error_body_def)
  have "working ?io" using assms(2) by (simp add: handle_io)
  then show ?thesis
    using requestError_replies[of ?io "''404''" "''Not found''" "filename req" "''blg312e Server could not find this file''"]
      requestError_eq[of "''404''" "''Not found''" "filename req" "''blg312e Server could not find this file''" ?io] l
    unfolding eq by (cases "length (filename req) < 8050") (auto simp: replies_def)
qed

definition demo_missing :: request_t where
  "demo_missing = demo_request\<lparr>stat_return := -1, filename := ''./'' @ replicate 8100 (CHR ''x'')\<rparr>"

theorem not_found_overrun_witness: "requestHandle demo_web demo_missing demo_conn = None"
  using not_found_overrun[of demo_missing demo_conn demo_web] demo_working
  by (simp add: status_of_def demo_missing_def demo_request_def demo_get)

section \<open>An empty file\<close>

text \<open>C35. A request for an existing, readable, empty file ends the whole server: \<^verbatim>\<open>mmap\<close> refuses the
  length 0, and the wrapper exits before anything is sent.\<close>

theorem empty_file_exits:
  assumes "status_of req = 200" "is_static req \<noteq> 0" "st_size (sbuf req) = 0"
    and "0 \<le> open_file os (filename req)" "\<And>f. map_file os f 0 = None"
  shows "requestHandle os req io = Some (Died ''mmap error'')"
  using assms
  by (auto simp: requestHandle_def status_of_def requestServeStatic_def to_int_def wrapper_defs Let_def
      split: if_splits)

theorem empty_file_exits_witness:
  "requestHandle demo_web (demo_request\<lparr>sbuf := \<lparr>st_mode = 0x81A4, st_size = 0, st_mtime = 10\<rparr>\<rparr>) demo_conn
     = Some (Died ''mmap error'')"
  by (rule empty_file_exits)
    (simp_all add: status_of_def demo_request_def demo_get S_ISREG_def S_IRUSR_def demo_web_def)

section \<open>The end of the header lines\<close>

lemma take_line_empty: "take_line (Suc m) bs = [] \<longleftrightarrow> bs = []"
  by (cases bs) auto

text \<open>What follows the first line that holds only a carriage return and a newline.\<close>

function after_headers :: "string \<Rightarrow> string option" where
  "after_headers bs = (let l = take_line (MAXLINE - 1) bs in
     if bs = [] then None
     else if cstr l = CRLF then Some (drop (length l) bs)
     else after_headers (drop (length l) bs))"
  by auto

termination
proof (relation "measure length")
  fix bs :: string and l
  assume "l = take_line (MAXLINE - 1) bs" "bs \<noteq> []" "cstr l \<noteq> CRLF"
  then have "l \<noteq> []" using take_line_empty[of 8190 bs] by simp
  then show "(drop (length l) bs, bs) \<in> measure length" using \<open>bs \<noteq> []\<close> by simp
qed simp

declare after_headers.simps [simp del]

lemma Rio_readlineb_spec:
  assumes "rio_ok rp"
  shows "case pending rp es of (bs, e) \<Rightarrow> let l = take_line (MAXLINE - 1) bs in
     if ends_line l \<or> length l = MAXLINE - 1 then
       \<exists>rc rp' es'. Rio_readlineb rp MAXLINE es = Some (Done (rc, Some l, rp', es')) \<and> 0 < rc \<and> rio_ok rp'
         \<and> pending rp' es' = (drop (length l) bs, e)
     else case e of
       At_eof \<Rightarrow> \<exists>rc rp' es'. Rio_readlineb rp MAXLINE es = Some (Done (rc, if bs = [] then None else Some bs, rp', es'))
         \<and> (if bs = [] then rc = 0 else 0 < rc) \<and> rio_ok rp' \<and> pending rp' es' = ([], At_eof)
     | At_error \<Rightarrow> Rio_readlineb rp MAXLINE es = Some (Died ''Rio_readlineb error'')
     | At_stall \<Rightarrow> Rio_readlineb rp MAXLINE es = None"
proof -
  obtain bs e where p: "pending rp es = (bs, e)" by fastforce
  show ?thesis
    using rio_readline_loop_spec[OF assms, of 1 MAXLINE "[]" es] take_line_partial[of "MAXLINE - 1" bs]
    unfolding p Rio_readlineb_def rio_readlineb_def
    by (cases e) (auto simp: Let_def unix_error_def ends_line_def split: if_splits)
qed

lemma headers_never_end:
  assumes "rio_ok rp" "pending rp es = ([], At_eof)" "cstr b \<noteq> CRLF"
  shows "requestReadhdrs_loop b rp es = None"
proof (rule ccontr)
  assume "requestReadhdrs_loop b rp es \<noteq> None"
  then obtain y where y: "requestReadhdrs_loop b rp es = Some y" by blast
  have "\<not> (rio_ok rp \<and> pending rp es = ([], At_eof) \<and> cstr b \<noteq> CRLF)"
  proof (rule requestReadhdrs_loop.raw_induct[OF _ y])
    fix f b rp es y
    assume ih: "\<And>b rp es y. f b rp es = Some y \<Longrightarrow> \<not> (rio_ok rp \<and> pending rp es = ([], At_eof) \<and> cstr b \<noteq> CRLF)"
      and st: "(if cstr b = CRLF then Some (Done (rp, es))
        else do { r \<leftarrow> Rio_readlineb rp MAXLINE es;
          case r of Done (rc, l, rp, es) \<Rightarrow> f (case l of None \<Rightarrow> b | Some l \<Rightarrow> l) rp es
            | Died msg \<Rightarrow> Some (Died msg) }) = Some y"
    show "\<not> (rio_ok rp \<and> pending rp es = ([], At_eof) \<and> cstr b \<noteq> CRLF)"
    proof
      assume a: "rio_ok rp \<and> pending rp es = ([], At_eof) \<and> cstr b \<noteq> CRLF"
      then obtain rc rp' es' where "Rio_readlineb rp MAXLINE es = Some (Done (rc, None, rp', es'))"
        "rio_ok rp'" "pending rp' es' = ([], At_eof)"
        using Rio_readlineb_spec[of rp es] by (auto simp: ends_line_def Let_def)
      then show False using st a ih[of b rp' es' y] by auto
    qed
  qed
  then show False using assms by blast
qed

text \<open>One line of the headers: complete, or the last one, which then is not a blank line.\<close>

lemma after_headers_line:
  assumes "l = take_line (MAXLINE - 1) bs" "ends_line l \<or> length l = MAXLINE - 1"
  shows "after_headers bs = (if cstr l = CRLF then Some (drop (length l) bs) else after_headers (drop (length l) bs))"
    "length (drop (length l) bs) < length bs"
proof -
  have ne: "bs \<noteq> []" "l \<noteq> []" using assms by (auto simp: ends_line_def)
  then show "length (drop (length l) bs) < length bs" by simp
  show "after_headers bs = (if cstr l = CRLF then Some (drop (length l) bs) else after_headers (drop (length l) bs))"
    using ne(1) by (subst after_headers.simps) (simp add: assms(1) Let_def)
qed

lemma after_headers_partial:
  assumes "l = take_line (MAXLINE - 1) bs" "\<not> (ends_line l \<or> length l = MAXLINE - 1)"
  shows "after_headers bs = None" "cstr bs \<noteq> CRLF"
proof -
  have l: "l = bs" using assms take_line_partial[of "MAXLINE - 1" bs] by simp
  show nn: "cstr bs \<noteq> CRLF"
  proof
    assume "cstr bs = CRLF"
    then obtain cs where "bs = CRLF @ cs" unfolding cstr_def by (metis takeWhile_dropWhile_id)
    then have "ends_line l" by (simp add: assms(1) CRLF_def ends_line_def)
    then show False using assms(2) by simp
  qed
  have "take_line 8191 bs = bs" using l assms(1) by simp
  then show "after_headers bs = None"
    using nn by (subst after_headers.simps) (simp add: Let_def after_headers.simps[of "[]"])
qed

lemma requestReadhdrs_spec:
  assumes "rio_ok rp" "cstr b \<noteq> CRLF"
  shows "case pending rp es of (bs, e) \<Rightarrow> (case after_headers bs of
      Some rest \<Rightarrow> \<exists>rp' es'. requestReadhdrs_loop b rp es = Some (Done (rp', es')) \<and> rio_ok rp'
        \<and> pending rp' es' = (rest, e)
    | None \<Rightarrow> (case e of At_error \<Rightarrow> requestReadhdrs_loop b rp es = Some (Died ''Rio_readlineb error'')
        | _ \<Rightarrow> requestReadhdrs_loop b rp es = None))"
  using assms
proof (induction "length (fst (pending rp es))" arbitrary: b rp es rule: less_induct)
  case less
  obtain bs e where p: "pending rp es = (bs, e)" by fastforce
  define l where "l = take_line (MAXLINE - 1) bs"
  note spec = Rio_readlineb_spec[OF less.prems(1), of es, unfolded p prod.case, folded l_def, unfolded Let_def]
  show ?case
  proof (cases "ends_line l \<or> length l = MAXLINE - 1")
    case True
    note ah = after_headers_line[OF l_def True]
    obtain rc rp' es' where r: "Rio_readlineb rp MAXLINE es = Some (Done (rc, Some l, rp', es'))" "rio_ok rp'"
      "pending rp' es' = (drop (length l) bs, e)" using spec True by auto
    have step: "requestReadhdrs_loop b rp es = requestReadhdrs_loop l rp' es'"
      using r less.prems(2) by (subst requestReadhdrs_loop.simps) simp
    show ?thesis
    proof (cases "cstr l = CRLF")
      case True
      then show ?thesis using ah r step p by (simp add: requestReadhdrs_loop.simps)
    next
      case False
      then show ?thesis using less.hyps[of rp' es' l] r ah unfolding step p by simp
    qed
  next
    case False
    note ah = after_headers_partial[OF l_def False]
    show ?thesis
    proof (cases e)
      case At_eof
      then obtain rc rp' es' where r: "Rio_readlineb rp MAXLINE es = Some (Done (rc, if bs = [] then None else Some bs, rp', es'))"
        "rio_ok rp'" "pending rp' es' = ([], At_eof)" using spec False by auto
      have "requestReadhdrs_loop b rp es = requestReadhdrs_loop (if bs = [] then b else bs) rp' es'"
        using r(1) less.prems(2) by (subst requestReadhdrs_loop.simps) simp
      then show ?thesis using headers_never_end[OF r(2,3)] less.prems(2) p ah At_eof by simp
    qed (use spec False less.prems(2) p ah in \<open>simp_all add: requestReadhdrs_loop.simps\<close>)
  qed
qed

lemma requestReadhdrs_reads:
  assumes "rio_ok rp" "pending rp es = (c # cs, e)"
  shows "case after_headers (c # cs) of
      Some rest \<Rightarrow> \<exists>rp' es'. requestReadhdrs b rp es = Some (Done (rp', es')) \<and> pending rp' es' = (rest, e)
    | None \<Rightarrow> requestReadhdrs b rp es
        = (if e = At_error then Some (Died ''Rio_readlineb error'') else None)"
proof -
  define b' :: string where "b' = []"
  have b': "cstr b' \<noteq> CRLF" by (simp add: b'_def cstr_def CRLF_def)
  have "requestReadhdrs b rp es = requestReadhdrs_loop b' rp es"
    using Rio_readlineb_spec[OF assms(1), of es] b' assms(2)
    by (subst requestReadhdrs_loop.simps, cases e)
      (auto simp: requestReadhdrs_def Let_def split: if_splits)
  then show ?thesis using requestReadhdrs_spec[OF assms(1) b', of es] assms(2)
    by (cases e) (auto split: option.splits)
qed

lemma requestReadhdrs_stalls:
  assumes "rio_ok rp" "pending rp es = (bs, At_stall)" "after_headers bs = None"
  shows "requestReadhdrs b rp es = None"
proof (cases bs)
  case Nil
  then show ?thesis using Rio_readlineb_spec[OF assms(1), of es] assms(2) by (simp add: requestReadhdrs_def ends_line_def)
next
  case (Cons c cs)
  then show ?thesis using requestReadhdrs_reads[OF assms(1), of es c cs At_stall b] assms(2,3) by simp
qed

lemma headers_end:
  assumes "rio_ok rp" "pending rp es = (bs, e)" "bs \<noteq> []" "after_headers bs = Some rest"
  shows "\<exists>rp' es'. requestReadhdrs b rp es = Some (Done (rp', es')) \<and> pending rp' es' = (rest, e)"
  using requestReadhdrs_reads[OF assms(1), of es _ _ e b] assms(2-4) by (cases bs) auto

text \<open>C32. Skipping the headers: with a blank line in the input the function stops right after it; with a
  read error the server process ends; and when the client closes the connection, or falls silent,
  before a blank line, the function never returns.\<close>

theorem requestReadhdrs_correct:
  assumes "rio_ok rp" "pending rp es = (c # cs, e)"
  shows "case after_headers (c # cs) of
      Some rest \<Rightarrow> \<exists>rp' es'. requestReadhdrs b rp es = Some (Done (rp', es')) \<and> pending rp' es' = (rest, e)
    | None \<Rightarrow> requestReadhdrs b rp es
        = (if e = At_error then Some (Died ''Rio_readlineb error'') else None)"
  using assms by (rule requestReadhdrs_reads)

theorem requestReadhdrs_correct_witness:
  "requestReadhdrs ''?'' demo_rio [Chunk ''Host: a''] = None"
proof -
  have "rio_ok demo_rio" "pending demo_rio [Chunk ''Host: a''] = (''Host: a'', At_eof)"
    by (simp_all add: rio_ok_def pending_def unread_def demo_rio_def)
  moreover have "after_headers ''Host: a'' = None"
    by (simp add: after_headers.simps Let_def cstr_def CRLF_def)
  ultimately show ?thesis using requestReadhdrs_correct[of demo_rio "[Chunk ''Host: a'']" "CHR ''H''" "''ost: a''" At_eof "''?''"]
    by simp
qed

section \<open>Addresses\<close>

text \<open>C33. Parsing an address: outside the cases in which it reads or writes out of bounds (an empty
  address, or a file name of more than 8191 characters), the file name is a dot, the address up to its
  question mark, and \<^verbatim>\<open>home.html\<close> after a final slash; the address is what was kept of it, then the
  question mark and the arguments. Any address that contains \<^verbatim>\<open>cgi\<close> somewhere is a program.\<close>

theorem requestParseURI_correct:
  assumes "length u < MAXLINE"
  shows "case requestParseURI u of
      None \<Rightarrow> u = [] \<or> MAXLINE - 1 \<le> length u
        \<or> \<not> contains ''cgi'' u \<and> last u = CHR ''/'' \<and> MAXLINE - 10 \<le> length u
    | Some (static, u', fname, args) \<Rightarrow> u \<noteq> [] \<and> (static = 1 \<longleftrightarrow> \<not> contains ''cgi'' u) \<and> length fname < MAXLINE
        \<and> (\<exists>suffix. fname = ''.'' @ u' @ suffix
             \<and> suffix = (if static = 1 \<and> last u = CHR ''/'' then ''home.html'' else []))
        \<and> (if static = 0 \<and> CHR ''?'' \<in> set u then u = u' @ ''?'' @ args \<and> CHR ''?'' \<notin> set u'
           else u' = u \<and> args = [])"
proof -
  have cut: "u = takeWhile (\<lambda>c. c \<noteq> CHR ''?'') u @ ''?'' @ tl (dropWhile (\<lambda>c. c \<noteq> CHR ''?'') u)"
    if "CHR ''?'' \<in> set u"
  proof -
    have "dropWhile (\<lambda>c. c \<noteq> CHR ''?'') u = CHR ''?'' # tl (dropWhile (\<lambda>c. c \<noteq> CHR ''?'') u)"
      using that hd_dropWhile[of "\<lambda>c. c \<noteq> CHR ''?''" u] by (cases "dropWhile (\<lambda>c. c \<noteq> CHR ''?'') u") auto
    then show ?thesis using takeWhile_dropWhile_id[of "\<lambda>c. c \<noteq> CHR ''?''" u] by simp
  qed
  have len: "length (takeWhile (\<lambda>c. c \<noteq> CHR ''?'') u) + length (tl (dropWhile (\<lambda>c. c \<noteq> CHR ''?'') u)) < length u"
    if "CHR ''?'' \<in> set u"
    using arg_cong[OF cut[OF that], of length] by simp
  have q: "CHR ''?'' \<notin> set (takeWhile (\<lambda>c. c \<noteq> CHR ''?'') u)" by (auto dest: set_takeWhileD)
  have cgi: "u \<noteq> []" if "contains ''cgi'' u" using that by auto
  show ?thesis
    using assms cut len q cgi
    by (auto simp: requestParseURI_def store_def split: option.splits if_splits)
qed

theorem requestParseURI_correct_witness:
  "requestParseURI ''/output.cgi?5'' = Some (0, ''/output.cgi'', ''./output.cgi'', ''5'')
   \<and> (case requestParseURI ''/output.cgi?5'' of
      None \<Rightarrow> False
    | Some (static, u', fname, args) \<Rightarrow> ''/output.cgi?5'' = u' @ ''?'' @ args)"
proof -
  have "requestParseURI ''/output.cgi?5'' = Some (0, ''/output.cgi'', ''./output.cgi'', ''5'')"
    by (simp add: requestParseURI_def store_def)
  then show ?thesis using requestParseURI_correct[of "''/output.cgi?5''"] by simp
qed

end
