(* ===== verification/RequestQueue.thy ===== *)
theory RequestQueue
  imports Request Fifo
begin

text \<open>
  The request buffer of \<^verbatim>\<open>multiThreadedWebServer/server.c\<close>: its ring of slots, what \<^verbatim>\<open>queue_put\<close> does
  between its semaphores, and what a thread of \<^verbatim>\<open>thread_handle\<close> does between its own. \<open>None\<close> is an
  access outside the array, or a call that never returns.
\<close>

section \<open>Globals and start\<close>

record server =
  queue :: "request_t list"
  head :: nat
  tail :: nat
  request_count :: int
  sched_policy :: string

abbreviation nbuffer :: "server \<Rightarrow> nat" where
  "nbuffer s \<equiv> length (queue s)"

definition printQueue :: "server \<Rightarrow> string" where
  "printQueue s = concat (map (\<lambda>r. show_int (connfd r) @ '' '') (queue s))
     @ ''head: '' @ show_nat (head s) @ '', tail: '' @ show_nat (tail s) @ [CHR 0x0A]"

text \<open>\<^verbatim>\<open>getargs\<close>: the message with which the program exits, or the port, the number of threads, the number
  of slots and the policy.\<close>

definition getargs :: "string list \<Rightarrow> string + (int \<times> int \<times> int \<times> string)" where
  "getargs argv =
     (if length argv \<noteq> 5 then Inl (''Usage: '' @ concat (take 1 argv) @ '' <port> <threads> <buffers> <sched_policy>'' @ [CHR 0x0A])
      else if atoi (argv ! 1) \<le> 2000 then Inl ''Port number must be larger than 2000''
      else if atoi (argv ! 2) \<le> 0 then Inl ''Threads must be a positive integer''
      else if atoi (argv ! 3) \<le> 0 then Inl ''Buffers must be a positive integer''
      else if argv ! 4 \<noteq> ''FIFO'' \<and> argv ! 4 \<noteq> ''SFF'' \<and> argv ! 4 \<noteq> ''RFF'' then
        Inl (''Invalid scheduling policy'' @ [CHR 0x0A] @ ''Available scheduling policies: FIFO, SFF, RFF'')
      else Inr (atoi (argv ! 1), atoi (argv ! 2), atoi (argv ! 3), argv ! 4))"

text \<open>The set-up of \<^verbatim>\<open>main\<close>; \<open>mem\<close> is what the allocated array happens to hold.\<close>

definition start_server :: "request_t list \<Rightarrow> string \<Rightarrow> server" where
  "start_server mem policy = \<lparr>queue = map (\<lambda>r. r\<lparr>connfd := -1\<rparr>) mem, head = 0, tail = 0, request_count = 0,
     sched_policy = policy\<rparr>"

section \<open>shift_queue_left\<close>

lemma ring_distance:
  fixes i n stop :: nat
  assumes "i < n" "stop < n" "i \<noteq> stop"
  shows "(stop + n - Suc i mod n) mod n < (stop + n - i) mod n"
proof (cases "i + 1 = n")
  case True
  then have "i = n - 1" by simp
  then have "(stop + n - i) mod n = (stop + 1) mod n" using assms by simp
  then show ?thesis using True assms by simp
next
  case False
  then have m: "Suc i mod n = i + 1" using assms by simp
  show ?thesis
  proof (cases "i < stop")
    case True
    then have e: "stop + n - (i + 1) = stop - (i + 1) + n" "stop + n - i = stop - i + n" by auto
    show ?thesis using True assms(2) unfolding m e mod_add_self2 by simp
  next
    case False
    then have "stop + n - i < n" using assms by simp
    then show ?thesis using assms unfolding m by simp
  qed
qed

function shift_loop :: "nat \<Rightarrow> nat \<Rightarrow> request_t list \<Rightarrow> request_t list option" where
  "shift_loop stop i q =
     (if i = stop then Some q
      else if i < length q \<and> stop < length q then
        shift_loop stop ((i + 1) mod length q) (q[i := q ! ((i + 1) mod length q)])
      else None)"
  by auto

termination
  by (relation "measure (\<lambda>(stop, i, q). (stop + length q - i) mod length q)")
    (use ring_distance in auto)

declare shift_loop.simps [simp del]

definition shift_queue_left :: "nat \<Rightarrow> server \<Rightarrow> server option" where
  "shift_queue_left start_index s = (let stop = (tail s + nbuffer s - 1) mod nbuffer s in do {
     q \<leftarrow> shift_loop stop start_index (queue s);
     let q = q[stop := (q ! stop)\<lparr>connfd := -1\<rparr>] in
     Some (s\<lparr>queue := q, head := (if stop = head s then (head s + 1) mod nbuffer s else head s), tail := stop\<rparr>) })"

section \<open>A thread takes a request\<close>

abbreviation LONG_MAX :: int where "LONG_MAX \<equiv> 2 ^ 63 - 1"

fun rff_scan :: "request_t list \<Rightarrow> int \<Rightarrow> int \<Rightarrow> int \<Rightarrow> int" where
  "rff_scan [] i latest target = target"
| "rff_scan (r # rs) i latest target =
     (if connfd r \<noteq> -1 \<and> st_mtime (sbuf r) > latest then rff_scan rs (i + 1) (st_mtime (sbuf r)) i
      else rff_scan rs (i + 1) latest target)"

fun sff_scan :: "request_t list \<Rightarrow> int \<Rightarrow> int \<Rightarrow> int \<Rightarrow> int" where
  "sff_scan [] i smallest target = target"
| "sff_scan (r # rs) i smallest target =
     (if connfd r \<noteq> -1 \<and> st_size (sbuf r) < smallest then sff_scan rs (i + 1) (st_size (sbuf r)) i
      else sff_scan rs (i + 1) smallest target)"

definition find_target :: "server \<Rightarrow> int" where
  "find_target s =
     (if sched_policy s = ''FIFO'' then int (head s)
      else if sched_policy s = ''RFF'' then rff_scan (queue s) 0 (-1) (-1)
      else if sched_policy s = ''SFF'' then sff_scan (queue s) 0 LONG_MAX (-1)
      else -1)"

text \<open>The critical section of \<^verbatim>\<open>thread_handle\<close>: the copy of the request, and the buffer without it.\<close>

definition take_request :: "server \<Rightarrow> (request_t \<times> server) option" where
  "take_request s = (let target = find_target s in
     if target < 0 \<or> int (nbuffer s) \<le> target then None
     else let t = nat target; request = queue s ! t; s = s\<lparr>queue := (queue s)[t := request\<lparr>connfd := -1\<rparr>]\<rparr> in do {
       s \<leftarrow> (if t = head s then Some (s\<lparr>head := (head s + 1) mod nbuffer s\<rparr>) else shift_queue_left t s);
       Some (request, s\<lparr>request_count := request_count s - 1\<rparr>) })"

section \<open>queue_put\<close>

text \<open>\<^verbatim>\<open>sscanf\<close> with three words: an array is written only when its word is there.\<close>

definition scan_word :: "string \<Rightarrow> string \<times> string" where
  "scan_word s = (let t = dropWhile isspace s in
     (takeWhile (\<lambda>c. \<not> isspace c) t, dropWhile (\<lambda>c. \<not> isspace c) t))"

definition sscanf3 :: "string \<Rightarrow> string \<times> string \<times> string \<Rightarrow> string \<times> string \<times> string" where
  "sscanf3 s olds = (let (a, s) = scan_word s; (b, s) = scan_word s; (c, s) = scan_word s; (m, u, v) = olds in
     (if a = [] then m else a, if b = [] then u else b, if c = [] then v else c))"

text \<open>The slot at the tail is filled from the connection \<open>fd\<close> whose input is \<open>es\<close>; \<open>junk\<close> is the
  uninitialised array of \<^verbatim>\<open>requestReadhdrs\<close>. A failed \<^verbatim>\<open>stat\<close> leaves the old file data.\<close>

definition fill_slot :: "web_os \<Rightarrow> int \<Rightarrow> string \<Rightarrow> read_event list \<Rightarrow> request_t \<Rightarrow> request_t run" where
  "fill_slot os fd junk es slot =
     then_run (Rio_readlineb (rio_readinitb (rio slot)) MAXLINE es) (\<lambda>(rc, l, rp, es).
       let line = (case l of None \<Rightarrow> buf slot | Some l \<Rightarrow> l);
           (m, u, v) = sscanf3 (cstr line) (req_method slot, uri slot, version slot)
       in do {
         (static, u, fname, args) \<leftarrow> requestParseURI u;
         let st = stat_file os fname in
         then_run (requestReadhdrs junk rp es) (\<lambda>(rp, es). Some (Done
           \<lparr>connfd = fd, is_static = static, stat_return = (if st = None then -1 else 0),
            sbuf = (case st of None \<Rightarrow> sbuf slot | Some b \<Rightarrow> b), buf = line, req_method = m, uri = u, version = v,
            filename = fname, cgiargs = args, rio = rp\<rparr>)) })"

definition publish :: "request_t \<Rightarrow> server \<Rightarrow> server option" where
  "publish r s = (if tail s < nbuffer s then
     Some (s\<lparr>queue := (queue s)[tail s := r], tail := (tail s + 1) mod nbuffer s, request_count := request_count s + 1\<rparr>)
   else None)"

definition queue_put :: "web_os \<Rightarrow> int \<Rightarrow> string \<Rightarrow> read_event list \<Rightarrow> server \<Rightarrow> server run" where
  "queue_put os fd junk es s = (if tail s < nbuffer s then
     then_run (fill_slot os fd junk es (queue s ! tail s)) (\<lambda>r. do { s \<leftarrow> publish r s; Some (Done s) })
   else None)"

end
