(* ===== verification/RingProps.thy ===== *)
theory RingProps
  imports RequestQueue
begin

text \<open>
  The ring of request slots as a queue: its invariant, the list of the waiting requests, what putting and
  taking do to that list, and which request each scheduling policy takes. The ring is an instance of
  the bounded queue contract.
\<close>

section \<open>Positions in the ring\<close>

definition slot_at :: "nat \<Rightarrow> nat \<Rightarrow> nat \<Rightarrow> nat" where
  "slot_at n h k = (h + k) mod n"

lemma slot_at_less [simp]: "0 < n \<Longrightarrow> slot_at n h k < n"
  by (simp add: slot_at_def)

lemma slot_at_0 [simp]: "h < n \<Longrightarrow> slot_at n h 0 = h"
  by (simp add: slot_at_def)

lemma slot_at_Suc: "slot_at n h (Suc k) = Suc (slot_at n h k) mod n"
  by (simp add: slot_at_def mod_Suc_eq)

lemma slot_at_Suc_head: "slot_at n (Suc h mod n) k = slot_at n h (Suc k)"
  by (simp add: slot_at_def mod_add_left_eq)

lemma slot_at_inj: "k < n \<Longrightarrow> j < n \<Longrightarrow> slot_at n h k = slot_at n h j \<longleftrightarrow> k = j"
proof
  assume a: "k < n" "j < n" "slot_at n h k = slot_at n h j"
  have "k mod n = j mod n" using a(3) unfolding slot_at_def
    by (simp add: mod_eq_dvd_iff_nat nat_mod_eq_iff)
  then show "k = j" using a by simp
qed simp

lemma slot_at_surj:
  assumes "i < n" "h < n"
  obtains k where "k < n" "slot_at n h k = i"
proof
  show "(i + n - h) mod n < n" using assms by simp
  have "slot_at n h ((i + n - h) mod n) = (h + (i + n - h)) mod n" by (simp add: slot_at_def mod_add_right_eq)
  also have "\<dots> = i" using assms by simp
  finally show "slot_at n h ((i + n - h) mod n) = i" .
qed

lemma slot_before:
  assumes "0 < n" "0 < k"
  shows "(slot_at n h k + n - 1) mod n = slot_at n h (k - 1)"
proof -
  obtain j where k: "k = Suc j" using assms(2) by (cases k) auto
  show ?thesis
  proof (cases "Suc (slot_at n h j) = n")
    case True
    then show ?thesis using assms by (simp add: k slot_at_Suc)
  next
    case False
    then have "Suc (slot_at n h j) < n" using slot_at_less[OF assms(1), of h j] by simp
    then show ?thesis by (simp add: k slot_at_Suc)
  qed
qed

section \<open>The invariant and the waiting requests\<close>

definition ring_ok :: "server \<Rightarrow> bool" where
  "ring_ok s \<longleftrightarrow> head s < nbuffer s \<and> 0 \<le> request_count s \<and> nat (request_count s) \<le> nbuffer s
     \<and> tail s = slot_at (nbuffer s) (head s) (nat (request_count s))
     \<and> (\<forall>k < nbuffer s. connfd (queue s ! slot_at (nbuffer s) (head s) k) \<noteq> -1 \<longleftrightarrow> k < nat (request_count s))"

definition waiting :: "server \<Rightarrow> request_t list" where
  "waiting s = map (\<lambda>k. queue s ! slot_at (nbuffer s) (head s) k) [0 ..< nat (request_count s)]"

lemma waiting_length [simp]: "length (waiting s) = nat (request_count s)"
  by (simp add: waiting_def)

lemma waiting_nth: "k < nat (request_count s) \<Longrightarrow> waiting s ! k = queue s ! slot_at (nbuffer s) (head s) k"
  by (simp add: waiting_def)

lemma start_server_ok:
  assumes "mem \<noteq> []"
  shows "ring_ok (start_server mem policy)" "waiting (start_server mem policy) = []"
  using assms by (auto simp: ring_ok_def start_server_def waiting_def nth_map)

lemma publish_ok:
  assumes "ring_ok s" "nat (request_count s) < nbuffer s" "connfd r \<noteq> -1"
  shows "\<exists>s'. publish r s = Some s' \<and> ring_ok s' \<and> waiting s' = waiting s @ [r]
    \<and> nbuffer s' = nbuffer s \<and> sched_policy s' = sched_policy s \<and> request_count s' = request_count s + 1"
proof -
  let ?n = "nbuffer s" and ?k = "nat (request_count s)"
  let ?s = "s\<lparr>queue := (queue s)[tail s := r], tail := (tail s + 1) mod ?n, request_count := request_count s + 1\<rparr>"
  have t: "tail s = slot_at ?n (head s) ?k" and n: "0 < ?n" "0 \<le> request_count s" using assms(1) by (auto simp: ring_ok_def)
  have c: "nat (request_count s + 1) = Suc ?k" using n(2) by (simp add: nat_add_distrib)
  have upd: "queue ?s ! slot_at ?n (head s) j = (if j = ?k then r else queue s ! slot_at ?n (head s) j)"
    if "j < ?n" for j
    using that assms(2) n by (auto simp: t nth_list_update slot_at_inj)
  have "ring_ok ?s"
    using assms n c upd by (auto simp: ring_ok_def slot_at_Suc less_Suc_eq)
  moreover have "waiting ?s = waiting s @ [r]"
    unfolding waiting_def using upd assms(2) c by (auto simp: less_Suc_eq)
  moreover have "publish r s = Some ?s" using t n(1) by (simp add: publish_def)
  ultimately show ?thesis by auto
qed

section \<open>Taking from any place\<close>

lemma shift_loop_spec:
  assumes "0 < n" "length q = n" "i \<le> m" "m < n"
  shows "\<exists>q'. shift_loop (slot_at n h m) (slot_at n h i) q = Some q' \<and> length q' = n
    \<and> (\<forall>k < n. q' ! slot_at n h k = (if i \<le> k \<and> k < m then q ! slot_at n h (Suc k) else q ! slot_at n h k))"
  using assms(2,3)
proof (induction "m - i" arbitrary: i q)
  case 0
  then show ?case by (auto simp: shift_loop.simps)
next
  case (Suc d)
  have i: "i < m" "d = m - Suc i" using Suc.hyps(2) by auto
  let ?q = "q[slot_at n h i := q ! slot_at n h (Suc i)]"
  have ne: "slot_at n h i \<noteq> slot_at n h m" using i assms(4) by (simp add: slot_at_inj)
  have step: "shift_loop (slot_at n h m) (slot_at n h i) q = shift_loop (slot_at n h m) (slot_at n h (Suc i)) ?q"
    using ne assms(1) Suc.prems(1) by (subst shift_loop.simps) (simp add: slot_at_Suc)
  obtain q' where q': "shift_loop (slot_at n h m) (slot_at n h (Suc i)) ?q = Some q'" "length q' = n"
    "\<forall>k < n. q' ! slot_at n h k = (if Suc i \<le> k \<and> k < m then ?q ! slot_at n h (Suc k) else ?q ! slot_at n h k)"
    using Suc.hyps(1)[OF i(2), of ?q] Suc.prems i(1) by auto
  have upd: "?q ! slot_at n h j = (if j = i then q ! slot_at n h (Suc i) else q ! slot_at n h j)" if "j < n" for j
    using that i assms(1,4) Suc.prems(1) by (auto simp: nth_list_update slot_at_inj)
  have "q' ! slot_at n h k = (if i \<le> k \<and> k < m then q ! slot_at n h (Suc k) else q ! slot_at n h k)"
    if "k < n" for k
    using q'(3) that upd[OF that] upd[of "Suc k"] assms(4) i(1) by auto
  then show ?case using step q'(1,2) by auto
qed

lemma ring_okD:
  assumes "ring_ok s"
  shows "head s < nbuffer s" "0 < nbuffer s" "nat (request_count s) \<le> nbuffer s"
    "tail s = slot_at (nbuffer s) (head s) (nat (request_count s))"
    "k < nbuffer s \<Longrightarrow> connfd (queue s ! slot_at (nbuffer s) (head s) k) \<noteq> -1 \<longleftrightarrow> k < nat (request_count s)"
  using assms by (auto simp: ring_ok_def intro: le_less_trans[OF le0])

definition emptied :: "nat \<Rightarrow> server \<Rightarrow> server" where
  "emptied t s = s\<lparr>queue := (queue s)[t := (queue s ! t)\<lparr>connfd := -1\<rparr>]\<rparr>"

lemma emptied_simps [simp]:
  "nbuffer (emptied t s) = nbuffer s" "head (emptied t s) = head s" "tail (emptied t s) = tail s"
  "request_count (emptied t s) = request_count s" "sched_policy (emptied t s) = sched_policy s"
  by (simp_all add: emptied_def)

lemma emptied_nth:
  assumes "j < nbuffer s" "p < nbuffer s"
  shows "queue (emptied (slot_at (nbuffer s) h p) s) ! slot_at (nbuffer s) h j
    = (let r = queue s ! slot_at (nbuffer s) h j in if j = p then r\<lparr>connfd := -1\<rparr> else r)"
proof -
  have "0 < nbuffer s" using assms(1) by (rule le_less_trans[OF le0])
  then show ?thesis using assms
    by (auto simp: emptied_def nth_list_update slot_at_inj slot_at_less[of "nbuffer s"] simp del: length_greater_0_conv)
qed

lemma take_request_eq:
  assumes "ring_ok s" "p < nat (request_count s)" "find_target s = int (slot_at (nbuffer s) (head s) p)"
  shows "take_request s = do {
     s' \<leftarrow> (if slot_at (nbuffer s) (head s) p = head s
            then Some ((emptied (head s) s)\<lparr>head := Suc (head s) mod nbuffer s\<rparr>)
            else shift_queue_left (slot_at (nbuffer s) (head s) p) (emptied (slot_at (nbuffer s) (head s) p) s));
     Some (waiting s ! p, s'\<lparr>request_count := request_count s' - 1\<rparr>) }"
  using assms slot_at_less[OF ring_okD(2)[OF assms(1)], of "head s" p]
  by (simp add: take_request_def Let_def waiting_nth emptied_def)

text \<open>The front request: only the head moves.\<close>

lemma take_front_ok:
  assumes "ring_ok s" "0 < nat (request_count s)"
    "s' = (emptied (head s) s)\<lparr>head := Suc (head s) mod nbuffer s, request_count := request_count s - 1\<rparr>"
  shows "ring_ok s'" "waiting s' = drop 1 (waiting s)"
proof -
  let ?n = "nbuffer s" and ?c = "nat (request_count s)" and ?h = "head s"
  note inv = ring_okD[OF assms(1)]
  have f: "nbuffer s' = ?n" "tail s' = tail s" "request_count s' = request_count s - 1" "head s' = Suc ?h mod ?n"
    by (simp_all add: assms(3))
  have c: "nat (request_count s - 1) = ?c - 1" "0 \<le> request_count s - 1" using assms(2) by auto
  have old: "queue s' ! slot_at ?n (Suc ?h mod ?n) k = queue s ! slot_at ?n ?h (Suc k)" if "Suc k < ?n" for k
    using emptied_nth[OF that inv(2), of ?h] inv(1) by (simp add: assms(3) slot_at_Suc_head Let_def)
  have wrap: "connfd (queue s' ! slot_at ?n (Suc ?h mod ?n) k) = -1" if "Suc k = ?n" for k
    using emptied_nth[OF inv(2) inv(2), of ?h] inv(1) that
    by (simp add: assms(3) slot_at_Suc_head slot_at_def[of ?n ?h ?n] Let_def)
  have "connfd (queue s' ! slot_at ?n (Suc ?h mod ?n) k) \<noteq> -1 \<longleftrightarrow> k < ?c - 1" if "k < ?n" for k
    using old[of k] wrap[of k] inv(3) inv(5)[of "Suc k"] that by (cases "Suc k = ?n") auto
  moreover have "tail s = slot_at ?n (Suc ?h mod ?n) (?c - 1)"
    using inv(4) assms(2) by (simp add: slot_at_Suc_head)
  moreover have "?c - 1 \<le> ?n" using inv(3) by linarith
  ultimately show "ring_ok s'" using inv(2) c f by (auto simp: ring_ok_def)
  show "waiting s' = drop 1 (waiting s)"
    by (rule nth_equalityI) (use f old inv(3) c(1) in \<open>auto simp: waiting_nth waiting_def\<close>)
qed

text \<open>A request behind it: those after it move up one slot, the last slot becomes empty.\<close>

lemma take_behind_ok:
  assumes "ring_ok s" "0 < p" "p < nat (request_count s)"
  shows "\<exists>s'. shift_queue_left (slot_at (nbuffer s) (head s) p) (emptied (slot_at (nbuffer s) (head s) p) s) = Some s'
    \<and> request_count s' = request_count s \<and> nbuffer s' = nbuffer s \<and> sched_policy s' = sched_policy s
    \<and> ring_ok (s'\<lparr>request_count := request_count s - 1\<rparr>)
    \<and> waiting (s'\<lparr>request_count := request_count s - 1\<rparr>) = take p (waiting s) @ drop (Suc p) (waiting s)"
proof -
  let ?n = "nbuffer s" and ?c = "nat (request_count s)" and ?h = "head s"
  let ?t = "slot_at ?n ?h p" and ?m = "?c - 1"
  let ?e = "emptied ?t s"
  note inv = ring_okD[OF assms(1)]
  have m: "p \<le> ?m" "?m < ?n" "p < ?n" "0 < ?m" using assms(2,3) inv(3) by auto
  have c: "nat (request_count s - 1) = ?m" "0 \<le> request_count s - 1" using assms(3) by auto
  have ne: "slot_at ?n ?h ?m \<noteq> ?h" using slot_at_inj[of ?m ?n 0 ?h] m inv(1,2) by auto
  have stop: "(tail s + ?n - 1) mod ?n = slot_at ?n ?h ?m"
    using slot_before[OF inv(2)] inv(4) assms(3) by simp
  obtain q' where q': "shift_loop (slot_at ?n ?h ?m) ?t (queue ?e) = Some q'" "length q' = ?n"
    "\<forall>k < ?n. q' ! slot_at ?n ?h k
        = (if p \<le> k \<and> k < ?m then queue ?e ! slot_at ?n ?h (Suc k) else queue ?e ! slot_at ?n ?h k)"
    using shift_loop_spec[OF inv(2), of "queue ?e" p ?m ?h] m by auto
  let ?q = "q'[slot_at ?n ?h ?m := (q' ! slot_at ?n ?h ?m)\<lparr>connfd := -1\<rparr>]"
  let ?s = "s\<lparr>queue := ?q, tail := slot_at ?n ?h ?m\<rparr>"
  have val: "?q ! slot_at ?n ?h k = (if p \<le> k \<and> k < ?m then queue s ! slot_at ?n ?h (Suc k)
       else if k = ?m then (q' ! slot_at ?n ?h ?m)\<lparr>connfd := -1\<rparr> else queue s ! slot_at ?n ?h k)"
    if "k < ?n" for k
    using that m q'(2,3) emptied_nth[OF that m(3)] emptied_nth[OF _ m(3), of "Suc k"] slot_at_less[OF inv(2)]
    by (auto simp: nth_list_update slot_at_inj Let_def simp del: length_greater_0_conv)
  have "connfd (?q ! slot_at ?n ?h k) \<noteq> -1 \<longleftrightarrow> k < ?m" if "k < ?n" for k
    using val[OF that] inv(5)[of k] inv(5)[of "Suc k"] that m by auto
  then have "ring_ok (?s\<lparr>request_count := request_count s - 1\<rparr>)" using inv(1,3) q'(2) c by (auto simp: ring_ok_def)
  moreover have "waiting (?s\<lparr>request_count := request_count s - 1\<rparr>) = take p (waiting s) @ drop (Suc p) (waiting s)"
  proof (rule nth_equalityI)
    fix k assume "k < length (waiting (?s\<lparr>request_count := request_count s - 1\<rparr>))"
    then have k: "k < ?m" "k < ?n" using c(1) m by auto
    then show "waiting (?s\<lparr>request_count := request_count s - 1\<rparr>) ! k = (take p (waiting s) @ drop (Suc p) (waiting s)) ! k"
      using val[OF k(2)] q'(2) m(1) c(1) by (auto simp: waiting_nth nth_append)
  qed (use c m in auto)
  moreover have "shift_queue_left ?t ?e = Some ?s"
    using ne q' stop by (simp add: shift_queue_left_def emptied_def Let_def)
  ultimately show ?thesis using q'(2) by auto
qed

lemma take_at:
  assumes "ring_ok s" "p < nat (request_count s)" "find_target s = int (slot_at (nbuffer s) (head s) p)"
  shows "\<exists>s'. take_request s = Some (waiting s ! p, s') \<and> ring_ok s'
    \<and> waiting s' = take p (waiting s) @ drop (Suc p) (waiting s)
    \<and> nbuffer s' = nbuffer s \<and> sched_policy s' = sched_policy s \<and> request_count s' = request_count s - 1"
proof (cases "p = 0")
  case True
  then have "take_request s = Some (waiting s ! p,
      (emptied (head s) s)\<lparr>head := Suc (head s) mod nbuffer s, request_count := request_count s - 1\<rparr>)"
    using take_request_eq[OF assms] ring_okD(1)[OF assms(1)] by simp
  then show ?thesis using take_front_ok[OF assms(1) _ refl] assms(2) True by auto
next
  case False
  then have "slot_at (nbuffer s) (head s) p \<noteq> head s"
    using slot_at_inj[of p "nbuffer s" 0 "head s"] ring_okD(1-3)[OF assms(1)] assms(2) by auto
  then show ?thesis using take_request_eq[OF assms] take_behind_ok[OF assms(1) _ assms(2)] False by fastforce
qed

text \<open>The occupied slots are the waiting requests.\<close>

lemma occupied_waiting:
  assumes "ring_ok s"
  shows "{r \<in> set (queue s). connfd r \<noteq> -1} = set (waiting s)"
proof (intro set_eqI iffI)
  note inv = ring_okD[OF assms]
  fix r assume "r \<in> {r \<in> set (queue s). connfd r \<noteq> -1}"
  then obtain i where i: "i < nbuffer s" "queue s ! i = r" "connfd r \<noteq> -1" by (auto simp: in_set_conv_nth)
  obtain k where k: "k < nbuffer s" "slot_at (nbuffer s) (head s) k = i" using slot_at_surj[OF i(1) inv(1)] .
  then have "k < nat (request_count s)" using inv(5)[OF k(1)] i by simp
  then show "r \<in> set (waiting s)" using k i unfolding waiting_def by auto
next
  note inv = ring_okD[OF assms]
  fix r assume "r \<in> set (waiting s)"
  then obtain k where k: "k < nat (request_count s)" "r = queue s ! slot_at (nbuffer s) (head s) k"
    by (auto simp: waiting_def)
  then show "r \<in> {r \<in> set (queue s). connfd r \<noteq> -1}"
    using inv(5)[of k] inv(3) slot_at_less[OF inv(2), of "head s" k] by auto
qed

lemma occupied_slot:
  assumes "ring_ok s" "i < nbuffer s" "connfd (queue s ! i) \<noteq> -1"
  obtains p where "p < nat (request_count s)" "slot_at (nbuffer s) (head s) p = i" "waiting s ! p = queue s ! i"
proof -
  note inv = ring_okD[OF assms(1)]
  obtain k where k: "k < nbuffer s" "slot_at (nbuffer s) (head s) k = i" using slot_at_surj[OF assms(2) inv(1)] .
  then have "k < nat (request_count s)" using inv(5)[OF k(1)] assms(3) by simp
  then show ?thesis using that[of k] k by (simp add: waiting_nth)
qed

section \<open>The scans of the scheduling policies\<close>

text \<open>
  Both scans keep the best occupied slot seen so far. \<open>better\<close> compares the keys of two requests; what
  the scan finds is shown once for any such order.
\<close>

locale slot_scan =
  fixes scan :: "request_t list \<Rightarrow> int \<Rightarrow> int \<Rightarrow> int \<Rightarrow> int"
    and key :: "request_t \<Rightarrow> int"
    and better :: "int \<Rightarrow> int \<Rightarrow> bool"
  assumes scan_Nil: "scan [] i b t = t"
    and scan_Cons: "scan (r # rs) i b t = (if connfd r \<noteq> -1 \<and> better (key r) b
      then scan rs (i + 1) (key r) i else scan rs (i + 1) b t)"
    and better_irrefl: "\<not> better x x"
    and better_trans: "better x y \<Longrightarrow> better y z \<Longrightarrow> better x z"
begin

lemma not_better_than: "better x b \<Longrightarrow> \<not> better y b \<Longrightarrow> \<not> better y x"
  using better_trans[of y x b] by blast

lemma scan_finds:
  "(scan rs i b t = t \<and> (\<forall>r \<in> set rs. connfd r \<noteq> -1 \<longrightarrow> \<not> better (key r) b))
   \<or> (\<exists>j < length rs. scan rs i b t = i + int j \<and> connfd (rs ! j) \<noteq> -1 \<and> better (key (rs ! j)) b
        \<and> (\<forall>r \<in> set rs. connfd r \<noteq> -1 \<longrightarrow> \<not> better (key r) (key (rs ! j))))"
proof (induction rs arbitrary: i b t)
  case (Cons r rs)
  show ?case
  proof (cases "connfd r \<noteq> -1 \<and> better (key r) b")
    case True
    then have e: "scan (r # rs) i b t = scan rs (i + 1) (key r) i" by (simp add: scan_Cons)
    from Cons.IH[of "i + 1" "key r" i] show ?thesis
    proof (elim disjE conjE exE)
      assume "scan rs (i + 1) (key r) i = i" "\<forall>r' \<in> set rs. connfd r' \<noteq> -1 \<longrightarrow> \<not> better (key r') (key r)"
      then show ?thesis using True e better_irrefl by (intro disjI2 exI[of _ 0]) auto
    next
      fix j assume j: "j < length rs" "scan rs (i + 1) (key r) i = i + 1 + int j" "connfd (rs ! j) \<noteq> -1"
        "better (key (rs ! j)) (key r)" "\<forall>r' \<in> set rs. connfd r' \<noteq> -1 \<longrightarrow> \<not> better (key r') (key (rs ! j))"
      have "\<not> better (key r) (key (rs ! j))" using better_trans[OF j(4)] better_irrefl by blast
      moreover have "better (key (rs ! j)) b" using better_trans[OF j(4)] True by blast
      ultimately show ?thesis using j e by (intro disjI2 exI[of _ "Suc j"]) auto
    qed
  next
    case False
    then have e: "scan (r # rs) i b t = scan rs (i + 1) b t" unfolding scan_Cons by (rule if_not_P)
    from Cons.IH[of "i + 1" b t] show ?thesis
    proof (elim disjE conjE exE)
      fix j assume j: "j < length rs" "scan rs (i + 1) b t = i + 1 + int j" "connfd (rs ! j) \<noteq> -1"
        "better (key (rs ! j)) b" "\<forall>r' \<in> set rs. connfd r' \<noteq> -1 \<longrightarrow> \<not> better (key r') (key (rs ! j))"
      then have "connfd r \<noteq> -1 \<longrightarrow> \<not> better (key r) (key (rs ! j))" using not_better_than False by blast
      then show ?thesis using e j by (intro disjI2 exI[of _ "Suc j"]) auto
    qed (use e False in auto)
  qed
qed (simp add: scan_Nil)

text \<open>On the ring: the scan ends at a waiting request that is better than the bound, if there is one, and than all others.\<close>

lemma scan_waiting:
  assumes "ring_ok s"
  shows "(scan (queue s) 0 b (-1) = -1 \<and> (\<forall>r \<in> set (waiting s). \<not> better (key r) b))
   \<or> (\<exists>p < length (waiting s). scan (queue s) 0 b (-1) = int (slot_at (nbuffer s) (head s) p)
        \<and> better (key (waiting s ! p)) b \<and> (\<forall>r \<in> set (waiting s). \<not> better (key r) (key (waiting s ! p))))"
proof -
  have occ: "\<forall>r \<in> set (waiting s). P r" if "\<forall>r \<in> set (queue s). connfd r \<noteq> -1 \<longrightarrow> P r" for P
    using that occupied_waiting[OF assms] by blast
  from scan_finds[of "queue s" 0 b "-1"] show ?thesis
  proof (elim disjE exE conjE)
    assume e: "scan (queue s) 0 b (-1) = -1" "\<forall>r \<in> set (queue s). connfd r \<noteq> -1 \<longrightarrow> \<not> better (key r) b"
    show ?thesis using e(1) occ[OF e(2)] by (intro disjI1 conjI)
  next
    fix j assume j: "j < length (queue s)" "scan (queue s) 0 b (-1) = 0 + int j" "connfd (queue s ! j) \<noteq> -1"
      "better (key (queue s ! j)) b" "\<forall>r \<in> set (queue s). connfd r \<noteq> -1 \<longrightarrow> \<not> better (key r) (key (queue s ! j))"
    obtain p where p: "p < nat (request_count s)" "slot_at (nbuffer s) (head s) p = j" "waiting s ! p = queue s ! j"
      using occupied_slot[OF assms j(1,3)] .
    then show ?thesis using j occ[OF j(5)] by (intro disjI2 exI[of _ p]) simp
  qed
qed

end

interpretation rff: slot_scan rff_scan "\<lambda>r. st_mtime (sbuf r)" "\<lambda>x y. x > y"
  by unfold_locales auto

interpretation sff: slot_scan sff_scan "\<lambda>r. st_size (sbuf r)" "\<lambda>x y. x < y"
  by unfold_locales auto

text \<open>What the target is, for the three policies.\<close>

definition best_by :: "string \<Rightarrow> request_t list \<Rightarrow> nat \<Rightarrow> bool" where
  "best_by policy rs p \<longleftrightarrow> p < length rs
     \<and> (policy = ''FIFO'' \<longrightarrow> p = 0)
     \<and> (policy = ''RFF'' \<longrightarrow> (\<forall>r \<in> set rs. st_mtime (sbuf r) \<le> st_mtime (sbuf (rs ! p))))
     \<and> (policy = ''SFF'' \<longrightarrow> (\<forall>r \<in> set rs. st_size (sbuf (rs ! p)) \<le> st_size (sbuf r)))"

text \<open>No request of the buffer is eligible: the scan starts from the bounds \<open>-1\<close> and \<^verbatim>\<open>LONG_MAX\<close>.\<close>

definition none_eligible :: "string \<Rightarrow> request_t list \<Rightarrow> bool" where
  "none_eligible policy rs \<longleftrightarrow> policy = ''RFF'' \<and> (\<forall>r \<in> set rs. st_mtime (sbuf r) < 0)
     \<or> policy = ''SFF'' \<and> (\<forall>r \<in> set rs. LONG_MAX \<le> st_size (sbuf r))"

lemma find_target_spec:
  assumes "ring_ok s" "0 < request_count s" "sched_policy s \<in> {''FIFO'', ''SFF'', ''RFF''}"
  shows "none_eligible (sched_policy s) (waiting s) \<and> find_target s = -1
    \<or> \<not> none_eligible (sched_policy s) (waiting s)
      \<and> (\<exists>p. best_by (sched_policy s) (waiting s) p \<and> find_target s = int (slot_at (nbuffer s) (head s) p))"
proof -
  note scans = rff.scan_waiting[OF assms(1), of "-1"] sff.scan_waiting[OF assms(1), of LONG_MAX]
  consider (F) "sched_policy s = ''FIFO''" | (R) "sched_policy s = ''RFF''" | (S) "sched_policy s = ''SFF''"
    using assms(3) by blast
  then show ?thesis
  proof cases
    case F
    then show ?thesis using assms(2) ring_okD(1)[OF assms(1)]
      by (intro disjI2 conjI exI[of _ 0]) (auto simp: best_by_def none_eligible_def find_target_def)
  next
    case R
    have ft: "find_target s = rff_scan (queue s) 0 (-1) (-1)" using R by (simp add: find_target_def)
    from scans(1) show ?thesis
    proof (elim disjE exE conjE)
      fix p assume p: "p < length (waiting s)" "rff_scan (queue s) 0 (-1) (-1) = int (slot_at (nbuffer s) (head s) p)"
        "-1 < st_mtime (sbuf (waiting s ! p))"
        "\<forall>r \<in> set (waiting s). \<not> st_mtime (sbuf (waiting s ! p)) < st_mtime (sbuf r)"
      then have "\<not> none_eligible (sched_policy s) (waiting s)"
        using nth_mem[OF p(1)] by (auto simp: R none_eligible_def intro!: bexI[of _ "waiting s ! p"])
      with p show ?thesis unfolding ft by (intro disjI2 conjI exI[of _ p]) (simp_all add: R best_by_def not_less)
    qed (fastforce simp: ft R none_eligible_def)
  next
    case S
    have ft: "find_target s = sff_scan (queue s) 0 LONG_MAX (-1)" using S by (simp add: find_target_def)
    from scans(2) show ?thesis
    proof (elim disjE exE conjE)
      fix p assume p: "p < length (waiting s)" "sff_scan (queue s) 0 LONG_MAX (-1) = int (slot_at (nbuffer s) (head s) p)"
        "st_size (sbuf (waiting s ! p)) < LONG_MAX"
        "\<forall>r \<in> set (waiting s). \<not> st_size (sbuf r) < st_size (sbuf (waiting s ! p))"
      then have "\<not> none_eligible (sched_policy s) (waiting s)"
        using nth_mem[OF p(1)] by (auto simp: S none_eligible_def intro!: bexI[of _ "waiting s ! p"])
      with p show ?thesis unfolding ft by (intro disjI2 conjI exI[of _ p]) (simp_all add: S best_by_def not_less)
    qed (simp add: ft S none_eligible_def not_less)
  qed
qed

lemma take_request_by:
  assumes "ring_ok s" "0 < request_count s" "sched_policy s \<in> {''FIFO'', ''SFF'', ''RFF''}"
  shows "if none_eligible (sched_policy s) (waiting s) then take_request s = None
    else \<exists>p s'. best_by (sched_policy s) (waiting s) p \<and> take_request s = Some (waiting s ! p, s') \<and> ring_ok s'
      \<and> waiting s' = take p (waiting s) @ drop (Suc p) (waiting s)
      \<and> nbuffer s' = nbuffer s \<and> sched_policy s' = sched_policy s \<and> request_count s' = request_count s - 1"
proof (cases "none_eligible (sched_policy s) (waiting s)")
  case True
  then have "find_target s = -1" using find_target_spec[OF assms] by blast
  then show ?thesis using True by (simp add: take_request_def Let_def)
next
  case False
  then obtain p where p: "best_by (sched_policy s) (waiting s) p"
    "find_target s = int (slot_at (nbuffer s) (head s) p)" using find_target_spec[OF assms] by blast
  then have "p < nat (request_count s)" by (simp add: best_by_def)
  then show ?thesis using take_at[OF assms(1) _ p(2)] p(1) False by auto
qed

lemma queue_put_ok:
  assumes "queue_put os fd junk es s = Some (Done s')" "ring_ok s" "nat (request_count s) < nbuffer s" "fd \<noteq> -1"
  shows "\<exists>r. fill_slot os fd junk es (queue s ! tail s) = Some (Done r) \<and> connfd r = fd
    \<and> ring_ok s' \<and> waiting s' = waiting s @ [r]
    \<and> nbuffer s' = nbuffer s \<and> sched_policy s' = sched_policy s \<and> request_count s' = request_count s + 1"
proof -
  obtain r where r: "fill_slot os fd junk es (queue s ! tail s) = Some (Done r)" "publish r s = Some s'"
    using assms(1) by (auto simp: queue_put_def then_run_Done_iff bind_Some_iff split: if_splits)
  have "connfd r = fd" using r(1)
    by (auto simp: fill_slot_def then_run_Done_iff bind_Some_iff Let_def split_def)
  then show ?thesis using publish_ok[OF assms(2,3), of r] assms(4) r by auto
qed

section \<open>Scheduling\<close>

text \<open>C24. A thread that finds requests waiting takes the oldest under \<^verbatim>\<open>FIFO\<close>, one with the latest
  modified file under \<^verbatim>\<open>RFF\<close> and one with the smallest file under \<^verbatim>\<open>SFF\<close>; the others keep their order
  and the ring its invariant. Only when no waiting file lies above the bound with which the scan starts
  is the target still \<open>-1\<close>, and the thread accesses the array there.\<close>

theorem take_request_policy:
  assumes "ring_ok s" "0 < request_count s" "sched_policy s \<in> {''FIFO'', ''SFF'', ''RFF''}"
  shows "if none_eligible (sched_policy s) (waiting s) then take_request s = None
    else \<exists>p s'. best_by (sched_policy s) (waiting s) p \<and> take_request s = Some (waiting s ! p, s') \<and> ring_ok s'
      \<and> waiting s' = take p (waiting s) @ drop (Suc p) (waiting s)"
  using take_request_by[OF assms] by (auto split: if_splits)

definition blank_request :: request_t where
  "blank_request = \<lparr>connfd = -1, is_static = 0, stat_return = 0,
     sbuf = \<lparr>st_mode = 0, st_size = 0, st_mtime = 0\<rparr>, buf = [], req_method = [], uri = [], version = [],
     filename = [], cgiargs = [], rio = \<lparr>rio_cnt = 0, rio_ptr = 0, rio_buf = []\<rparr>\<rparr>"

definition sized :: "int \<Rightarrow> int \<Rightarrow> request_t" where
  "sized fd n = blank_request\<lparr>connfd := fd, sbuf := \<lparr>st_mode = 0x8124, st_size = n, st_mtime = n\<rparr>\<rparr>"

text \<open>Three slots, two of them in use, the older one in the last slot.\<close>

definition demo_ring :: "string \<Rightarrow> int \<Rightarrow> int \<Rightarrow> server" where
  "demo_ring policy a b = \<lparr>queue = [sized 5 b, sized (-1) 0, sized 4 a], head = 2, tail = 1, request_count = 2, sched_policy = policy\<rparr>"

lemma demo_ring_ok:
  "ring_ok (demo_ring policy a b)" "waiting (demo_ring policy a b) = [sized 4 a, sized 5 b]"
proof -
  have three: "(\<forall>k < 3. P k) \<longleftrightarrow> P 0 \<and> P 1 \<and> P 2" for P :: "nat \<Rightarrow> bool"
    by (auto simp: numeral_3_eq_3 numeral_2_eq_2 less_Suc_eq)
  have l: "length [x, y, z] = 3" for x y z :: request_t by simp
  show "ring_ok (demo_ring policy a b)"
    unfolding ring_ok_def demo_ring_def by (simp only: server.simps l three) (simp add: slot_at_def sized_def)
  have "[0 ..< 2] = [0, 1 :: nat]" by (simp add: upt_rec)
  then show "waiting (demo_ring policy a b) = [sized 4 a, sized 5 b]"
    by (simp add: waiting_def demo_ring_def slot_at_def)
qed

theorem take_request_policy_witness:
  "(\<exists>p s'. best_by ''SFF'' [sized 4 20, sized 5 10] p
      \<and> take_request (demo_ring ''SFF'' 20 10) = Some ([sized 4 20, sized 5 10] ! p, s'))
   \<and> take_request (demo_ring ''RFF'' (-3) (-4)) = None"
proof
  have "\<not> none_eligible ''SFF'' [sized 4 20, sized 5 10]" by (simp add: none_eligible_def sized_def)
  then show "\<exists>p s'. best_by ''SFF'' [sized 4 20, sized 5 10] p
      \<and> take_request (demo_ring ''SFF'' 20 10) = Some ([sized 4 20, sized 5 10] ! p, s')"
    using take_request_policy[OF demo_ring_ok(1), of "''SFF''" 20 10]
    unfolding demo_ring_ok(2) by (auto simp: demo_ring_def)
next
  have "none_eligible ''RFF'' [sized 4 (-3), sized 5 (-4)]" by (simp add: none_eligible_def sized_def)
  then show "take_request (demo_ring ''RFF'' (-3) (-4)) = None"
    using take_request_policy[OF demo_ring_ok(1), of "''RFF''" "-3" "-4"]
    unfolding demo_ring_ok(2) by (auto simp: demo_ring_def)
qed

section \<open>The ring is a bounded queue\<close>

interpretation ring: bounded_fifo "\<lambda>s. ring_ok s \<and> sched_policy s = ''FIFO''" waiting
  "\<lambda>s. nat (request_count s) < nbuffer s" "\<lambda>r. connfd r \<noteq> -1" publish take_request "\<lambda>s. nbuffer s"
proof unfold_locales
  fix s and x :: request_t assume "ring_ok s \<and> sched_policy s = ''FIFO''" "nat (request_count s) < nbuffer s" "connfd x \<noteq> -1"
  then show "\<exists>s'. publish x s = Some s' \<and> (ring_ok s' \<and> sched_policy s' = ''FIFO'') \<and> waiting s' = waiting s @ [x]"
    using publish_ok[of s x] by auto
next
  fix s and x :: request_t and xs assume a: "ring_ok s \<and> sched_policy s = ''FIFO''" "waiting s = x # xs"
  have "length (waiting s) = Suc (length xs)" using a(2) by simp
  then have "0 < request_count s" by simp
  moreover have "\<not> none_eligible (sched_policy s) (waiting s)" using a(1) by (simp add: none_eligible_def)
  ultimately obtain s' where "take_request s = Some (waiting s ! 0, s')" "ring_ok s'"
    "waiting s' = take 0 (waiting s) @ drop (Suc 0) (waiting s)" "sched_policy s' = sched_policy s"
    using take_request_by[of s] a(1) by (auto simp: best_by_def)
  then show "\<exists>s'. take_request s = Some (x, s') \<and> (ring_ok s' \<and> sched_policy s' = ''FIFO'') \<and> waiting s' = xs"
    using a by simp
next
  fix s assume "ring_ok s \<and> sched_policy s = ''FIFO''"
  show "nat (request_count s) < nbuffer s \<longleftrightarrow> length (waiting s) < nbuffer s" by simp
next
  fix x :: request_t and s s' assume "publish x s = Some s'"
  then show "nbuffer s' = nbuffer s" by (auto simp: publish_def split: if_splits)
qed

text \<open>C31. First come, first served: as many requests as there are slots can be put into the empty
  buffer, and under \<^verbatim>\<open>FIFO\<close> the threads take them in the same order and leave it empty.\<close>

theorem ring_first_come_first_served:
  assumes "mem \<noteq> []" "length rs \<le> length mem" "\<forall>r \<in> set rs. connfd r \<noteq> -1"
  shows "\<exists>s s'. enq_all publish rs (start_server mem ''FIFO'') = Some s
    \<and> deq_many take_request (length rs) s = Some (rs, s') \<and> ring_ok s' \<and> waiting s' = []"
proof -
  have i: "ring_ok (start_server mem ''FIFO'') \<and> sched_policy (start_server mem ''FIFO'') = ''FIFO''"
    using start_server_ok(1)[OF assms(1)] by (simp add: start_server_def)
  have l: "length (waiting (start_server mem ''FIFO'')) + length rs \<le> nbuffer (start_server mem ''FIFO'')"
    using assms(2) by (simp add: start_server_ok(2)[OF assms(1)] start_server_def)
  obtain s where s: "enq_all publish rs (start_server mem ''FIFO'') = Some s" "ring_ok s \<and> sched_policy s = ''FIFO''"
    "waiting s = rs" using ring.enq_all_ok[OF i l assms(3)] start_server_ok(2)[OF assms(1)] by auto
  then show ?thesis using ring.deq_many_ok[OF s(2), of "length rs"] by auto
qed

theorem ring_first_come_first_served_witness:
  "\<exists>s s'. enq_all publish [sized 4 20, sized 5 10] (start_server [sized 9 9, sized 8 8, sized 7 7] ''FIFO'') = Some s
    \<and> deq_many take_request 2 s = Some ([sized 4 20, sized 5 10], s')"
  using ring_first_come_first_served[of "[sized 9 9, sized 8 8, sized 7 7]" "[sized 4 20, sized 5 10]"]
  by (auto simp: sized_def numeral_2_eq_2)

end
