(* ===== verification/Client.thy ===== *)
theory Client
  imports RequestProps RingProps
begin

text \<open>
  The test client, \<^verbatim>\<open>multiThreadedWebServer/client.c\<close>: sending a request and printing the response; and
  client and server together, what the server reads of such a request and what the client prints of
  such a reply.
\<close>

section \<open>clientSend\<close>

text \<open>\<open>host_rc\<close> and \<open>host\<close> are the answer of \<^verbatim>\<open>gethostname\<close>.\<close>

definition clientSend :: "int \<Rightarrow> string \<Rightarrow> string \<Rightarrow> conn \<Rightarrow> conn run" where
  "clientSend host_rc host fname io =
     then_run (Gethostname host_rc) (\<lambda>_. do {
       b \<leftarrow> store MAXLINE (''GET '' @ fname @ '' HTTP/1.1'' @ CRLF);
       b \<leftarrow> store MAXLINE (b @ ''host: '' @ host @ CRLF @ CRLF);
       put b io })"

section \<open>clientPrint\<close>

text \<open>\<^verbatim>\<open>sscanf(buf, "Content-Length: %d ", &length)\<close>: the number, if there is one.\<close>

definition scan_length :: "string \<Rightarrow> int option" where
  "scan_length s =
     (if has_prefix ''Content-Length:'' s then
        let t = dropWhile isspace (drop 15 s);
            (neg, u) = (case t of [] \<Rightarrow> (False, [])
                        | c # cs \<Rightarrow> if c = CHR ''-'' then (True, cs)
                                    else if c = CHR ''+'' then (False, cs) else (False, c # cs));
            ds = takeWhile isdigit u
        in if ds = [] then None else Some (if neg then - int (read_nat ds) else int (read_nat ds))
      else None)"

text \<open>
  The two loops. The state is the line array, the last return code, the reader and what was printed;
  a line that does not come leaves the array as it was.
\<close>

definition next_line :: "string \<Rightarrow> rio_t \<Rightarrow> read_event list \<Rightarrow> (int \<times> string \<times> rio_t \<times> read_event list) run" where
  "next_line b rp es = then_run (Rio_readlineb rp MAXBUF es)
     (\<lambda>(n, l, rp, es). Some (Done (n, case l of None \<Rightarrow> b | Some l \<Rightarrow> l, rp, es)))"

partial_function (option) print_headers ::
  "int \<Rightarrow> string \<Rightarrow> rio_t \<Rightarrow> read_event list \<Rightarrow> string \<Rightarrow> (string \<times> rio_t \<times> read_event list \<times> string) run" where
  "print_headers n b rp es printed =
     (if cstr b \<noteq> CRLF \<and> n > 0 then do {
        r \<leftarrow> next_line b rp es;
        case r of
          Died msg \<Rightarrow> Some (Died msg)
        | Done (n, b', rp, es) \<Rightarrow>
            print_headers n b' rp es (printed @ ''Header: '' @ cstr b
              @ (case scan_length (cstr b') of None \<Rightarrow> [] | Some k \<Rightarrow> ''Length = '' @ show_int k @ [CHR 0x0A]))
      } else Some (Done (b, rp, es, printed)))"

declare print_headers.simps [code]

partial_function (option) print_body ::
  "int \<Rightarrow> string \<Rightarrow> rio_t \<Rightarrow> read_event list \<Rightarrow> string \<Rightarrow> string run" where
  "print_body n b rp es printed =
     (if n > 0 then do {
        r \<leftarrow> next_line b rp es;
        case r of
          Died msg \<Rightarrow> Some (Died msg)
        | Done (n, b', rp, es) \<Rightarrow> print_body n b' rp es (printed @ cstr b)
      } else Some (Done printed))"

declare print_body.simps [code]

definition clientPrint :: "string \<Rightarrow> rio_t \<Rightarrow> read_event list \<Rightarrow> string run" where
  "clientPrint junk rp es =
     then_run (next_line junk (rio_readinitb rp) es) (\<lambda>(n, b, rp, es).
     then_run (print_headers n b rp es []) (\<lambda>(b, rp, es, printed).
     then_run (next_line b rp es) (\<lambda>(n, b, rp, es). print_body n b rp es printed)))"

section \<open>thread_func and main\<close>

text \<open>One thread of the client: the answers of the calls, the file name, the connection and what
  arrives on it.\<close>

definition thread_func ::
  "int \<Rightarrow> bool \<Rightarrow> int \<Rightarrow> int \<Rightarrow> string \<Rightarrow> int \<Rightarrow> string \<Rightarrow> string \<Rightarrow> rio_t \<Rightarrow> conn \<Rightarrow> read_event list \<Rightarrow> (conn \<times> string) run" where
  "thread_func sock found connected host_rc host close_result fname junk rp io es =
     then_run (Open_clientfd sock found connected) (\<lambda>clientfd.
     then_run (clientSend host_rc host fname io) (\<lambda>io.
     then_run (clientPrint junk rp es) (\<lambda>printed.
     then_run (Close close_result) (\<lambda>_. Some (Done (io, printed))))))"

abbreviation MAX_THREADS :: int where "MAX_THREADS \<equiv> 15"

text \<open>The file names \<^verbatim>\<open>main\<close> asks for: the prefix, copied into an array of 100 characters, the number
  and \<^verbatim>\<open>.txt\<close>; \<open>Inl\<close> is the message with which the program exits.\<close>

fun request_names :: "string \<Rightarrow> nat \<Rightarrow> nat \<Rightarrow> string list option" where
  "request_names prefix i 0 = Some []"
| "request_names prefix i (Suc n) = do {
     name \<leftarrow> store 100 prefix;
     postfix \<leftarrow> store 10 (show_nat (i + 1));
     name \<leftarrow> store 100 (name @ postfix);
     name \<leftarrow> store 100 (name @ ''.txt'');
     names \<leftarrow> request_names prefix (i + 1) n;
     Some (name # names) }"

definition client_main :: "string list \<Rightarrow> (string + string list) option" where
  "client_main argv =
     (if length argv < 5 then Some (Inl (''Usage: '' @ concat (take 1 argv)
          @ '' <host> <port> <filename prefixes> <file count>'' @ [CHR 0x0A]))
      else if atoi (argv ! 4) > MAX_THREADS then
        Some (Inl (''Too many files. Max supported is '' @ show_int MAX_THREADS @ [CHR 0x0A]))
      else map_option Inr (request_names (argv ! 3) 0 (nat (atoi (argv ! 4)))))"

end
