(* ===== verification/ClientServer.thy ===== *)
theory ClientServer
  imports Client
begin

text \<open>
  Client and server against each other: the request the client sends is the one the server stores, and
  the file the server sends is what the client prints.
\<close>

section \<open>Lines and words\<close>

abbreviation NL :: char where "NL \<equiv> CHR 0x0A"

lemma take_line_line: "NL \<notin> set l \<Longrightarrow> length l < m \<Longrightarrow> take_line m (l @ NL # cs) = l @ [NL]"
proof (induction l arbitrary: m)
  case Nil
  then show ?case by (cases m) auto
next
  case (Cons c l)
  then show ?case by (cases m) auto
qed

lemma cstr_id: "NUL \<notin> set s \<Longrightarrow> cstr s = s"
  by (auto simp: cstr_def takeWhile_eq_all_conv)

lemma read_line:
  assumes "rio_ok rp" "pending rp es = (l @ NL # rest, e)" "NL \<notin> set l" "length l < 8191"
  shows "\<exists>rc rp' es'. Rio_readlineb rp MAXLINE es = Some (Done (rc, Some (l @ [NL]), rp', es')) \<and> 0 < rc
    \<and> rio_ok rp' \<and> pending rp' es' = (rest, e)"
  using Rio_readlineb_spec[OF assms(1), of es] take_line_line[OF assms(3,4), of rest]
  unfolding assms(2) by (auto simp: ends_line_def Let_def)

definition word :: "string \<Rightarrow> bool" where
  "word w \<longleftrightarrow> w \<noteq> [] \<and> (\<forall>c \<in> set w. \<not> isspace c \<and> c \<noteq> NUL)"

lemma scan_word_word: "word w \<Longrightarrow> isspace c \<Longrightarrow> scan_word (w @ c # s) = (w, c # s)"
proof -
  assume w: "word w" "isspace c"
  then obtain x xs where x: "w = x # xs" "\<not> isspace x" by (cases w) (auto simp: word_def)
  have "takeWhile (\<lambda>c. \<not> isspace c) (w @ c # s) = w" "dropWhile (\<lambda>c. \<not> isspace c) (w @ c # s) = c # s"
    using w by (simp_all add: word_def takeWhile_append2 dropWhile_append2)
  then show ?thesis using x by (simp add: scan_word_def Let_def)
qed

lemma scan_word_space: "isspace c \<Longrightarrow> scan_word (c # s) = scan_word s"
  by (simp add: scan_word_def)

lemma sscanf3_words:
  assumes "word m" "word u" "word v"
  shows "sscanf3 (m @ '' '' @ u @ '' '' @ v @ CRLF) olds = (m, u, v)"
proof -
  have sp: "isspace (CHR '' '')" "isspace (CHR 0x0D)" by (simp_all add: isspace_def)
  have "scan_word (m @ CHR '' '' # u @ CHR '' '' # v @ CHR 0x0D # [NL]) = (m, CHR '' '' # u @ CHR '' '' # v @ CHR 0x0D # [NL])"
    by (rule scan_word_word[OF assms(1) sp(1)])
  moreover have "scan_word (CHR '' '' # u @ CHR '' '' # v @ CHR 0x0D # [NL]) = (u, CHR '' '' # v @ CHR 0x0D # [NL])"
    using scan_word_word[OF assms(2) sp(1)] by (simp add: scan_word_space[OF sp(1)])
  moreover have "scan_word (CHR '' '' # v @ CHR 0x0D # [NL]) = (v, CHR 0x0D # [NL])"
    using scan_word_word[OF assms(3) sp(2)] by (simp add: scan_word_space[OF sp(1)])
  ultimately show ?thesis using assms by (simp add: sscanf3_def CRLF_def word_def split_def)
qed

lemma after_headers_step:
  assumes "NL \<notin> set l" "length l < 8191" "cstr (l @ [NL]) \<noteq> CRLF"
  shows "after_headers (l @ NL # rest) = after_headers rest"
  using take_line_line[OF assms(1,2), of rest] assms(3)
  by (subst after_headers.simps) (simp add: Let_def)

lemma after_headers_stop: "after_headers (CRLF @ rest) = Some rest"
  using take_line_line[of "[CHR 0x0D]" 8191 rest]
  by (subst after_headers.simps) (simp add: CRLF_def cstr_def Let_def)

section \<open>From the client to the server\<close>

definition request_text :: "string \<Rightarrow> string \<Rightarrow> string" where
  "request_text fname host = ''GET '' @ fname @ '' HTTP/1.1'' @ CRLF @ ''host: '' @ host @ CRLF @ CRLF"

lemma clientSend_sends:
  assumes "working io" "0 \<le> host_rc" "length fname + length host < 8000"
  shows "replies io (request_text fname host) (clientSend host_rc host fname io)"
  using assms replies_put[OF assms(1), of "request_text fname host"]
  by (simp add: clientSend_def wrapper_defs store_def request_text_def)

text \<open>What the server stores of a connection whose input starts with a line of three words and goes on
  with headers that end.\<close>

lemma fill_slot_reads:
  assumes "delivered es = (l @ [NL] @ hs, e)" "NL \<notin> set l" "length l < 8191" "after_headers hs = Some rest" "hs \<noteq> []"
    and "sscanf3 (cstr (l @ [NL])) (req_method slot, uri slot, version slot) = (m, u, v)"
    and "requestParseURI u = Some (st, u', f, a)"
  shows "\<exists>rp. fill_slot os fd junk es slot = Some (Done
    \<lparr>connfd = fd, is_static = st, stat_return = (if stat_file os f = None then -1 else 0),
     sbuf = (case stat_file os f of None \<Rightarrow> sbuf slot | Some b \<Rightarrow> b), buf = l @ [NL], req_method = m, uri = u',
     version = v, filename = f, cgiargs = a, rio = rp\<rparr>)"
proof -
  have p: "rio_ok (rio_readinitb (rio slot))" "pending (rio_readinitb (rio slot)) es = (l @ NL # hs, e)"
    using readinitb_pending[of "rio slot"] assms(1) by auto
  obtain rc rp' es' where r: "Rio_readlineb (rio_readinitb (rio slot)) MAXLINE es = Some (Done (rc, Some (l @ [NL]), rp', es'))"
    "rio_ok rp'" "pending rp' es' = (hs, e)" using read_line[OF p assms(2,3)] by blast
  obtain rp'' es'' where h: "requestReadhdrs junk rp' es' = Some (Done (rp'', es''))"
    using headers_end[OF r(2,3) assms(5,4)] by blast
  show ?thesis using r(1) h assms(6,7) by (simp add: fill_slot_def Let_def)
qed

text \<open>A client that falls silent before a blank line keeps the accepting thread in the reading.\<close>

lemma fill_slot_stalls:
  assumes "delivered es = (bs, At_stall)" "after_headers bs = None"
  shows "fill_slot os fd junk es slot = None"
proof -
  define l where "l = take_line (MAXLINE - 1) bs"
  have p: "rio_ok (rio_readinitb (rio slot))" "pending (rio_readinitb (rio slot)) es = (bs, At_stall)"
    using readinitb_pending[of "rio slot"] assms(1) by auto
  note spec = Rio_readlineb_spec[OF p(1), of es, unfolded p(2) prod.case, folded l_def, unfolded Let_def]
  show ?thesis
  proof (cases "ends_line l \<or> length l = MAXLINE - 1")
    case True
    obtain rc rp' es' where r: "Rio_readlineb (rio_readinitb (rio slot)) MAXLINE es = Some (Done (rc, Some l, rp', es'))"
      "rio_ok rp'" "pending rp' es' = (drop (length l) bs, At_stall)" using spec True by auto
    have "after_headers (drop (length l) bs) = None"
      using after_headers_line(1)[OF l_def True] assms(2) by (simp split: if_splits)
    then have "requestReadhdrs junk rp' es' = None" using requestReadhdrs_stalls[OF r(2,3)] by simp
    then show ?thesis using r(1) by (simp add: fill_slot_def Let_def split_def)
  next
    case False
    then show ?thesis using spec by (simp add: fill_slot_def)
  qed
qed

lemma queue_put_stalls:
  "delivered es = (bs, At_stall) \<Longrightarrow> after_headers bs = None \<Longrightarrow> queue_put os fd junk es v = None"
  using fill_slot_stalls by (simp add: queue_put_def)

lemma delivered_chunks: "delivered [Chunk bs] = (bs, At_eof)"
  by simp

lemma word_no_newline: "word w \<Longrightarrow> NL \<notin> set w \<and> NUL \<notin> set w"
  by (auto simp: word_def isspace_def)

lemma client_request_stored:
  assumes "word fname" "NL \<notin> set host" "NUL \<notin> set host" "length fname + length host < 8000"
    and "delivered es = (request_text fname host, e)" "requestParseURI fname = Some (st, u, f, a)"
  shows "\<exists>rp. fill_slot os fd junk es slot = Some (Done
    \<lparr>connfd = fd, is_static = st, stat_return = (if stat_file os f = None then -1 else 0),
     sbuf = (case stat_file os f of None \<Rightarrow> sbuf slot | Some b \<Rightarrow> b), buf = ''GET '' @ fname @ '' HTTP/1.1'' @ CRLF,
     req_method = ''GET'', uri = u, version = ''HTTP/1.1'', filename = f, cgiargs = a, rio = rp\<rparr>)"
proof -
  let ?l = "''GET '' @ fname @ '' HTTP/1.1'' @ [CHR 0x0D]"
  let ?hs = "''host: '' @ host @ CRLF @ CRLF"
  have w: "word ''GET''" "word ''HTTP/1.1''" by (simp_all add: word_def isspace_def)
  have l: "?l @ [NL] = ''GET'' @ '' '' @ fname @ '' '' @ ''HTTP/1.1'' @ CRLF" by (simp add: CRLF_def)
  have c: "cstr (?l @ [NL]) = ?l @ [NL]" using word_no_newline[OF assms(1)] by (intro cstr_id) auto
  have "after_headers (''host: '' @ host @ [CHR 0x0D] @ NL # CRLF) = after_headers CRLF"
    using after_headers_step[of "''host: '' @ host @ [CHR 0x0D]" CRLF] assms(2-4)
    by (simp add: cstr_def CRLF_def)
  then have h: "after_headers ?hs = Some []" using after_headers_stop[of "[]"] by (simp add: CRLF_def)
  have d: "delivered es = (?l @ [NL] @ ?hs, e)" using assms(5) by (simp add: request_text_def CRLF_def)
  have s: "sscanf3 (cstr (?l @ [NL])) (req_method slot, uri slot, version slot) = (''GET'', fname, ''HTTP/1.1'')"
    unfolding c unfolding l by (rule sscanf3_words[OF w(1) assms(1) w(2)])
  have "NL \<notin> set ?l" "length ?l < 8191" "?hs \<noteq> []" using word_no_newline[OF assms(1)] assms(4) by auto
  from fill_slot_reads[OF d this(1,2) h this(3) s assms(6), of os fd junk] show ?thesis
    by (simp add: CRLF_def)
qed

text \<open>C28. Client and server agree on the request: what \<^verbatim>\<open>clientSend\<close> writes for a file name is, in
  whatever pieces it arrives, read by the server as method \<^verbatim>\<open>GET\<close> and that name, and the slot holds the
  parsed name and the data of that file.\<close>

theorem request_roundtrip:
  assumes "working io" "0 \<le> host_rc" "word fname" "NL \<notin> set host" "NUL \<notin> set host"
    and "length fname + length host < 8000" "requestParseURI fname = Some (st, u, f, a)"
  shows "\<exists>bytes. replies io bytes (clientSend host_rc host fname io)
    \<and> (\<forall>es e. delivered es = (bytes, e) \<longrightarrow> (\<exists>rp. fill_slot os fd junk es slot = Some (Done
         \<lparr>connfd = fd, is_static = st, stat_return = (if stat_file os f = None then -1 else 0),
          sbuf = (case stat_file os f of None \<Rightarrow> sbuf slot | Some b \<Rightarrow> b), buf = ''GET '' @ fname @ '' HTTP/1.1'' @ CRLF,
          req_method = ''GET'', uri = u, version = ''HTTP/1.1'', filename = f, cgiargs = a, rio = rp\<rparr>)))"
  using clientSend_sends[OF assms(1,2,6)] client_request_stored[OF assms(3-6) _ assms(7)] by blast

lemma demo_uri: "requestParseURI ''/a.html'' = Some (1, ''/a.html'', ''./a.html'', [])"
  by (simp add: requestParseURI_def store_def)

lemma demo_word: "word ''/a.html''"
  by (simp add: word_def isspace_def)

theorem request_roundtrip_witness:
  "\<exists>bytes rp. replies demo_conn bytes (clientSend 0 ''pc'' ''/a.html'' demo_conn)
    \<and> fill_slot demo_web 4 [] [Chunk bytes] blank_request = Some (Done
       \<lparr>connfd = 4, is_static = 1, stat_return = 0, sbuf = \<lparr>st_mode = 0x81A4, st_size = 5, st_mtime = 10\<rparr>,
        buf = ''GET /a.html HTTP/1.1'' @ CRLF, req_method = ''GET'', uri = ''/a.html'', version = ''HTTP/1.1'',
        filename = ''./a.html'', cgiargs = [], rio = rp\<rparr>)"
proof -
  obtain bytes where b: "replies demo_conn bytes (clientSend 0 ''pc'' ''/a.html'' demo_conn)"
    "\<forall>es e. delivered es = (bytes, e) \<longrightarrow> (\<exists>rp. fill_slot demo_web 4 [] es blank_request = Some (Done
         \<lparr>connfd = 4, is_static = 1, stat_return = (if stat_file demo_web ''./a.html'' = None then -1 else 0),
          sbuf = (case stat_file demo_web ''./a.html'' of None \<Rightarrow> sbuf blank_request | Some b \<Rightarrow> b),
          buf = ''GET '' @ ''/a.html'' @ '' HTTP/1.1'' @ CRLF,
          req_method = ''GET'', uri = ''/a.html'', version = ''HTTP/1.1'', filename = ''./a.html'', cgiargs = [], rio = rp\<rparr>))"
    using request_roundtrip[OF demo_working _ demo_word _ _ _ demo_uri, of 0 "''pc''" demo_web 4 "[]" blank_request]
    by auto
  have "delivered [Chunk bytes] = (bytes, At_eof)" by simp
  with b(2) show ?thesis using b(1) by (fastforce simp: demo_web_def)
qed

text \<open>C37. A client that sends only two blank lines gets the answer to somebody else's request: nothing is
  scanned from its line, so the slot keeps the method, the address and the version of the request that
  used it last, and the file is looked up again for this client.\<close>

theorem blank_request_replays:
  assumes "delivered es = (CRLF @ CRLF, e)" "requestParseURI (uri slot) = Some (st, u, f, a)"
  shows "\<exists>r. fill_slot os fd junk es slot = Some (Done r) \<and> connfd r = fd
    \<and> req_method r = req_method slot \<and> version r = version slot \<and> uri r = u \<and> filename r = f \<and> cgiargs r = a"
proof -
  have c: "cstr ([CHR 0x0D] @ [NL]) = CRLF" by (simp add: cstr_def CRLF_def)
  have s: "sscanf3 (cstr ([CHR 0x0D] @ [NL])) (req_method slot, uri slot, version slot) = (req_method slot, uri slot, version slot)"
    unfolding c by (simp add: sscanf3_def scan_word_def CRLF_def isspace_def)
  have d: "delivered es = ([CHR 0x0D] @ [NL] @ CRLF, e)" using assms(1) by (simp add: CRLF_def)
  have h: "after_headers CRLF = Some []" using after_headers_stop[of "[]"] by simp
  have "CRLF \<noteq> []" by (simp add: CRLF_def)
  from fill_slot_reads[OF d _ _ h this s assms(2), of os fd junk] show ?thesis by auto
qed

theorem blank_request_replays_witness:
  "\<exists>r. fill_slot demo_web 9 [] [Chunk (CRLF @ CRLF)] demo_request = Some (Done r) \<and> connfd r = 9
     \<and> req_method r = ''get'' \<and> filename r = ''./a.html''"
  using blank_request_replays[of "[Chunk (CRLF @ CRLF)]" At_eof demo_request 1 "''/a.html''" "''./a.html''" "[]" demo_web 9 "[]"]
  by (auto simp: demo_request_def demo_uri CRLF_def)

section \<open>From the server to the client\<close>

definition header_line :: "string \<Rightarrow> bool" where
  "header_line l \<longleftrightarrow> NL \<notin> set l \<and> NUL \<notin> set l \<and> length l < 8191 \<and> l \<noteq> [CHR 0x0D]"

definition length_note :: "string \<Rightarrow> string" where
  "length_note l = (case scan_length l of None \<Rightarrow> [] | Some k \<Rightarrow> ''Length = '' @ show_int k @ [NL])"

fun show_headers :: "string \<Rightarrow> string list \<Rightarrow> string" where
  "show_headers b [] = ''Header: '' @ b @ [NL]"
| "show_headers b (l # ls) = ''Header: '' @ b @ [NL] @ length_note (l @ [NL]) @ show_headers l ls"

lemma header_line_cstr:
  "header_line l \<Longrightarrow> cstr (l @ [NL]) = l @ [NL]" "header_line l \<Longrightarrow> cstr (l @ [NL]) \<noteq> CRLF"
proof -
  assume l: "header_line l"
  then show "cstr (l @ [NL]) = l @ [NL]" by (intro cstr_id) (auto simp: header_line_def)
  then show "cstr (l @ [NL]) \<noteq> CRLF" using l by (simp add: header_line_def CRLF_def)
qed

lemma next_line_reads:
  assumes "rio_ok rp" "pending rp es = (l @ NL # rest, e)" "NL \<notin> set l" "length l < 8191"
  shows "\<exists>n rp' es'. next_line b rp es = Some (Done (n, l @ [NL], rp', es')) \<and> 0 < n \<and> rio_ok rp'
    \<and> pending rp' es' = (rest, e)"
  using read_line[OF assms] by (auto simp: next_line_def)

lemma print_headers_lines:
  assumes "header_line b" "\<forall>l \<in> set ls. header_line l" "0 < n" "rio_ok rp"
    and "pending rp es = (concat (map (\<lambda>l. l @ [NL]) ls) @ CRLF @ rest, e)"
  shows "\<exists>rp' es'. print_headers n (b @ [NL]) rp es printed = Some (Done (CRLF, rp', es', printed @ show_headers b ls))
    \<and> rio_ok rp' \<and> pending rp' es' = (rest, e)"
  using assms
proof (induction ls arbitrary: b n rp es printed)
  case Nil
  then have "pending rp es = ([CHR 0x0D] @ NL # rest, e)" by (simp add: CRLF_def)
  from next_line_reads[OF Nil.prems(4) this, of "b @ [NL]"]
  obtain n' rp' es' where r: "next_line (b @ [NL]) rp es = Some (Done (n', CRLF, rp', es'))" "rio_ok rp'"
    "pending rp' es' = (rest, e)" by (auto simp: CRLF_def)
  have "print_headers n (b @ [NL]) rp es printed
      = print_headers n' CRLF rp' es' (printed @ ''Header: '' @ b @ [NL])"
    using r(1) Nil.prems(1,3) header_line_cstr[OF Nil.prems(1)]
    by (subst print_headers.simps) (simp add: scan_length_def CRLF_def cstr_def[of "[CHR 0x0D, NL]"])
  also have "\<dots> = Some (Done (CRLF, rp', es', printed @ ''Header: '' @ b @ [NL]))"
    by (subst print_headers.simps) (simp add: CRLF_def cstr_def)
  finally show ?case using r(2,3) by simp
next
  case (Cons l ls)
  have l: "header_line l" using Cons.prems(2) by simp
  then have p: "pending rp es = (l @ NL # (concat (map (\<lambda>l. l @ [NL]) ls) @ CRLF @ rest), e)"
    "NL \<notin> set l" "length l < 8191" using Cons.prems(5) by (auto simp: header_line_def)
  obtain n' rp' es' where r: "next_line (b @ [NL]) rp es = Some (Done (n', l @ [NL], rp', es'))" "0 < n'" "rio_ok rp'"
    "pending rp' es' = (concat (map (\<lambda>l. l @ [NL]) ls) @ CRLF @ rest, e)"
    using next_line_reads[OF Cons.prems(4) p] by blast
  have "print_headers n (b @ [NL]) rp es printed
      = print_headers n' (l @ [NL]) rp' es' (printed @ ''Header: '' @ b @ [NL] @ length_note (l @ [NL]))"
    using r(1) Cons.prems(1,3) header_line_cstr[OF Cons.prems(1)] header_line_cstr[OF l]
    by (subst print_headers.simps) (simp add: length_note_def)
  then show ?case
    using Cons.IH[OF l _ r(2,3,4), of "printed @ ''Header: '' @ b @ [NL] @ length_note (l @ [NL])"] Cons.prems(2)
    by simp
qed

lemma print_body_reads:
  assumes "rio_ok rp" "pending rp es = (bs, At_eof)" "NUL \<notin> set bs" "NUL \<notin> set b" "0 < n"
  shows "print_body n b rp es printed = Some (Done (printed @ b @ bs))"
  using assms
proof (induction "length bs" arbitrary: bs n b rp es printed rule: less_induct)
  case less
  define l where "l = take_line (MAXLINE - 1) bs"
  have split: "bs = l @ drop (length l) bs"
    using take_line_prefix[of "MAXLINE - 1" bs] by (metis append_take_drop_id l_def)
  note spec = Rio_readlineb_spec[OF less.prems(1), of es, unfolded less.prems(2) prod.case, folded l_def, unfolded Let_def]
  have cs: "cstr b = b" using less.prems(4) by (rule cstr_id)
  show ?case
  proof (cases "bs = []")
    case True
    then obtain rp' es' where "Rio_readlineb rp MAXLINE es = Some (Done (0, None, rp', es'))"
      using spec by (auto simp: l_def ends_line_def)
    then have "print_body n b rp es printed = print_body 0 b rp' es' (printed @ b)"
      using less.prems(5) cs by (subst print_body.simps) (simp add: next_line_def)
    then show ?thesis using True by (simp add: print_body.simps[of 0])
  next
    case False
    then have ne: "l \<noteq> []" using take_line_empty[of 8190 bs] by (simp add: l_def)
    obtain rc rp' es' where r: "Rio_readlineb rp MAXLINE es = Some (Done (rc, Some l, rp', es'))" "0 < rc" "rio_ok rp'"
      "pending rp' es' = (drop (length l) bs, At_eof)"
    proof (cases "ends_line l \<or> length l = MAXLINE - 1")
      case True
      then show ?thesis using spec that by auto
    next
      case part: False
      then have "l = bs" using take_line_partial[of "MAXLINE - 1" bs] by (simp add: l_def)
      then show ?thesis using spec part that False by auto
    qed
    have "print_body n b rp es printed = print_body rc l rp' es' (printed @ b)"
      using r(1) less.prems(5) cs by (subst print_body.simps) (simp add: next_line_def)
    also have "\<dots> = Some (Done ((printed @ b) @ l @ drop (length l) bs))"
    proof (rule less.hyps[OF _ r(3,4) _ _ r(2)])
      have "set l \<subseteq> set bs" "set (drop (length l) bs) \<subseteq> set bs" using split set_append by (metis Un_upper1, simp add: set_drop_subset)
      then show "NUL \<notin> set l" "NUL \<notin> set (drop (length l) bs)" using less.prems(3) by auto
      show "length (drop (length l) bs) < length bs" using ne False by simp
    qed
    finally show ?thesis using split by simp
  qed
qed

lemma body_printed:
  assumes "rio_ok rp" "pending rp es = (bs, At_eof)" "NUL \<notin> set bs"
  shows "then_run (next_line b rp es) (\<lambda>(n, b, rp, es). print_body n b rp es printed) = Some (Done (printed @ bs))"
proof -
  have "then_run (next_line b rp es) (\<lambda>(n, b, rp, es). print_body n b rp es printed) = print_body 1 [] rp es printed"
  proof -
    obtain rc l rp' es' where r: "Rio_readlineb rp MAXLINE es = Some (Done (rc, l, rp', es'))" "l = None \<Longrightarrow> rc = 0"
      using Rio_readlineb_spec[OF assms(1), of es] unfolding assms(2)
      by (auto simp: Let_def split: if_splits)
    show ?thesis
      by (cases l) (simp_all add: print_body.simps[of 1] next_line_def r cstr_def print_body.simps[of 0])
  qed
  then show ?thesis using print_body_reads[OF assms(1-3), of "[]" 1 printed] by simp
qed

text \<open>What the client prints of a file.\<close>

definition printed_reply :: "string \<Rightarrow> string \<Rightarrow> string" where
  "printed_reply fname bytes =
     ''Header: HTTP/1.0 200 OK'' @ CRLF @ ''Header: Server: blg312e Web Server'' @ CRLF
     @ ''Length = '' @ show_nat (length bytes) @ [NL]
     @ ''Header: Content-Length: '' @ show_nat (length bytes) @ CRLF
     @ ''Header: Content-Type: '' @ requestGetFiletype fname @ CRLF @ bytes"

lemma digits_plain: "c \<in> set (show_nat n) \<Longrightarrow> c \<noteq> NL \<and> c \<noteq> NUL \<and> c \<noteq> CHR ''-'' \<and> c \<noteq> CHR ''+'' \<and> \<not> isspace c"
proof -
  assume "c \<in> set (show_nat n)"
  then have "isdigit c" using show_nat_digits by blast
  then show ?thesis by (auto simp: isdigit_def isspace_def)
qed

lemma scan_length_line: "scan_length (''Content-Length: '' @ show_nat n @ CRLF) = Some (int n)"
proof -
  obtain c cs where c: "show_nat n = c # cs" by (cases "show_nat n") auto
  have "takeWhile isdigit (show_nat n @ CRLF) = show_nat n"
    using show_nat_digits[of n] by (simp add: takeWhile_append2 CRLF_def isdigit_def)
  then have t: "takeWhile isdigit (c # cs @ CRLF) = show_nat n" using c by simp
  have "\<not> isspace c" "c \<noteq> CHR ''-''" "c \<noteq> CHR ''+''" using digits_plain[of c n] c by auto
  then show ?thesis using t read_show_nat[of n]
    by (simp add: scan_length_def c Let_def isspace_def[of "CHR '' ''"])
qed

text \<open>Any reply of a status line, headers and a body is printed line by line and then as it is.\<close>

definition reply_of :: "string \<Rightarrow> string list \<Rightarrow> string \<Rightarrow> string" where
  "reply_of b ls body = b @ NL # concat (map (\<lambda>l. l @ [NL]) ls) @ CRLF @ body"

lemma reply_printed:
  assumes "delivered es = (reply_of b ls body, At_eof)" "header_line b" "\<forall>l \<in> set ls. header_line l" "NUL \<notin> set body"
  shows "clientPrint junk rp es = Some (Done (show_headers b ls @ body))"
proof -
  have p: "rio_ok (rio_readinitb rp)"
    "pending (rio_readinitb rp) es = (b @ NL # concat (map (\<lambda>l. l @ [NL]) ls) @ CRLF @ body, At_eof)"
    using readinitb_pending[of rp] assms(1) by (simp_all add: reply_of_def)
  obtain n rp1 es1 where r1: "next_line junk (rio_readinitb rp) es = Some (Done (n, b @ [NL], rp1, es1))" "0 < n"
    "rio_ok rp1" "pending rp1 es1 = (concat (map (\<lambda>l. l @ [NL]) ls) @ CRLF @ body, At_eof)"
    using next_line_reads[OF p, of junk] assms(2) by (auto simp: header_line_def)
  obtain rp2 es2 where r2: "print_headers n (b @ [NL]) rp1 es1 [] = Some (Done (CRLF, rp2, es2, [] @ show_headers b ls))"
    "rio_ok rp2" "pending rp2 es2 = (body, At_eof)"
    using print_headers_lines[OF assms(2,3) r1(2,3,4)] by blast
  show ?thesis
    unfolding clientPrint_def r1(1) then_run.simps prod.case r2(1) body_printed[OF r2(2,3) assms(4)] by simp
qed

lemma client_prints:
  assumes "delivered es = (static_reply fname bytes, At_eof)" "NUL \<notin> set bytes" "length bytes < 10 ^ 10"
  shows "clientPrint junk rp es = Some (Done (printed_reply fname bytes))"
proof -
  let ?b = "''HTTP/1.0 200 OK'' @ [CHR 0x0D]"
  let ?cl = "''Content-Length: '' @ show_nat (length bytes) @ [CHR 0x0D]"
  let ?ls = "[''Server: blg312e Web Server'' @ [CHR 0x0D], ?cl, ''Content-Type: '' @ requestGetFiletype fname @ [CHR 0x0D]]"
  have sl: "length (show_nat (length bytes)) \<le> 10" using show_nat_length[OF assms(3)] by simp
  have ft: "NL \<notin> set (requestGetFiletype fname) \<and> NUL \<notin> set (requestGetFiletype fname)"
    by (simp add: requestGetFiletype_def)
  have hl: "header_line ?b" "\<forall>l \<in> set ?ls. header_line l"
    using sl ft filetype_length[of fname] digits_plain by (auto simp: header_line_def)
  have e: "static_reply fname bytes = reply_of ?b ?ls bytes" by (simp add: static_reply_def reply_of_def CRLF_def)
  have "length_note (?cl @ [NL]) = ''Length = '' @ show_nat (length bytes) @ [NL]"
    using scan_length_line[of "length bytes"] by (simp add: length_note_def CRLF_def show_int_def)
  moreover have "length_note (''Server: blg312e Web Server'' @ [CHR 0x0D, NL]) = []"
    "length_note (''Content-Type: '' @ requestGetFiletype fname @ [CHR 0x0D, NL]) = []"
    by (simp_all add: length_note_def scan_length_def)
  ultimately have "show_headers ?b ?ls @ bytes = printed_reply fname bytes"
    by (simp add: printed_reply_def CRLF_def)
  then show ?thesis using reply_printed[OF assms(1)[unfolded e] hl assms(2)] by simp
qed

text \<open>C26. A file goes through: for a readable text file the server's handler returns, and the client that
  receives what was sent, in whatever pieces, prints the status line and the headers, the length it
  scanned, and then exactly the bytes of the file.\<close>

theorem file_served_and_printed:
  assumes "working io" "sent io = []" "length (req_method req) < 8000" "length (filename req) < 8000"
    and "status_of req = 200" "is_static req \<noteq> 0" "served_well os req"
    and "map_file os (filename req) (st_size (sbuf req)) = Some bytes" "NUL \<notin> set bytes"
  shows "\<exists>io'. requestHandle os req io = Some (Done io')
    \<and> (\<forall>es. delivered es = (sent io', At_eof) \<longrightarrow>
         clientPrint junk rp es = Some (Done (printed_reply (filename req) bytes)))"
proof -
  obtain io' where io: "requestHandle os req io = Some (Done io')" "sent io' = reply os req"
    using requestHandle_sends[OF assms(1,3,4,7)] assms(2) by auto
  have "sent io' = static_reply (filename req) bytes" using io(2) assms(5,6,8) by (simp add: reply_def)
  moreover have "length bytes < 10 ^ 10" using assms(6-8) by (auto simp: served_well_def)
  ultimately show ?thesis using io(1) client_prints[OF _ assms(9)] by auto
qed

theorem file_served_and_printed_witness:
  "\<exists>io'. requestHandle demo_web demo_request demo_conn = Some (Done io')
    \<and> clientPrint [] demo_rio [Chunk (sent io')] = Some (Done (printed_reply ''./a.html'' ''hello''))"
proof -
  have "served_well demo_web demo_request" by (simp add: served_well_def demo_web_def demo_request_def)
  then obtain io' where io: "requestHandle demo_web demo_request demo_conn = Some (Done io')"
    "\<forall>es. delivered es = (sent io', At_eof) \<longrightarrow>
       clientPrint [] demo_rio es = Some (Done (printed_reply (filename demo_request) ''hello''))"
    using file_served_and_printed[OF demo_working _ _ _ demo_status, of demo_web "''hello''" "[]" demo_rio]
    by (auto simp: demo_conn_def demo_request_def demo_web_def)
  have "delivered [Chunk (sent io')] = (sent io', At_eof)" by simp
  then show ?thesis using io by (simp add: demo_request_def)
qed

end
