(* ===== verification/ServerSteps.thy ===== *)
theory ServerSteps
  imports ClientServer "HOL-Library.Multiset"
begin

text \<open>
  The threads of \<^verbatim>\<open>multiThreadedWebServer/server.c\<close>: the accepting loop of \<^verbatim>\<open>main\<close> with the semaphores of
  \<^verbatim>\<open>queue_put\<close>, and the pool running \<^verbatim>\<open>thread_handle\<close>, interleaved at every semaphore operation. A step is
  one thread passing one program point. A call that ends the process or that never returns gives no
  step. The logs are ghosts: the requests in the order in which they entered and left the buffer.
\<close>

section \<open>Program points and steps\<close>

datatype main_pc =
  M_accept | M_wait_empty int | M_wait_mutex int | M_put int | M_post_mutex | M_post_fill

datatype thread_pc =
  T_wait_fill | T_wait_mutex | T_take | T_post_mutex request_t | T_post_empty request_t | T_handle request_t

record sys =
  sv :: server
  sem_empty :: nat
  sem_fill :: nat
  sem_mutex :: nat
  main_at :: main_pc
  threads :: "nat \<Rightarrow> thread_pc"
  put_log :: "request_t list"
  take_log :: "request_t list"

definition start_sys :: "request_t list \<Rightarrow> string \<Rightarrow> sys" where
  "start_sys mem policy = \<lparr>sv = start_server mem policy, sem_empty = length mem, sem_fill = 0, sem_mutex = 1,
     main_at = M_accept, threads = (\<lambda>_. T_wait_fill), put_log = [], take_log = []\<rparr>"

inductive main_step :: "web_os \<Rightarrow> sys \<Rightarrow> sys \<Rightarrow> bool" for os where
  accept: "main_at s = M_accept \<Longrightarrow> Accept rc = Some (Done fd) \<Longrightarrow>
     main_step os s (s\<lparr>main_at := M_wait_empty fd\<rparr>)"
| wait_empty: "main_at s = M_wait_empty fd \<Longrightarrow> 0 < sem_empty s \<Longrightarrow>
     main_step os s (s\<lparr>sem_empty := sem_empty s - 1, main_at := M_wait_mutex fd\<rparr>)"
| wait_mutex: "main_at s = M_wait_mutex fd \<Longrightarrow> 0 < sem_mutex s \<Longrightarrow>
     main_step os s (s\<lparr>sem_mutex := sem_mutex s - 1, main_at := M_put fd\<rparr>)"
| put: "main_at s = M_put fd \<Longrightarrow> queue_put os fd junk es (sv s) = Some (Done v) \<Longrightarrow>
     main_step os s (s\<lparr>sv := v, main_at := M_post_mutex, put_log := put_log s @ [last (waiting v)]\<rparr>)"
| post_mutex: "main_at s = M_post_mutex \<Longrightarrow>
     main_step os s (s\<lparr>sem_mutex := sem_mutex s + 1, main_at := M_post_fill\<rparr>)"
| post_fill: "main_at s = M_post_fill \<Longrightarrow>
     main_step os s (s\<lparr>sem_fill := sem_fill s + 1, main_at := M_accept\<rparr>)"

inductive thread_step :: "web_os \<Rightarrow> nat \<Rightarrow> sys \<Rightarrow> sys \<Rightarrow> bool" for os nthreads where
  t_wait_fill: "i < nthreads \<Longrightarrow> threads s i = T_wait_fill \<Longrightarrow> 0 < sem_fill s \<Longrightarrow>
     thread_step os nthreads s (s\<lparr>sem_fill := sem_fill s - 1, threads := (threads s)(i := T_wait_mutex)\<rparr>)"
| t_wait_mutex: "i < nthreads \<Longrightarrow> threads s i = T_wait_mutex \<Longrightarrow> 0 < sem_mutex s \<Longrightarrow>
     thread_step os nthreads s (s\<lparr>sem_mutex := sem_mutex s - 1, threads := (threads s)(i := T_take)\<rparr>)"
| t_take: "i < nthreads \<Longrightarrow> threads s i = T_take \<Longrightarrow> take_request (sv s) = Some (r, v) \<Longrightarrow>
     thread_step os nthreads s
       (s\<lparr>sv := v, threads := (threads s)(i := T_post_mutex r), take_log := take_log s @ [r]\<rparr>)"
| t_post_mutex: "i < nthreads \<Longrightarrow> threads s i = T_post_mutex r \<Longrightarrow>
     thread_step os nthreads s (s\<lparr>sem_mutex := sem_mutex s + 1, threads := (threads s)(i := T_post_empty r)\<rparr>)"
| t_post_empty: "i < nthreads \<Longrightarrow> threads s i = T_post_empty r \<Longrightarrow>
     thread_step os nthreads s (s\<lparr>sem_empty := sem_empty s + 1, threads := (threads s)(i := T_handle r)\<rparr>)"
| t_handle: "i < nthreads \<Longrightarrow> threads s i = T_handle r \<Longrightarrow> requestHandle os r io = Some (Done io') \<Longrightarrow>
     Close (close_rc os) = Some (Done c) \<Longrightarrow>
     thread_step os nthreads s (s\<lparr>threads := (threads s)(i := T_wait_fill)\<rparr>)"

definition sys_step :: "web_os \<Rightarrow> nat \<Rightarrow> sys \<Rightarrow> sys \<Rightarrow> bool" where
  "sys_step os nthreads s t \<longleftrightarrow> main_step os s t \<or> thread_step os nthreads s t"

inductive reachable :: "web_os \<Rightarrow> nat \<Rightarrow> request_t list \<Rightarrow> string \<Rightarrow> sys \<Rightarrow> bool"
  for os nthreads mem policy where
  start: "reachable os nthreads mem policy (start_sys mem policy)"
| step: "reachable os nthreads mem policy s \<Longrightarrow> sys_step os nthreads s t \<Longrightarrow> reachable os nthreads mem policy t"

inductive_simps thread_step_iff: "thread_step os nthreads s t"

section \<open>The invariant\<close>

text \<open>What each program point holds of the three semaphores.\<close>

fun main_locks :: "main_pc \<Rightarrow> nat" where
  "main_locks (M_put fd) = 1" | "main_locks M_post_mutex = 1" | "main_locks _ = 0"

fun main_claims :: "main_pc \<Rightarrow> nat" where
  "main_claims (M_wait_mutex fd) = 1" | "main_claims (M_put fd) = 1" | "main_claims _ = 0"

fun main_owes :: "main_pc \<Rightarrow> nat" where
  "main_owes M_post_mutex = 1" | "main_owes M_post_fill = 1" | "main_owes _ = 0"

fun locks :: "thread_pc \<Rightarrow> nat" where
  "locks T_take = 1" | "locks (T_post_mutex r) = 1" | "locks _ = 0"

fun claims :: "thread_pc \<Rightarrow> nat" where
  "claims T_wait_mutex = 1" | "claims T_take = 1" | "claims _ = 0"

fun owes :: "thread_pc \<Rightarrow> nat" where
  "owes (T_post_mutex r) = 1" | "owes (T_post_empty r) = 1" | "owes _ = 0"

definition pool_sum :: "nat \<Rightarrow> (thread_pc \<Rightarrow> nat) \<Rightarrow> (nat \<Rightarrow> thread_pc) \<Rightarrow> nat" where
  "pool_sum n f ts = (\<Sum>i<n. f (ts i))"

definition sys_ok :: "nat \<Rightarrow> nat \<Rightarrow> string \<Rightarrow> sys \<Rightarrow> bool" where
  "sys_ok nthreads slots policy s \<longleftrightarrow> ring_ok (sv s) \<and> nbuffer (sv s) = slots \<and> sched_policy (sv s) = policy
     \<and> (\<forall>fd. main_at s \<in> {M_wait_empty fd, M_wait_mutex fd, M_put fd} \<longrightarrow> 0 \<le> fd)
     \<and> sem_mutex s + main_locks (main_at s) + pool_sum nthreads locks (threads s) = 1
     \<and> sem_empty s + main_claims (main_at s) + nat (request_count (sv s)) + pool_sum nthreads owes (threads s) = slots
     \<and> sem_fill s + main_owes (main_at s) + pool_sum nthreads claims (threads s) = nat (request_count (sv s))
     \<and> mset (put_log s) = mset (take_log s) + mset (waiting (sv s))
     \<and> (policy = ''FIFO'' \<longrightarrow> put_log s = take_log s @ waiting (sv s))"

lemma pool_sum_update:
  assumes "i < n"
  shows "pool_sum n f (ts(i := pc)) + f (ts i) = pool_sum n f ts + f pc"
proof -
  have "(\<Sum>j\<in>{..<n} - {i}. f ((ts(i := pc)) j)) = (\<Sum>j\<in>{..<n} - {i}. f (ts j))"
    by (rule sum.cong) auto
  moreover have "(\<Sum>j<n. g j) = g i + (\<Sum>j\<in>{..<n} - {i}. g j)" for g :: "nat \<Rightarrow> nat"
    using assms by (simp add: sum.remove)
  note this[of "\<lambda>j. f ((ts(i := pc)) j)"] this[of "\<lambda>j. f (ts j)"]
  ultimately show ?thesis by (simp add: pool_sum_def)
qed

lemma pool_sum_member: "i < n \<Longrightarrow> f (ts i) \<le> pool_sum n f ts"
  unfolding pool_sum_def by (rule member_le_sum) auto

lemma pool_sum_nonzero: "i < n \<Longrightarrow> 0 < f (ts i) \<Longrightarrow> 0 < pool_sum n f ts"
  using pool_sum_member[of i n f ts] by simp

lemma start_sys_ok:
  assumes "mem \<noteq> []"
  shows "sys_ok nthreads (length mem) policy (start_sys mem policy)"
proof -
  have "request_count (start_server mem policy) = 0" "nbuffer (start_server mem policy) = length mem"
    "sched_policy (start_server mem policy) = policy" by (simp_all add: start_server_def)
  then show ?thesis using start_server_ok[OF assms]
    by (simp add: sys_ok_def start_sys_def pool_sum_def)
qed

lemma main_step_ok:
  assumes "main_step os s t" "sys_ok n k policy s"
  shows "sys_ok n k policy t"
  using assms
proof (cases rule: main_step.cases)
  case (accept rc fd)
  then have "0 \<le> fd" by (simp add: Accept_def checked_def unix_error_def split: if_splits)
  then show ?thesis using accept assms(2) by (auto simp: sys_ok_def)
next
  case (put fd junk es v)
  note ok = assms(2)[unfolded sys_ok_def]
  have "nat (request_count (sv s)) < nbuffer (sv s)" "fd \<noteq> -1" using ok put by auto
  from queue_put_ok[OF put(3) _ this] obtain r where v: "ring_ok v" "waiting v = waiting (sv s) @ [r]"
    "nbuffer v = nbuffer (sv s)" "sched_policy v = sched_policy (sv s)"
    "request_count v = request_count (sv s) + 1" using ok by auto
  have "0 \<le> request_count (sv s)" using ok by (simp add: ring_ok_def)
  then have "nat (request_count v) = Suc (nat (request_count (sv s)))" using v(5) by simp
  then show ?thesis using put ok v by (auto simp: sys_ok_def)
qed (auto simp: sys_ok_def)

lemma thread_step_ok:
  assumes "thread_step os n s t" "sys_ok n k policy s" "policy \<in> {''FIFO'', ''SFF'', ''RFF''}"
  shows "sys_ok n k policy t"
  using assms(1)
proof (cases rule: thread_step.cases)
  case (t_take i r v)
  note ok = assms(2)[unfolded sys_ok_def]
  have "0 < pool_sum n claims (threads s)" using pool_sum_nonzero[OF t_take(2), of claims "threads s"] t_take(3) by simp
  then have pos: "0 < request_count (sv s)" using ok by auto
  from take_request_by[of "sv s"] ok assms(3) pos t_take(4)
  obtain p where v: "best_by policy (waiting (sv s)) p" "r = waiting (sv s) ! p" "ring_ok v"
    "waiting v = take p (waiting (sv s)) @ drop (Suc p) (waiting (sv s))"
    "nbuffer v = nbuffer (sv s)" "sched_policy v = policy" "request_count v = request_count (sv s) - 1"
    by (auto split: if_splits)
  have p: "p < length (waiting (sv s))" using v(1) by (simp add: best_by_def)
  have "waiting (sv s) = take p (waiting (sv s)) @ r # drop (Suc p) (waiting (sv s))"
    using p v(2) id_take_nth_drop by blast
  then have "mset (waiting (sv s)) = add_mset r (mset (waiting v))" unfolding v(4)
    by (metis mset.simps(2) mset_append union_mset_add_mset_right)
  then have logs: "mset (put_log s) = mset (take_log s @ [r]) + mset (waiting v)" using ok by simp
  have "policy = ''FIFO'' \<longrightarrow> waiting (sv s) = r # waiting v"
    using p v(1,2,4) by (cases "waiting (sv s)") (auto simp: best_by_def)
  then have fifo: "policy = ''FIFO'' \<longrightarrow> put_log s = (take_log s @ [r]) @ waiting v" using ok by simp
  have cnt: "nat (request_count v) + 1 = nat (request_count (sv s))" using v(7) pos by auto
  note u = pool_sum_update[OF t_take(2), of _ "threads s" "T_post_mutex r"]
  have t: "sv t = v" "threads t = (threads s)(i := T_post_mutex r)" "take_log t = take_log s @ [r]"
    "put_log t = put_log s" "main_at t = main_at s" "sem_mutex t = sem_mutex s" "sem_empty t = sem_empty s"
    "sem_fill t = sem_fill s" by (simp_all add: t_take(1))
  have "pool_sum n locks (threads t) = pool_sum n locks (threads s)"
    "pool_sum n claims (threads t) + 1 = pool_sum n claims (threads s)"
    "pool_sum n owes (threads t) = pool_sum n owes (threads s) + 1"
    using u[of locks] u[of claims] u[of owes] t_take(3) by (simp_all add: t(2))
  then show ?thesis using ok cnt v(3,5,6) logs fifo unfolding sys_ok_def t(1,3-) by simp
next
  case (t_wait_fill i)
  note u = pool_sum_update[OF t_wait_fill(2), of _ "threads s" T_wait_mutex]
  show ?thesis using t_wait_fill assms(2) u[of locks] u[of claims] u[of owes] by (auto simp: sys_ok_def)
next
  case (t_wait_mutex i)
  note u = pool_sum_update[OF t_wait_mutex(2), of _ "threads s" T_take]
  show ?thesis using t_wait_mutex assms(2) u[of locks] u[of claims] u[of owes] by (auto simp: sys_ok_def)
next
  case (t_post_mutex i r)
  note u = pool_sum_update[OF t_post_mutex(2), of _ "threads s" "T_post_empty r"]
  show ?thesis using t_post_mutex assms(2) u[of locks] u[of claims] u[of owes] by (auto simp: sys_ok_def)
next
  case (t_post_empty i r)
  note u = pool_sum_update[OF t_post_empty(2), of _ "threads s" "T_handle r"]
  show ?thesis using t_post_empty assms(2) u[of locks] u[of claims] u[of owes] by (auto simp: sys_ok_def)
next
  case (t_handle i r io io' c)
  note u = pool_sum_update[OF t_handle(2), of _ "threads s" T_wait_fill]
  show ?thesis using t_handle assms(2) u[of locks] u[of claims] u[of owes] by (auto simp: sys_ok_def)
qed

lemma reachable_ok:
  assumes "reachable os n mem policy s" "mem \<noteq> []" "policy \<in> {''FIFO'', ''SFF'', ''RFF''}"
  shows "sys_ok n (length mem) policy s"
  using assms(1)
proof (induction rule: reachable.induct)
  case start
  show ?case by (rule start_sys_ok[OF assms(2)])
next
  case (step s t)
  then show ?case using main_step_ok thread_step_ok assms(3) by (auto simp: sys_step_def)
qed

section \<open>Mutual exclusion and bounds\<close>

lemma pool_sum_one:
  assumes "pool_sum n f ts \<le> 1" "i < n" "j < n" "f (ts i) = 1" "f (ts j) = 1"
  shows "i = j"
proof (rule ccontr)
  assume "i \<noteq> j"
  then have "f (ts i) + f (ts j) = (\<Sum>k\<in>{i, j}. f (ts k))" by simp
  also have "\<dots> \<le> pool_sum n f ts" unfolding pool_sum_def using assms(2,3) by (intro sum_mono2) auto
  finally show False using assms by simp
qed

text \<open>C19. At most one thread at a time is between the two semaphore operations on \<^verbatim>\<open>mutex\<close>: two of the
  pool's threads are never there together, and none is while the accepting thread fills a slot.\<close>

theorem server_mutual_exclusion:
  assumes "reachable os n mem policy s" "mem \<noteq> []" "policy \<in> {''FIFO'', ''SFF'', ''RFF''}"
    and "i < n" "locks (threads s i) = 1"
  shows "main_locks (main_at s) = 0 \<and> (\<forall>j < n. locks (threads s j) = 1 \<longrightarrow> j = i)"
proof -
  have eq: "sem_mutex s + main_locks (main_at s) + pool_sum n locks (threads s) = 1"
    using reachable_ok[OF assms(1-3)] by (simp add: sys_ok_def)
  moreover have "1 \<le> pool_sum n locks (threads s)" using pool_sum_member[OF assms(4), of locks "threads s"] assms(5) by simp
  ultimately show ?thesis using pool_sum_one[of n locks "threads s" _ i] assms(4,5) by auto
qed

text \<open>C21. The semaphores keep the buffer's bounds: the accepting thread fills a slot only when one is free,
  a thread of the pool takes only when a request waits, so no request is overwritten and no empty slot
  is served.\<close>

theorem server_buffer_bounds:
  assumes "reachable os n mem policy s" "mem \<noteq> []" "policy \<in> {''FIFO'', ''SFF'', ''RFF''}"
  shows "(\<forall>fd. main_at s = M_put fd \<longrightarrow> length (waiting (sv s)) < length mem)
    \<and> (\<forall>i < n. threads s i = T_take \<longrightarrow> waiting (sv s) \<noteq> [])
    \<and> length (waiting (sv s)) \<le> length mem"
proof -
  note ok = reachable_ok[OF assms, unfolded sys_ok_def]
  have "waiting (sv s) \<noteq> []" if "i < n" "threads s i = T_take" for i
  proof -
    have "0 < pool_sum n claims (threads s)" using pool_sum_nonzero[OF that(1), of claims "threads s"] that(2) by simp
    moreover have "sem_fill s + main_owes (main_at s) + pool_sum n claims (threads s) = nat (request_count (sv s))"
      using ok by simp
    ultimately have "0 < length (waiting (sv s))" unfolding waiting_length by linarith
    then show ?thesis by (rule length_greater_0_conv[THEN iffD1])
  qed
  then show ?thesis using ok by auto
qed

text \<open>C20. No request is lost, invented or served twice: what entered the buffer is what left it together
  with what waits in it, and under \<^verbatim>\<open>FIFO\<close> it left in the order in which it entered.\<close>

theorem server_conserves_requests:
  assumes "reachable os n mem policy s" "mem \<noteq> []" "policy \<in> {''FIFO'', ''SFF'', ''RFF''}"
  shows "mset (put_log s) = mset (take_log s) + mset (waiting (sv s))
    \<and> (policy = ''FIFO'' \<longrightarrow> put_log s = take_log s @ waiting (sv s))"
  using reachable_ok[OF assms] by (simp add: sys_ok_def)

section \<open>Progress\<close>

text \<open>When every thread waits at one of its two first semaphores, the accepting thread or a thread can step.\<close>

lemma waiting_pool_steps:
  assumes ok: "sys_ok n slots policy s" and "0 < n" "0 < slots"
    and pc: "\<forall>i < n. threads s i = T_wait_fill \<or> threads s i = T_wait_mutex"
    and m: "main_at s = M_wait_empty fd \<or> main_at s = M_wait_mutex fd"
  shows "(\<exists>t. main_step os s t) \<or> (\<exists>t. thread_step os n s t)"
proof (rule ccontr)
  assume a: "\<not> ?thesis"
  note inv = ok[unfolded sys_ok_def]
  have no_main: "\<not> main_step os s t" and no_thread: "\<not> thread_step os n s t" for t using a by blast+
  have "locks (threads s i) = 0" "owes (threads s i) = 0" if "i < n" for i
    using pc that by (metis locks.simps(3,4), metis owes.simps(3,4))
  then have zero: "pool_sum n locks (threads s) = 0" "pool_sum n owes (threads s) = 0"
    by (simp_all add: pool_sum_def)
  then have "sem_mutex s = 1" using inv m by auto
  then have "main_at s \<noteq> M_wait_mutex fd" "i < n \<Longrightarrow> threads s i \<noteq> T_wait_mutex" for i
    using no_main main_step.wait_mutex[of s fd os] no_thread thread_step.t_wait_mutex[of i n s os] by auto
  then have rest: "\<forall>i < n. threads s i = T_wait_fill" and me: "main_at s = M_wait_empty fd"
    using pc m by auto
  then have "pool_sum n claims (threads s) = 0" by (simp add: pool_sum_def)
  moreover have "sem_empty s = 0" using me no_main main_step.wait_empty[of s fd os] by auto
  ultimately have "0 < sem_fill s" using inv zero me assms(3) by auto
  then show False using no_thread thread_step.t_wait_fill[OF assms(2)] rest assms(2) by blast
qed

text \<open>C22. No deadlock under \<^verbatim>\<open>FIFO\<close>: in every reachable state in which something is left to do, a thread can
  pass its semaphore operation, unless the accepting thread is reading from a client or a thread of the
  pool is answering one.\<close>

theorem server_no_deadlock:
  assumes "reachable os n mem ''FIFO'' s" "mem \<noteq> []" "0 < n"
  shows "(main_at s = M_accept \<and> (\<forall>i < n. threads s i = T_wait_fill) \<and> waiting (sv s) = [])
    \<or> (\<exists>fd. main_at s = M_put fd) \<or> (\<exists>i < n. \<exists>r. threads s i = T_handle r)
    \<or> (\<exists>t. sys_step os n s t)"
proof (rule ccontr)
  assume a: "\<not> ?thesis"
  have ok: "sys_ok n (length mem) ''FIFO'' s" using reachable_ok[OF assms(1,2)] by simp
  note inv = ok[unfolded sys_ok_def]
  have stuck: "\<not> sys_step os n s t" for t using a by blast
  have no_main: "\<not> main_step os s t" for t using stuck[of t] by (simp add: sys_step_def)
  have no_thread: "\<not> thread_step os n s t" for t using stuck[of t] by (simp add: sys_step_def)
  have noput: "main_at s \<noteq> M_put fd" for fd using a by blast
  have pc: "threads s i = T_wait_fill \<or> threads s i = T_wait_mutex" if i: "i < n" for i
  proof (cases "threads s i")
    case T_take
    have "0 < pool_sum n claims (threads s)" using pool_sum_nonzero[OF i, of claims "threads s"] T_take by simp
    then have "0 < request_count (sv s)" using inv by auto
    moreover have "\<not> none_eligible (sched_policy (sv s)) (waiting (sv s))" using inv by (simp add: none_eligible_def)
    ultimately obtain r v where "take_request (sv s) = Some (r, v)"
      using take_request_by[of "sv s"] inv by auto
    then show ?thesis using no_thread thread_step.t_take[OF i T_take] by blast
  qed (use no_thread thread_step.t_post_mutex[OF i] thread_step.t_post_empty[OF i] a i in blast)+
  have noacc: "main_at s \<noteq> M_accept"
  proof
    assume m: "main_at s = M_accept"
    have "Accept 0 = Some (Done 0)" by (simp add: Accept_def)
    then show False using no_main main_step.accept[OF m] by blast
  qed
  have "main_at s \<noteq> M_post_mutex" "main_at s \<noteq> M_post_fill"
    using no_main main_step.post_mutex[of s os] main_step.post_fill[of s os] by blast+
  then have m: "(\<exists>fd. main_at s = M_wait_empty fd) \<or> (\<exists>fd. main_at s = M_wait_mutex fd)"
    using noput noacc by (cases "main_at s") auto
  then show False using waiting_pool_steps[OF ok assms(3)] pc no_main no_thread assms(2) by blast
qed

section \<open>A run of the server\<close>

text \<open>One client asks for a file; a thread of the pool takes the request.\<close>

abbreviation demo_mem :: "request_t list" where
  "demo_mem \<equiv> [blank_request, blank_request]"

abbreviation demo_run :: "sys \<Rightarrow> bool" where
  "demo_run \<equiv> reachable demo_web 2 demo_mem ''FIFO''"

lemma run_main: "demo_run s \<Longrightarrow> main_step demo_web s t \<Longrightarrow> demo_run t"
  by (rule reachable.step[of _ _ _ _ s]) (simp_all add: sys_step_def)

lemma run_thread: "demo_run s \<Longrightarrow> thread_step demo_web 2 s t \<Longrightarrow> demo_run t"
  by (rule reachable.step[of _ _ _ _ s]) (simp_all add: sys_step_def)

lemma demo_reading:
  obtains s where "demo_run s" "main_at s = M_put 4" "threads s = (\<lambda>_. T_wait_fill)" "sem_fill s = 0"
    "sv s = start_server demo_mem ''FIFO''" "put_log s = []" "take_log s = []"
proof -
  let ?s0 = "start_sys demo_mem ''FIFO''"
  let ?s1 = "?s0\<lparr>main_at := M_wait_empty 4\<rparr>"
  let ?s2 = "?s1\<lparr>sem_empty := sem_empty ?s1 - 1, main_at := M_wait_mutex 4\<rparr>"
  let ?s3 = "?s2\<lparr>sem_mutex := sem_mutex ?s2 - 1, main_at := M_put 4\<rparr>"
  have "main_step demo_web ?s0 ?s1" by (rule main_step.accept[of _ 4]) (simp_all add: start_sys_def Accept_def)
  with reachable.start have "demo_run ?s1" by (rule run_main)
  moreover have "main_step demo_web ?s1 ?s2" by (rule main_step.wait_empty) (simp_all add: start_sys_def)
  ultimately have "demo_run ?s2" by (rule run_main)
  moreover have "main_step demo_web ?s2 ?s3" by (rule main_step.wait_mutex) (simp_all add: start_sys_def)
  ultimately have "demo_run ?s3" by (rule run_main)
  then show ?thesis by (rule that) (simp_all add: start_sys_def)
qed

text \<open>What the server stores of the request for \<^verbatim>\<open>/a.html\<close>.\<close>

definition asks_for_demo :: "request_t \<Rightarrow> bool" where
  "asks_for_demo r \<longleftrightarrow> connfd r = 4 \<and> is_static r = 1 \<and> stat_return r = 0
     \<and> sbuf r = \<lparr>st_mode = 0x81A4, st_size = 5, st_mtime = 10\<rparr> \<and> req_method r = ''GET'' \<and> filename r = ''./a.html''"

lemma demo_put:
  obtains v r where "queue_put demo_web 4 [] [Chunk (request_text ''/a.html'' ''pc'')] (start_server demo_mem ''FIFO'')
      = Some (Done v)" "waiting v = [r]" "asks_for_demo r"
proof -
  let ?v = "start_server demo_mem ''FIFO''"
  have ok: "ring_ok ?v" "waiting ?v = []" using start_server_ok[of demo_mem] by simp_all
  obtain r where r: "fill_slot demo_web 4 [] [Chunk (request_text ''/a.html'' ''pc'')] (queue ?v ! tail ?v) = Some (Done r)"
    "connfd r = 4" "asks_for_demo r"
    using client_request_stored[OF demo_word _ _ _ _ demo_uri, of "''pc''" "[Chunk (request_text ''/a.html'' ''pc'')]" At_eof
        demo_web 4 "[]" "queue ?v ! tail ?v"] by (auto simp: request_text_def asks_for_demo_def demo_web_def)
  obtain v where v: "publish r ?v = Some v" "waiting v = [r]"
    using publish_ok[OF ok(1), of r] ok(2) r(2) by (auto simp: start_server_def)
  have "tail ?v < nbuffer ?v" by (simp add: start_server_def)
  then have "queue_put demo_web 4 [] [Chunk (request_text ''/a.html'' ''pc'')] ?v = Some (Done v)"
    using r(1) v(1) by (simp add: queue_put_def)
  then show ?thesis using that v(2) r(3) by blast
qed

lemma demo_taking:
  obtains s r where "demo_run s" "main_at s = M_accept" "threads s = (\<lambda>_. T_wait_fill)(0 := T_take)"
    "waiting (sv s) = [r]" "put_log s = [r]" "take_log s = []" "sem_fill s = 0" "asks_for_demo r"
proof -
  obtain s3 where s3: "demo_run s3" "main_at s3 = M_put 4" "threads s3 = (\<lambda>_. T_wait_fill)" "sem_fill s3 = 0"
    "sv s3 = start_server demo_mem ''FIFO''" "put_log s3 = []" "take_log s3 = []" by (rule demo_reading)
  obtain v r where v: "queue_put demo_web 4 [] [Chunk (request_text ''/a.html'' ''pc'')] (sv s3) = Some (Done v)"
    "waiting v = [r]" "asks_for_demo r" unfolding s3(5) by (rule demo_put)
  let ?s4 = "s3\<lparr>sv := v, main_at := M_post_mutex, put_log := put_log s3 @ [last (waiting v)]\<rparr>"
  let ?s5 = "?s4\<lparr>sem_mutex := sem_mutex ?s4 + 1, main_at := M_post_fill\<rparr>"
  let ?s6 = "?s5\<lparr>sem_fill := sem_fill ?s5 + 1, main_at := M_accept\<rparr>"
  let ?s7 = "?s6\<lparr>sem_fill := sem_fill ?s6 - 1, threads := (threads ?s6)(0 := T_wait_mutex)\<rparr>"
  let ?s8 = "?s7\<lparr>sem_mutex := sem_mutex ?s7 - 1, threads := (threads ?s7)(0 := T_take)\<rparr>"
  have "demo_run ?s4" by (rule run_main[OF s3(1) main_step.put[OF s3(2) v(1)]])
  then have "demo_run ?s5" by (rule run_main[OF _ main_step.post_mutex]) simp
  then have "demo_run ?s6" by (rule run_main[OF _ main_step.post_fill]) simp
  then have "demo_run ?s7" by (rule run_thread[OF _ thread_step.t_wait_fill]) (simp_all add: s3)
  then have "demo_run ?s8" by (rule run_thread[OF _ thread_step.t_wait_mutex]) simp_all
  then show ?thesis by (rule that[of _ r]) (simp_all add: s3 v fun_eq_iff)
qed

theorem server_mutual_exclusion_witness:
  "\<exists>s. demo_run s \<and> threads s 0 = T_take \<and> main_locks (main_at s) = 0 \<and> locks (threads s 1) \<noteq> 1"
proof -
  obtain s r where s: "demo_run s" "threads s = (\<lambda>_. T_wait_fill)(0 := T_take)" by (rule demo_taking)
  have "main_locks (main_at s) = 0 \<and> (\<forall>j < 2. locks (threads s j) = 1 \<longrightarrow> j = 0)"
    by (rule server_mutual_exclusion[OF s(1)]) (simp_all add: s(2))
  then show ?thesis using s by (intro exI[of _ s]) auto
qed

theorem server_buffer_bounds_witness:
  "\<exists>s. demo_run s \<and> threads s 0 = T_take \<and> waiting (sv s) \<noteq> [] \<and> length (waiting (sv s)) \<le> 2"
proof -
  obtain s r where s: "demo_run s" "threads s = (\<lambda>_. T_wait_fill)(0 := T_take)" by (rule demo_taking)
  have "\<forall>i < 2. threads s i = T_take \<longrightarrow> waiting (sv s) \<noteq> []" "length (waiting (sv s)) \<le> length demo_mem"
    using server_buffer_bounds[OF s(1)] by blast+
  moreover have "threads s 0 = T_take" by (simp add: s(2))
  ultimately show ?thesis using s(1) by (intro exI[of _ s]) auto
qed

theorem server_conserves_requests_witness:
  "\<exists>s. demo_run s \<and> put_log s \<noteq> [] \<and> put_log s = take_log s @ waiting (sv s)"
proof -
  obtain s r where s: "demo_run s" "put_log s = [r]" by (rule demo_taking)
  then show ?thesis using server_conserves_requests[OF s(1)] by (intro exI[of _ s]) simp
qed

theorem server_no_deadlock_witness:
  "\<exists>s t. demo_run s \<and> threads s 0 = T_take \<and> sys_step demo_web 2 s t"
proof -
  obtain s r where s: "demo_run s" "main_at s = M_accept" "threads s = (\<lambda>_. T_wait_fill)(0 := T_take)"
    by (rule demo_taking)
  have t: "threads s 0 = T_take" "\<forall>i. \<forall>r. threads s i \<noteq> T_handle r" by (simp_all add: s(3))
  have "(main_at s = M_accept \<and> (\<forall>i < 2. threads s i = T_wait_fill) \<and> waiting (sv s) = [])
    \<or> (\<exists>fd. main_at s = M_put fd) \<or> (\<exists>i < 2. \<exists>r. threads s i = T_handle r) \<or> (\<exists>t. sys_step demo_web 2 s t)"
    by (rule server_no_deadlock[OF s(1)]) simp_all
  moreover have "\<not> (\<forall>i < (2::nat). threads s i = T_wait_fill)" using t(1) by (intro notI) auto
  ultimately show ?thesis using s(1,2) t by auto
qed

end
