(* ===== verification/ServerProgress.thy ===== *)
theory ServerProgress
  imports ServerSteps
begin

text \<open>
  The start of the server from its command line, and the work of the thread pool: however its threads
  are scheduled, after a bounded number of steps all waiting requests have been taken and every thread waits again;
  and what becomes of the server when a client that was accepted stays silent.
\<close>

section \<open>From the command line to the first state\<close>

text \<open>\<^verbatim>\<open>main\<close> of \<^verbatim>\<open>server.c\<close> up to its loop: the arguments, the allocated array, the answers of the socket calls.
  The result is the exit message, or the state and the number of threads.\<close>

definition server_main :: "string list \<Rightarrow> (nat \<Rightarrow> request_t list) \<Rightarrow> int \<Rightarrow> int \<Rightarrow> int \<Rightarrow> int \<Rightarrow> (string + sys \<times> nat) run" where
  "server_main argv mem sock opt bnd lst = (case getargs argv of
     Inl msg \<Rightarrow> Some (Done (Inl msg))
   | Inr (port, nthreads, slots, policy) \<Rightarrow>
       then_run (Open_listenfd sock opt bnd lst) (\<lambda>listenfd.
         Some (Done (Inr (start_sys (mem (nat slots)) policy, nat nthreads)))))"

lemma server_main_started:
  assumes "server_main argv mem sock opt bnd lst = Some (Done (Inr (s, n)))" "\<And>k. length (mem k) = k"
  obtains m policy where "s = start_sys m policy" "m \<noteq> []" "policy \<in> {''FIFO'', ''SFF'', ''RFF''}" "0 < n"
proof -
  obtain port nthreads slots policy where g: "getargs argv = Inr (port, nthreads, slots, policy)"
    "s = start_sys (mem (nat slots)) policy" "n = nat nthreads"
    using assms(1) by (auto simp: server_main_def then_run_Done_iff split: sum.splits)
  then have v: "0 < nthreads" "0 < slots" "policy \<in> {''FIFO'', ''SFF'', ''RFF''}"
    by (auto simp: getargs_def split: if_splits)
  have "length (mem (nat slots)) \<noteq> 0" using assms(2) v(2) by simp
  then have "mem (nat slots) \<noteq> []" by simp
  then show ?thesis using that[of "mem (nat slots)" policy] g v by simp
qed

section \<open>The work that is left\<close>

fun rank :: "thread_pc \<Rightarrow> nat" where
  "rank T_wait_fill = 0"
| "rank T_wait_mutex = 5"
| "rank T_take = 4"
| "rank (T_post_mutex r) = 3"
| "rank (T_post_empty r) = 2"
| "rank (T_handle r) = 1"

definition work :: "nat \<Rightarrow> sys \<Rightarrow> nat" where
  "work n s = 6 * sem_fill s + pool_sum n rank (threads s)"

lemma thread_step_work: "thread_step os n s t \<Longrightarrow> work n t < work n s"
proof (induction rule: thread_step.induct)
  case (t_wait_fill i s)
  then show ?case using pool_sum_update[of i n rank "threads s" T_wait_mutex] by (simp add: work_def)
next
  case (t_wait_mutex i s)
  then show ?case using pool_sum_update[of i n rank "threads s" T_take] by (simp add: work_def)
next
  case (t_take i s r v)
  then show ?case using pool_sum_update[of i n rank "threads s" "T_post_mutex r"] by (simp add: work_def)
next
  case (t_post_mutex i s r)
  then show ?case using pool_sum_update[of i n rank "threads s" "T_post_empty r"] by (simp add: work_def)
next
  case (t_post_empty i s r)
  then show ?case using pool_sum_update[of i n rank "threads s" "T_handle r"] by (simp add: work_def)
next
  case (t_handle i s r io io' c)
  then show ?case using pool_sum_update[of i n rank "threads s" T_wait_fill] by (simp add: work_def)
qed

lemma thread_steps_bounded: "(thread_step os n ^^ k) s t \<Longrightarrow> work n t + k \<le> work n s"
proof (induction k arbitrary: t)
  case (Suc k)
  then obtain u where "(thread_step os n ^^ k) s u" "thread_step os n u t" by auto
  then show ?case using Suc.IH thread_step_work by fastforce
qed simp

section \<open>What the threads hold\<close>

fun held :: "thread_pc \<Rightarrow> request_t set" where
  "held (T_post_mutex r) = {r}"
| "held (T_post_empty r) = {r}"
| "held (T_handle r) = {r}"
| "held _ = {}"

definition held_ok :: "nat \<Rightarrow> sys \<Rightarrow> bool" where
  "held_ok n s \<longleftrightarrow> (\<forall>i < n. held (threads s i) \<subseteq> set (take_log s))"

lemma thread_step_held:
  assumes "thread_step os n s t" "held_ok n s"
  shows "held_ok n t \<and> main_at t = main_at s \<and> put_log t = put_log s"
  using assms
proof (induction rule: thread_step.induct)
  case (t_post_mutex i s r)
  then have "held (threads s i) \<subseteq> set (take_log s)" unfolding held_ok_def by blast
  then show ?case using t_post_mutex by (auto simp: held_ok_def)
next
  case (t_post_empty i s r)
  then have "held (threads s i) \<subseteq> set (take_log s)" unfolding held_ok_def by blast
  then show ?case using t_post_empty by (auto simp: held_ok_def)
next
  case (t_take i s r v)
  have "held (threads s j) \<subseteq> insert r (set (take_log s))" if "j < n" for j
    using t_take.prems that by (auto simp: held_ok_def)
  then show ?case by (auto simp: held_ok_def)
qed (auto simp: held_ok_def)

lemma main_step_held: "main_step os s t \<Longrightarrow> held_ok n s \<Longrightarrow> held_ok n t"
  by (induction rule: main_step.induct) (auto simp: held_ok_def)

lemma reachable_held: "reachable os n mem policy s \<Longrightarrow> held_ok n s"
proof (induction rule: reachable.induct)
  case start
  show ?case by (simp add: held_ok_def start_sys_def)
next
  case (step s t)
  then show ?case using main_step_held thread_step_held by (auto simp: sys_step_def)
qed

section \<open>The pool empties the buffer\<close>

text \<open>The handler can return for this request, on some connection.\<close>

definition answerable :: "web_os \<Rightarrow> request_t \<Rightarrow> bool" where
  "answerable os r \<longleftrightarrow> (\<exists>io io'. requestHandle os r io = Some (Done io'))"

lemma stuck_pool:
  assumes "sys_ok n slots ''FIFO'' s" "held_ok n s" "0 < n" "main_at s = M_accept \<or> main_at s = M_wait_empty fd"
    and "\<forall>r \<in> set (put_log s). answerable os r" "0 \<le> close_rc os" "\<nexists>t. thread_step os n s t"
  shows "waiting (sv s) = [] \<and> (\<forall>i < n. threads s i = T_wait_fill) \<and> take_log s = put_log s"
proof -
  note inv = assms(1)[unfolded sys_ok_def]
  have m: "main_locks (main_at s) = 0" "main_owes (main_at s) = 0" using assms(4) by auto
  have no: "\<not> thread_step os n s t" for t using assms(7) by blast
  have logs: "put_log s = take_log s @ waiting (sv s)" using inv by simp
  have pc: "threads s i = T_wait_fill \<or> threads s i = T_wait_mutex" if i: "i < n" for i
  proof (cases "threads s i")
    case T_take
    have "0 < pool_sum n claims (threads s)" using pool_sum_nonzero[OF i, of claims "threads s"] T_take by simp
    then have "0 < request_count (sv s)" using inv by auto
    moreover have "\<not> none_eligible (sched_policy (sv s)) (waiting (sv s))" using inv by (simp add: none_eligible_def)
    ultimately obtain r v where "take_request (sv s) = Some (r, v)" using take_request_by[of "sv s"] inv by auto
    then show ?thesis using no thread_step.t_take[OF i T_take] by blast
  next
    case (T_handle r)
    then have "r \<in> set (put_log s)" using assms(2) i logs by (auto simp: held_ok_def)
    then obtain io io' where "requestHandle os r io = Some (Done io')" using assms(5) by (auto simp: answerable_def)
    moreover have "Close (close_rc os) = Some (Done (close_rc os))" using assms(6) by (simp add: Close_def)
    ultimately show ?thesis using no thread_step.t_handle[OF i T_handle] by blast
  qed (use no thread_step.t_post_mutex[OF i] thread_step.t_post_empty[OF i] in blast)+
  then have "locks (threads s i) = 0" if "i < n" for i using that by (metis locks.simps(3,4))
  then have "pool_sum n locks (threads s) = 0" by (simp add: pool_sum_def)
  then have mutex: "0 < sem_mutex s" using inv m by simp
  then have wf: "threads s i = T_wait_fill" if "i < n" for i
    using pc[OF that] no thread_step.t_wait_mutex[OF that _ mutex] by blast
  then have "sem_fill s = 0" using no thread_step.t_wait_fill[OF assms(3)] assms(3) by auto
  moreover have "pool_sum n claims (threads s) = 0" using wf by (simp add: pool_sum_def)
  moreover have "sem_fill s + main_owes (main_at s) + pool_sum n claims (threads s) = nat (request_count (sv s))"
    using inv by simp
  ultimately have "length (waiting (sv s)) = 0" using m unfolding waiting_length by linarith
  then have "waiting (sv s) = []" unfolding length_0_conv .
  then show ?thesis using wf logs by simp
qed

text \<open>C23. Under FIFO the thread pool finishes its work: while the accepting thread waits for a connection or a
  free slot, the handler can return for every request that was put (\<open>answerable\<close>) and connections can be closed, the threads make at most \<open>work\<close> steps however they are scheduled, and when none can step any more
  every request that was put has been taken, in the order they were put, the buffer is empty and each
  thread has finished the request it took and waits for the next.\<close>

theorem pool_empties_buffer:
  assumes "reachable os n mem ''FIFO'' s" "mem \<noteq> []" "0 < n" "main_at s = M_accept \<or> main_at s = M_wait_empty fd"
    and "\<forall>r \<in> set (put_log s). answerable os r" "0 \<le> close_rc os"
    and "(thread_step os n ^^ k) s t"
  shows "k \<le> work n s \<and> ((\<nexists>u. thread_step os n t u) \<longrightarrow>
    waiting (sv t) = [] \<and> (\<forall>i < n. threads t i = T_wait_fill) \<and> take_log t = put_log s)"
proof -
  have "sys_ok n (length mem) ''FIFO'' t \<and> held_ok n t \<and> main_at t = main_at s \<and> put_log t = put_log s"
    using assms(7)
  proof (induction k arbitrary: t)
    case 0
    then show ?case using reachable_ok[OF assms(1,2)] reachable_held[OF assms(1)] by simp
  next
    case (Suc k)
    then obtain u where "(thread_step os n ^^ k) s u" "thread_step os n u t" by auto
    then show ?case using Suc.IH[of u] thread_step_ok[of os n u t] thread_step_held[of os n u t] by auto
  qed
  then show ?thesis
    using stuck_pool[of n "length mem" t fd os] assms(3-6) thread_steps_bounded[OF assms(7)] by simp
qed

lemma demo_answerable: "asks_for_demo r \<Longrightarrow> answerable demo_web r"
proof -
  assume r: "asks_for_demo r"
  have "status_of r = 200"
    using r by (simp add: asks_for_demo_def status_of_def demo_get S_ISREG_def S_IRUSR_def)
  moreover have "served_well demo_web r" using r by (simp add: asks_for_demo_def served_well_def demo_web_def)
  ultimately have "\<exists>io'. requestHandle demo_web r demo_conn = Some (Done io')"
    using requestHandle_sends[OF demo_working, of r demo_web] r by (auto simp: asks_for_demo_def)
  then show ?thesis by (auto simp: answerable_def)
qed

theorem pool_empties_buffer_witness:
  "\<exists>s. demo_run s \<and> waiting (sv s) \<noteq> [] \<and> (\<forall>k t. (thread_step demo_web 2 ^^ k) s t \<longrightarrow> k \<le> 4
     \<and> ((\<nexists>u. thread_step demo_web 2 t u) \<longrightarrow> waiting (sv t) = [] \<and> take_log t = put_log s))"
proof -
  obtain s r where s: "demo_run s" "main_at s = M_accept" "threads s = (\<lambda>_. T_wait_fill)(0 := T_take)"
    "waiting (sv s) = [r]" "put_log s = [r]" "sem_fill s = 0" "asks_for_demo r" by (rule demo_taking)
  have w: "work 2 s = 4" using s(3,6) by (simp add: work_def pool_sum_def numeral_2_eq_2)
  have "k \<le> work 2 s \<and> ((\<nexists>u. thread_step demo_web 2 t u) \<longrightarrow>
      waiting (sv t) = [] \<and> (\<forall>i < 2. threads t i = T_wait_fill) \<and> take_log t = put_log s)"
    if "(thread_step demo_web 2 ^^ k) s t" for k t
    by (rule pool_empties_buffer[OF s(1) _ _ _ _ _ that])
      (use s demo_answerable in \<open>simp_all add: demo_web_def\<close>)
  then show ?thesis using s(1,4) w by (intro exI[of _ s]) simp
qed

section \<open>A client that stays silent\<close>

text \<open>The steps of the server when the client of each connection \<open>fd\<close> sends \<open>inp fd\<close>.\<close>

definition hearing :: "web_os \<Rightarrow> nat \<Rightarrow> (int \<Rightarrow> read_event list) \<Rightarrow> sys \<Rightarrow> sys \<Rightarrow> bool" where
  "hearing os n inp s t \<longleftrightarrow> thread_step os n s t \<or> main_step os s t
     \<and> (\<forall>fd. main_at s = M_put fd \<longrightarrow> (\<exists>junk. queue_put os fd junk (inp fd) (sv s) = Some (Done (sv t))))"

text \<open>The accepting thread has the connection \<open>fd\<close> but has not put its request; what can still happen until it reads.\<close>

definition accepted :: "int \<Rightarrow> sys \<Rightarrow> bool" where
  "accepted fd s \<longleftrightarrow> main_at s \<in> {M_wait_empty fd, M_wait_mutex fd, M_put fd}"

fun before_read :: "main_pc \<Rightarrow> nat" where
  "before_read (M_wait_empty fd) = 2" | "before_read (M_wait_mutex fd) = 1" | "before_read _ = 0"

lemma silent_main_step:
  assumes "main_step os s t" "accepted fd s" "delivered (inp fd) = (bs, At_stall)" "after_headers bs = None"
    and "hearing os n inp s t" "\<not> thread_step os n s t"
  shows "accepted fd t \<and> put_log t = put_log s \<and> work n t = work n s \<and> before_read (main_at t) < before_read (main_at s)
    \<and> main_at s \<noteq> M_put fd"
proof -
  have np: "main_at s \<noteq> M_put fd" using assms(5,6) queue_put_stalls[OF assms(3,4)] by (auto simp: hearing_def)
  show ?thesis using assms(1) by (cases rule: main_step.cases) (use np assms(2) in \<open>auto simp: accepted_def work_def\<close>)
qed

lemma locked_thread_step:
  assumes "thread_step os n s t" "sys_ok n slots policy s" "main_at s = M_put fd"
  shows "sv t = sv s \<and> take_log t = take_log s"
proof -
  have "pool_sum n locks (threads s) = 0" using assms(2,3) by (simp add: sys_ok_def)
  then have nt: "threads s i \<noteq> T_take" if "i < n" for i
    using pool_sum_member[OF that, of locks "threads s"] by auto
  show ?thesis using assms(1) by (cases rule: thread_step.cases) (use nt in auto)
qed

lemma thread_step_frame: "thread_step os n s t \<Longrightarrow> main_at t = main_at s \<and> put_log t = put_log s"
  by (induction rule: thread_step.induct) auto

lemma silent_step:
  assumes st: "hearing os n inp s t" and ok: "sys_ok n slots policy s" "policy \<in> {''FIFO'', ''SFF'', ''RFF''}"
    and fd: "accepted fd s" and inp: "delivered (inp fd) = (bs, At_stall)" "after_headers bs = None"
  shows "sys_ok n slots policy t" and "accepted fd t" and "put_log t = put_log s"
    and "work n t + before_read (main_at t) < work n s + before_read (main_at s)"
    and "main_at s = M_put fd \<Longrightarrow> main_at t = M_put fd \<and> sv t = sv s \<and> take_log t = take_log s"
proof -
  have "sys_ok n slots policy t \<and> accepted fd t \<and> put_log t = put_log s
      \<and> work n t + before_read (main_at t) < work n s + before_read (main_at s)
      \<and> (main_at s = M_put fd \<longrightarrow> main_at t = M_put fd \<and> sv t = sv s \<and> take_log t = take_log s)"
  proof (cases "thread_step os n s t")
    case True
    then show ?thesis
      using thread_step_ok[OF True ok] thread_step_frame[OF True] thread_step_work[OF True] fd
        locked_thread_step[OF True ok(1)] by (simp add: accepted_def)
  next
    case False
    then have m: "main_step os s t" using st by (auto simp: hearing_def)
    show ?thesis using silent_main_step[OF m fd inp st False] main_step_ok[OF m ok(1)] by auto
  qed
  then show "sys_ok n slots policy t" "accepted fd t" "put_log t = put_log s"
    "work n t + before_read (main_at t) < work n s + before_read (main_at s)"
    "main_at s = M_put fd \<Longrightarrow> main_at t = M_put fd \<and> sv t = sv s \<and> take_log t = take_log s" by simp_all
qed

lemma silent_run:
  assumes "(hearing os n inp ^^ k) s t" "sys_ok n slots policy s" "policy \<in> {''FIFO'', ''SFF'', ''RFF''}"
    and "accepted fd s" "delivered (inp fd) = (bs, At_stall)" "after_headers bs = None"
  shows "sys_ok n slots policy t \<and> accepted fd t \<and> put_log t = put_log s
    \<and> work n t + before_read (main_at t) + k \<le> work n s + before_read (main_at s)
    \<and> (main_at s = M_put fd \<longrightarrow> main_at t = M_put fd \<and> sv t = sv s \<and> take_log t = take_log s)"
  using assms(1)
proof (induction k arbitrary: t)
  case 0
  then show ?case using assms(2,4) by simp
next
  case (Suc k)
  then obtain u where u: "(hearing os n inp ^^ k) s u" "hearing os n inp u t" by auto
  have ok: "sys_ok n slots policy u" "accepted fd u" using Suc.IH[OF u(1)] by simp_all
  show ?case using Suc.IH[OF u(1)] silent_step[OF u(2) ok(1) assms(3) ok(2) assms(5,6)] by auto
qed

lemma silent_stuck:
  assumes ok: "sys_ok n slots policy t" and "0 < n" "0 < slots" "accepted fd t" and stuck: "\<nexists>u. hearing os n inp t u"
  shows "main_at t = M_put fd \<or> (\<exists>i < n. threads t i = T_take \<or> (\<exists>r. threads t i = T_handle r))"
proof (rule ccontr)
  assume a: "\<not> ?thesis"
  then have m: "main_at t = M_wait_empty fd \<or> main_at t = M_wait_mutex fd" using assms(4) by (auto simp: accepted_def)
  have no: "\<not> main_step os t u" "\<not> thread_step os n t u" for u using stuck m by (auto simp: hearing_def)
  have "threads t i = T_wait_fill \<or> threads t i = T_wait_mutex" if i: "i < n" for i
    using a i no(2) thread_step.t_post_mutex[OF i] thread_step.t_post_empty[OF i] by (cases "threads t i") blast+
  then show False using waiting_pool_steps[OF ok assms(2,3) _ m] no by blast
qed

text \<open>C34. One client that connects and falls silent before it has sent a blank line stops the whole server.
  From the acceptance on, whatever the schedule, the server makes at most \<open>work + 2\<close> more steps and puts no further
  request. A run that ends without a thread caught in a request it cannot take or answer ends in the read of that client.
  There the accepting thread holds \<^verbatim>\<open>mutex\<close>, and in all that follows it stays there, no thread takes a request,
  and those in the buffer stay in it.\<close>

theorem silent_client_blocks_server:
  assumes "reachable os n mem policy s" "mem \<noteq> []" "policy \<in> {''FIFO'', ''SFF'', ''RFF''}" "0 < n"
    and "main_at s \<in> {M_wait_empty fd, M_wait_mutex fd, M_put fd}"
    and "delivered (inp fd) = (bs, At_stall)" "after_headers bs = None"
    and "(hearing os n inp ^^ k) s t"
  shows "k \<le> work n s + 2 \<and> put_log t = put_log s
    \<and> ((\<nexists>u. hearing os n inp t u) \<longrightarrow>
        main_at t = M_put fd \<or> (\<exists>i < n. threads t i = T_take \<or> (\<exists>r. threads t i = T_handle r)))
    \<and> (main_at t = M_put fd \<longrightarrow> sem_mutex t = 0 \<and> (\<forall>j u. (hearing os n inp ^^ j) t u \<longrightarrow>
        main_at u = M_put fd \<and> sv u = sv t \<and> take_log u = take_log t))"
proof -
  have s: "sys_ok n (length mem) policy s" "accepted fd s"
    using reachable_ok[OF assms(1-3)] assms(5) by (simp_all add: accepted_def)
  have t: "sys_ok n (length mem) policy t" "accepted fd t" "put_log t = put_log s"
    "work n t + before_read (main_at t) + k \<le> work n s + before_read (main_at s)"
    using silent_run[OF assms(8) s(1) assms(3) s(2) assms(6,7)] by simp_all
  have "before_read (main_at s) \<le> 2" by (cases "main_at s") auto
  then have k: "k \<le> work n s + 2" using t(4) by simp
  have held: "main_at t = M_put fd \<Longrightarrow> sem_mutex t = 0" using t(1) by (simp add: sys_ok_def)
  have still: "main_at t = M_put fd \<Longrightarrow> (hearing os n inp ^^ j) t u \<Longrightarrow> main_at u = M_put fd \<and> sv u = sv t \<and> take_log u = take_log t"
    for j u using silent_run[where inp = inp and s = t and t = u and k = j, OF _ t(1) assms(3) t(2) assms(6,7)] by simp
  show ?thesis using k t(3) held still silent_stuck[OF t(1) assms(4) _ t(2)] assms(2) by blast
qed

theorem silent_client_blocks_server_witness:
  "\<exists>s. demo_run s \<and> main_at s = M_put 4 \<and> (\<forall>k t. (hearing demo_web 2 (\<lambda>_. [Chunk ''GET /'', Stall]) ^^ k) s t \<longrightarrow>
     k \<le> 2 \<and> main_at t = M_put 4 \<and> take_log t = [])"
proof -
  let ?inp = "\<lambda>_::int. [Chunk ''GET /'', Stall]"
  obtain s where s: "demo_run s" "main_at s = M_put 4" "threads s = (\<lambda>_. T_wait_fill)" "sem_fill s = 0" "take_log s = []"
    by (rule demo_reading)
  have silent: "delivered (?inp 4) = (''GET /'', At_stall)" "after_headers ''GET /'' = None"
    by (simp_all add: after_headers.simps cstr_def CRLF_def Let_def)
  have w: "work 2 s = 0" using s(3,4) by (simp add: work_def pool_sum_def)
  note blocked = silent_client_blocks_server[where s = s and fd = 4 and inp = ?inp, OF s(1) _ _ _ _ silent]
  have "(hearing demo_web 2 ?inp ^^ 0) s s" by simp
  from blocked[OF _ _ _ _ this] have "\<forall>j u. (hearing demo_web 2 ?inp ^^ j) s u \<longrightarrow> main_at u = M_put 4 \<and> take_log u = []"
    using s(2,5) by simp
  moreover have "k \<le> 2" if "(hearing demo_web 2 ?inp ^^ k) s t" for k t
    using blocked[OF _ _ _ _ that] s(2) w by simp
  ultimately show ?thesis using s(1,2) by blast
qed

end
