(* ===== verification/CgiProgram.thy ===== *)
theory CgiProgram
  imports ClientServer
begin

text \<open>
  The CGI program \<^verbatim>\<open>multiThreadedWebServer/output.c\<close>, the child process in which the server runs it, and the
  way of its page through the server to the client. The clock is a parameter: \<open>clock i\<close> is the answer, seconds and
  microseconds, of the \<open>i\<close>-th call of \<^verbatim>\<open>gettimeofday\<close>. Times are kept exactly, in microseconds, where the
  program rounds to a \<^verbatim>\<open>double\<close>.
\<close>

section \<open>The program\<close>

text \<open>\<^verbatim>\<open>getargs\<close>: the seconds to wait; \<open>q\<close> is the value of \<^verbatim>\<open>QUERY_STRING\<close>, when it is set.\<close>

definition spinfor_of :: "string option \<Rightarrow> int" where
  "spinfor_of q = (case q of None \<Rightarrow> 5
     | Some b \<Rightarrow> (case strtok (CHR ''&'') b of None \<Rightarrow> 5 | Some (p, _) \<Rightarrow> atoi p))"

definition Time_GetSeconds :: "(nat \<Rightarrow> int \<times> int) \<Rightarrow> nat \<Rightarrow> int" where
  "Time_GetSeconds clock i = fst (clock i) * 1000000 + snd (clock i)"

text \<open>The waiting loop, from reading \<open>i\<close> of the clock on; the result is the number of readings made.\<close>

partial_function (option) spin :: "(nat \<Rightarrow> int \<times> int) \<Rightarrow> int \<Rightarrow> int \<Rightarrow> nat \<Rightarrow> nat option" where
  "spin clock t1 spinfor i =
     (if Time_GetSeconds clock i - t1 < spinfor * 1000000 then spin clock t1 spinfor (Suc i) else Some (Suc i))"

declare spin.simps [code]

text \<open>\<^verbatim>\<open>printf\<close> of a time with two decimals.\<close>

definition show_seconds :: "int \<Rightarrow> string" where
  "show_seconds d = (let h = nat ((\<bar>d\<bar> + 5000) div 10000) in
     (if d < 0 then ''-'' else []) @ show_nat (h div 100) @ ''.'' @ [digit (h mod 100 div 10), digit (h mod 10)])"

definition cgi_main :: "string option \<Rightarrow> (nat \<Rightarrow> int \<times> int) \<Rightarrow> string option" where
  "cgi_main q clock = do {
     let spinfor = spinfor_of q;
     let t1 = Time_GetSeconds clock 0;
     i \<leftarrow> spin clock t1 spinfor 1;
     let t2 = Time_GetSeconds clock i;
     content \<leftarrow> store MAXBUF (''<p>Welcome to the CGI program</p>'' @ CRLF);
     content \<leftarrow> store MAXBUF (content @ ''<p>My only purpose is to waste time on the server!</p>'' @ CRLF);
     content \<leftarrow> store MAXBUF (content @ ''<p>I spun for '' @ show_seconds (t2 - t1) @ '' seconds</p>'' @ CRLF);
     Some (''Content-length: '' @ show_nat (length content) @ CRLF @ ''Content-type: text/html'' @ CRLF @ CRLF @ content) }"

text \<open>The child of \<^verbatim>\<open>requestServeDynamic\<close>: what it writes to the connection.\<close>

definition cgi_child :: "int \<Rightarrow> int \<Rightarrow> int \<Rightarrow> string \<Rightarrow> (nat \<Rightarrow> int \<times> int) \<Rightarrow> string run" where
  "cgi_child setenv_rc dup_rc exec_rc args clock =
     then_run (Setenv setenv_rc) (\<lambda>_.
     then_run (Dup2 dup_rc) (\<lambda>_.
     Execve exec_rc (map_option Done (cgi_main (Some args) clock))))"

section \<open>The program ends\<close>

text \<open>Between two readings the program sleeps for a second; the clock is not set back.\<close>

definition ticking :: "(nat \<Rightarrow> int \<times> int) \<Rightarrow> nat \<Rightarrow> bool" where
  "ticking clock n \<longleftrightarrow> (\<forall>i \<le> n. Time_GetSeconds clock i \<le> Time_GetSeconds clock (Suc i)
     \<and> (0 < i \<longrightarrow> Time_GetSeconds clock i + 1000000 \<le> Time_GetSeconds clock (Suc i)))"

lemma ticking_from_1:
  "ticking clock n \<Longrightarrow> i \<le> n \<Longrightarrow> Time_GetSeconds clock 0 + int i * 1000000 \<le> Time_GetSeconds clock (Suc i)"
proof (induction i)
  case (Suc i)
  then have "Time_GetSeconds clock (Suc i) + 1000000 \<le> Time_GetSeconds clock (Suc (Suc i))" by (simp add: ticking_def)
  moreover have "Time_GetSeconds clock 0 + int i * 1000000 \<le> Time_GetSeconds clock (Suc i)" using Suc by simp
  ultimately show ?case by (simp add: algebra_simps)
qed (simp add: ticking_def)

lemma spin_ends:
  assumes "ticking clock n" "spinfor \<le> int n" "1 \<le> i" "i \<le> Suc n" "t1 = Time_GetSeconds clock 0"
  shows "\<exists>j. spin clock t1 spinfor i = Some (Suc j) \<and> i \<le> j \<and> j \<le> Suc n \<and> spinfor * 1000000 \<le> Time_GetSeconds clock j - t1"
  using assms(3,4)
proof (induction "Suc n - i" arbitrary: i)
  case 0
  then have "i = Suc n" by simp
  then have "spinfor * 1000000 \<le> Time_GetSeconds clock i - t1"
    using ticking_from_1[OF assms(1), of n] assms(2,5) by simp
  then show ?case using \<open>i = Suc n\<close> by (subst spin.simps) auto
next
  case (Suc m)
  show ?case
  proof (cases "Time_GetSeconds clock i - t1 < spinfor * 1000000")
    case True
    then show ?thesis using Suc.hyps(1)[of "Suc i"] Suc.hyps(2) Suc.prems by (subst spin.simps) fastforce
  next
    case False
    then show ?thesis using Suc.prems by (subst spin.simps) auto
  qed
qed

text \<open>The page, for a time spent.\<close>

definition cgi_page :: "int \<Rightarrow> string" where
  "cgi_page d = ''<p>Welcome to the CGI program</p>'' @ CRLF @ ''<p>My only purpose is to waste time on the server!</p>'' @ CRLF
     @ ''<p>I spun for '' @ show_seconds d @ '' seconds</p>'' @ CRLF"

definition cgi_response :: "int \<Rightarrow> string" where
  "cgi_response d = ''Content-length: '' @ show_nat (length (cgi_page d)) @ CRLF @ ''Content-type: text/html'' @ CRLF @ CRLF @ cgi_page d"

lemma show_seconds_length: "\<bar>d\<bar> < 10 ^ 24 \<Longrightarrow> length (show_seconds d) \<le> 24"
proof -
  assume d: "\<bar>d\<bar> < 10 ^ 24"
  have "\<bar>d\<bar> < 1000000000000000000000000" using d by simp
  then have "(\<bar>d\<bar> + 5000) div 10000 < 1000000000000000000000" by linarith
  then have "nat ((\<bar>d\<bar> + 5000) div 10000) < 1000000000000000000000" by linarith
  then have "nat ((\<bar>d\<bar> + 5000) div 10000) div 100 < 100000000000000000000" by linarith
  then have "nat ((\<bar>d\<bar> + 5000) div 10000) div 100 < 10 ^ 20" by simp
  then have "length (show_nat (nat ((\<bar>d\<bar> + 5000) div 10000) div 100)) \<le> 20" by (rule show_nat_length) simp
  then show ?thesis by (cases "d < 0") (simp_all add: show_seconds_def Let_def)
qed

lemma cgi_main_ends:
  assumes "ticking clock (nat (spinfor_of q) + 1)" "Time_GetSeconds clock (nat (spinfor_of q) + 2) - Time_GetSeconds clock 0 < 10 ^ 24"
  obtains d where "cgi_main q clock = Some (cgi_response d)" "spinfor_of q * 1000000 \<le> d" "0 \<le> d" "d < 10 ^ 24"
proof -
  let ?t = "Time_GetSeconds clock" and ?n = "nat (spinfor_of q)"
  have tk: "ticking clock ?n" "spinfor_of q \<le> int ?n" using assms(1) by (simp_all add: ticking_def)
  obtain j where j: "spin clock (?t 0) (spinfor_of q) 1 = Some (Suc j)" "1 \<le> j" "j \<le> Suc ?n"
    "spinfor_of q * 1000000 \<le> ?t j - ?t 0" using spin_ends[OF tk, of 1 "?t 0"] by auto
  have mono: "?t i \<le> ?t (Suc i)" if "i \<le> ?n + 1" for i using assms(1) that by (simp add: ticking_def)
  have up: "?t i \<le> ?t k" if "i \<le> k" "k \<le> ?n + 2" for i k
    using that
  proof (induction k)
    case (Suc k)
    then show ?case using mono[of k] by (cases "i = Suc k") auto
  qed simp
  have d: "0 \<le> ?t (Suc j) - ?t 0" "?t (Suc j) - ?t 0 < 10 ^ 24" "spinfor_of q * 1000000 \<le> ?t (Suc j) - ?t 0"
    using up[of 0 "Suc j"] up[of "Suc j" "?n + 2"] up[of j "Suc j"] j assms(2) by auto
  have "length (show_seconds (?t (Suc j) - ?t 0)) \<le> 24" using d by (intro show_seconds_length) simp
  then have "cgi_main q clock = Some (cgi_response (?t (Suc j) - ?t 0))"
    using j(1) by (simp add: cgi_main_def Let_def store_def cgi_response_def cgi_page_def CRLF_def)
  then show thesis using that d by blast
qed

section \<open>From the program to the client\<close>

text \<open>What the client prints. The length is in a header whose name the client does not recognise.\<close>

definition printed_cgi :: "int \<Rightarrow> string" where
  "printed_cgi d = ''Header: HTTP/1.0 200 OK'' @ CRLF @ ''Header: Server: blg312e Web Server'' @ CRLF
     @ ''Header: Content-length: '' @ show_nat (length (cgi_page d)) @ CRLF @ ''Header: Content-type: text/html'' @ CRLF @ cgi_page d"

lemma show_seconds_plain: "c \<in> set (show_seconds d) \<Longrightarrow> c \<noteq> NUL"
proof -
  have dg: "digit k \<noteq> NUL" if "k < 10" for k
    using isdigit_digit[OF that] by (auto simp: isdigit_def)
  have h: "h mod 100 div 10 < 10" "h mod 10 < 10" for h :: nat by (auto simp: div_less_iff_less_mult)
  assume "c \<in> set (show_seconds d)"
  then show "c \<noteq> NUL" using dg[OF h(1), THEN not_sym] dg[OF h(2), THEN not_sym] digits_plain
    by (auto simp: show_seconds_def Let_def split: if_splits)
qed

lemma client_prints_cgi:
  assumes "delivered es = (dynamic_reply (cgi_response d), At_eof)" "\<bar>d\<bar> < 10 ^ 24"
  shows "clientPrint junk rp es = Some (Done (printed_cgi d))"
proof -
  let ?b = "''HTTP/1.0 200 OK'' @ [CHR 0x0D]"
  let ?cl = "''Content-length: '' @ show_nat (length (cgi_page d)) @ [CHR 0x0D]"
  let ?ls = "[''Server: blg312e Web Server'' @ [CHR 0x0D], ?cl, ''Content-type: text/html'' @ [CHR 0x0D]]"
  have "length (cgi_page d) < 10 ^ 3" using show_seconds_length[OF assms(2)] by (simp add: cgi_page_def CRLF_def)
  then have "length (show_nat (length (cgi_page d))) \<le> 3" by (rule show_nat_length) simp
  then have hl: "header_line ?b" "\<forall>l \<in> set ?ls. header_line l"
    using digits_plain by (auto simp: header_line_def)
  have e: "dynamic_reply (cgi_response d) = reply_of ?b ?ls (cgi_page d)"
    by (simp add: dynamic_reply_def cgi_response_def reply_of_def CRLF_def)
  have nul: "NUL \<notin> set (cgi_page d)" using show_seconds_plain by (auto simp: cgi_page_def CRLF_def)
  have "show_headers ?b ?ls @ cgi_page d = printed_cgi d"
    by (simp add: printed_cgi_def CRLF_def length_note_def scan_length_def)
  then show ?thesis using reply_printed[OF assms(1)[unfolded e] hl nul] by simp
qed

text \<open>C27. A CGI request goes through: when the clock advances, the program ends after at least the seconds that
  the query asks for, the server's handler returns, and the client prints the status line, the headers
  and the page with the time spent. It does not report the length, which the program announces under a
  name written in another case.\<close>

theorem cgi_served_and_printed:
  assumes "working io" "sent io = []" "length (req_method req) < 8000" "length (filename req) < 8000"
    and "status_of req = 200" "is_static req = 0" "served_well os req"
    and "0 \<le> setenv_rc" "0 \<le> dup_rc" "0 \<le> exec_rc"
    and "\<And>written. cgi_child setenv_rc dup_rc exec_rc (cgiargs req) clock = Some (Done written)
      \<Longrightarrow> cgi_output os (filename req) (cgiargs req) = written"
    and "ticking clock (nat (spinfor_of (Some (cgiargs req))) + 1)"
    and "Time_GetSeconds clock (nat (spinfor_of (Some (cgiargs req))) + 2) - Time_GetSeconds clock 0 < 10 ^ 24"
  shows "\<exists>io' d. requestHandle os req io = Some (Done io') \<and> spinfor_of (Some (cgiargs req)) * 1000000 \<le> d
    \<and> (\<forall>es. delivered es = (sent io', At_eof) \<longrightarrow> clientPrint junk rp es = Some (Done (printed_cgi d)))"
proof -
  obtain d where d: "cgi_main (Some (cgiargs req)) clock = Some (cgi_response d)"
    "spinfor_of (Some (cgiargs req)) * 1000000 \<le> d" "0 \<le> d" "d < 10 ^ 24"
    by (rule cgi_main_ends[OF assms(12,13)])
  then have out: "cgi_output os (filename req) (cgiargs req) = cgi_response d"
    using assms(8-11) by (simp add: cgi_child_def wrapper_defs Execve_def)
  obtain io' where io: "requestHandle os req io = Some (Done io')" "sent io' = reply os req"
    using requestHandle_sends[OF assms(1,3,4,7)] assms(2) by auto
  have "sent io' = dynamic_reply (cgi_response d)" using io(2) assms(5,6) out by (simp add: reply_def)
  then show ?thesis using io(1) d(2-4) client_prints_cgi[of _ d] by auto
qed

text \<open>A request for the program with the query \<open>2\<close>, on a machine whose clock shows full seconds.\<close>

definition demo_clock :: "nat \<Rightarrow> int \<times> int" where "demo_clock i = (int i, 0)"

definition demo_cgi :: request_t where
  "demo_cgi = demo_request\<lparr>is_static := 0, sbuf := \<lparr>st_mode = 0x81ED, st_size = 5, st_mtime = 10\<rparr>,
     filename := ''./output.cgi'', cgiargs := ''2''\<rparr>"

definition cgi_web :: web_os where
  "cgi_web = demo_web\<lparr>cgi_output := (\<lambda>f q. case cgi_child 0 0 0 q demo_clock of Some (Done t) \<Rightarrow> t | _ \<Rightarrow> [])\<rparr>"

theorem cgi_served_and_printed_witness:
  "\<exists>io' d. requestHandle cgi_web demo_cgi demo_conn = Some (Done io') \<and> 2000000 \<le> d
     \<and> clientPrint [] demo_rio [Chunk (sent io')] = Some (Done (printed_cgi d))"
proof -
  have two: "spinfor_of (Some ''2'') = 2"
    by (simp add: spinfor_of_def strtok_def atoi_def Let_def read_nat_def isspace_def isdigit_def digit_value_def)
  then have q: "spinfor_of (Some (cgiargs demo_cgi)) = 2" by (simp add: demo_cgi_def)
  have t: "Time_GetSeconds demo_clock i = int i * 1000000" for i by (simp add: Time_GetSeconds_def demo_clock_def)
  have "status_of demo_cgi = 200"
    by (simp add: status_of_def demo_cgi_def demo_request_def demo_get S_ISREG_def S_IXUSR_def)
  moreover have "served_well cgi_web demo_cgi"
    by (simp add: served_well_def cgi_web_def demo_web_def demo_cgi_def)
  moreover have "cgi_output cgi_web (filename demo_cgi) (cgiargs demo_cgi) = w"
    if "cgi_child 0 0 0 (cgiargs demo_cgi) demo_clock = Some (Done w)" for w
    using that by (simp add: cgi_web_def)
  moreover have "ticking demo_clock n" for n by (simp add: ticking_def t)
  ultimately have "\<exists>io' d. requestHandle cgi_web demo_cgi demo_conn = Some (Done io')
    \<and> spinfor_of (Some (cgiargs demo_cgi)) * 1000000 \<le> d
    \<and> (\<forall>es. delivered es = (sent io', At_eof) \<longrightarrow> clientPrint [] demo_rio es = Some (Done (printed_cgi d)))"
    by (intro cgi_served_and_printed[of _ _ _ 0 0 0 demo_clock, OF demo_working])
      (simp_all add: demo_conn_def demo_cgi_def demo_request_def t two)
  then obtain io' d where io: "requestHandle cgi_web demo_cgi demo_conn = Some (Done io')" "2 * 1000000 \<le> d"
    "\<forall>es. delivered es = (sent io', At_eof) \<longrightarrow> clientPrint [] demo_rio es = Some (Done (printed_cgi d))"
    unfolding q by blast
  have "delivered [Chunk (sent io')] = (sent io', At_eof)" by simp
  then show ?thesis using io by auto
qed

end
