(* ===== verification/Spec2Isabelle.thy ===== *)
theory Spec2Isabelle
  imports FreeOrder TestProgram ShellProps ServerProgress CgiProgram
begin

text \<open>
  Verification development for COS24, three C programs.

  \<^bold>\<open>The programs.\<close>
  \<^item> \<^verbatim>\<open>src/sharedMalloc\<close>: a heap allocator in shared memory. \<^verbatim>\<open>src/freeList.c\<close> searches and changes a linked list of
    free blocks whose headers lie in the heap itself; \<^verbatim>\<open>src/heapAllocator.c\<close> maps the heap and offers
    \<^verbatim>\<open>InitMyMalloc\<close>, \<^verbatim>\<open>MyMalloc\<close>, \<^verbatim>\<open>MyFree\<close>, \<^verbatim>\<open>DumpFreeList\<close>; \<^verbatim>\<open>src/main.c\<close> tests it, also from several processes.
  \<^item> \<^verbatim>\<open>src/myShell\<close>: a shell with pipes, background blocks, a command history (\<^verbatim>\<open>queue.c\<close>) and a batch mode (\<^verbatim>\<open>hw1.c\<close>).
  \<^item> \<^verbatim>\<open>src/multiThreadedWebServer\<close>: a web server. \<^verbatim>\<open>server.c\<close> has the thread that accepts, the ring of requests
    and the pool of threads; \<^verbatim>\<open>request.c\<close> parses and answers; \<^verbatim>\<open>blg312e.c\<close> is the package of buffered reading and of
    wrappers of the system calls that both ends use; \<^verbatim>\<open>client.c\<close> is a test client and \<^verbatim>\<open>output.c\<close> a CGI program.

  \<^bold>\<open>Conventions.\<close> A C function is a function on explicit state. \<open>None\<close> means that the C program has no defined
  outcome: it reads or writes outside an object, dereferences a null pointer, blocks for ever or never leaves a loop.
  A loop that may not end is a \<open>partial_function (option)\<close>; there is no fuel anywhere, so a theorem with \<open>Some\<close> on
  its right-hand side says that the code returns. \<open>Died msg\<close> (theory Rio) and \<open>Inl msg\<close> say that the process ends by
  a call of \<^verbatim>\<open>exit\<close>. Sizes and pointers of the allocator are 64-bit words and wrap around. A character array that
  is used as a string is the characters before its terminating zero; a copy into an array of \<open>n\<close> characters is
  \<open>store n\<close>, \<open>None\<close> when the text with its terminator does not fit. All definitions compute.

  \<^bold>\<open>Parameters.\<close> The kernel is not part of the programs: the page size and the answer of \<^verbatim>\<open>mmap\<close> (\<open>os\<close>), \<^verbatim>\<open>fork\<close>,
  \<^verbatim>\<open>waitpid\<close>, \<^verbatim>\<open>pipe\<close>, \<^verbatim>\<open>chdir\<close> and what a program prints (\<open>shell_os\<close>), \<^verbatim>\<open>stat\<close>, \<^verbatim>\<open>open\<close>, \<^verbatim>\<open>mmap\<close> and the output of a CGI child
  (\<open>web_os\<close>), the results of successive \<^verbatim>\<open>read\<close> and \<^verbatim>\<open>write\<close> calls (lists of events), the clock (a function of the
  number of times it was read), the numbers typed in, and the order in which processes reach a mutex. Hypotheses on
  them say only what such calls do when they succeed, and each property with hypotheses has a witness at concrete values.

  \<^bold>\<open>The allocator.\<close>
  \<^item> ByteMemory: memory as bytes at 64-bit addresses, little-endian loads and stores, their laws.
  \<^item> BlockSpec, BlockOrder: the abstract heap, a list of blocks (address of the header, size of the payload): which block
    each strategy selects (\<open>select\<close>), what is granted and what stays free (\<open>granted\<close>, \<open>take_out\<close>), where a freed block goes
    (\<open>insert_free\<close>), that blocks tile the heap (\<open>tile\<close>), sorted and coalesced lists (\<open>ordered\<close>, \<open>coalesced\<close>).
  \<^item> FreeList: the functions of \<^verbatim>\<open>freeList.c\<close> on memory, under the C names. \<open>list_ok\<close> relates memory to a list of
    blocks. The searches equal \<open>select\<close>; the locale \<open>fit_strategy\<close> (FreeListUpdate) is what \<^verbatim>\<open>MyMalloc\<close> relies on and is
    interpreted for the four strategies.
  \<^item> HeapAllocator: the static variables (\<open>heap_state\<close>: memory, heap start, mapped size, mutex flag) and the entry points.
    \<open>heap_inv\<close> is the invariant: the free list and the used blocks together tile the heap.
  \<^item> MallocProps, FreeProps, FreeHeap: the entry points refine the abstract operations. AllocatorProps, HeapSession:
    the properties, among them those of sessions of calls (\<open>session\<close>, a step relation) with writes of clients between calls. FreeOrder:
    a sorted, coalesced free list is determined by the free bytes, so the order of freeing does not matter as long as every
    free returns and a free block stays above.
  \<^item> HeapTests is \<^verbatim>\<open>main.c\<close>; HeapTestProps, ForkTest, TestProgram run it: the calls become steps on the abstract
    lists, so that the outcome of the whole program is computed without unfolding the memory.

  \<^bold>\<open>The shell.\<close>
  \<^item> HistoryQueue: \<^verbatim>\<open>queue.c\<close> on a heap of nodes; \<open>contents\<close> is the abstract queue, an \<open>unbounded_fifo\<close> (locale of Fifo).
  \<^item> CText: the C library's text functions that are used. ShellText: \<^verbatim>\<open>trim\<close> and \<^verbatim>\<open>parseCommand\<close>, character by character,
    against \<open>tokens\<close>.
  \<^item> Shell: the other functions of \<^verbatim>\<open>hw1.c\<close> on the record of its static variables. The loop over a line stays a loop over
    characters; ShellProps proves it equal to the division of the line into blocks (\<open>blocks_of\<close>, \<open>run_blocks\<close>) and
    composes a pipeline from the outputs of its programs.

  \<^bold>\<open>The web server and its clients.\<close>
  \<^item> Rio: \<^verbatim>\<open>rio_readn\<close> to \<^verbatim>\<open>Rio_readlineb\<close>. \<open>rio_t\<close> holds the buffer, the position as an offset, and the count; \<open>pending\<close>
    is the text still to be delivered, in which the line reader and the writer are specified. Wrappers: the checked calls.
  \<^item> Request: \<^verbatim>\<open>request.c\<close>. RequestProps: the reply as a function of the request (\<open>reply\<close>), the handler against it,
    the lengths at which the handler leaves its arrays, the end of the headers.
  \<^item> RequestQueue: the ring of \<^verbatim>\<open>server.c\<close>, its three policies and \<^verbatim>\<open>queue_put\<close>. RingProps: the ring as a list
    (\<open>waiting\<close>), the policies on it (locale \<open>slot_scan\<close> for the scans of RFF and SFF), the ring as a \<open>bounded_fifo\<close>.
  \<^item> ServerSteps: \<^verbatim>\<open>main\<close> and \<^verbatim>\<open>thread_handle\<close> as threads that interleave at the operations on the semaphores: \<open>main_step\<close>,
    \<open>thread_step\<close>, the states \<open>reachable\<close> by them and the invariant \<open>sys_ok\<close>, proved by rule induction. ServerProgress: the
    start from the command line, a measure (\<open>work\<close>) that every step of a thread lowers, and the steps of the server
    given what each client sends (\<open>hearing\<close>), in which one silent client brings everything to a stop.
  \<^item> Client: \<^verbatim>\<open>client.c\<close>. ClientServer: what it sends is what the server reads, what the server sends is what it prints.
    CgiProgram: \<^verbatim>\<open>output.c\<close>, the child of the server that runs it, and the client that asked for it.

  \<^bold>\<open>What the theorems show.\<close> C1 to C13 are about the allocator, C14 to C16 about its test program, C17, C18 and C38 to
  C40 about the shell, C19 to C37 about the web server, its clients and the package. Most say that the code does what it
  means to. The others give the exact condition under which it does not: the null pointer in \<^verbatim>\<open>MyFree\<close> (C10), the order
  of the test's children (C15), the silent client (C34), the empty file (C35), the overruns (C36, C39), the reused
  request (C37), the silent stage of a pipeline (C38).

  \<^bold>\<open>Where the model is coarser than C.\<close>
  \<^item> \<^verbatim>\<open>malloc\<close> of the small objects (queue, nodes, arrays) succeeds, and a node of the history holds the text of the
    command instead of a pointer to it. In a child of the shell \<^verbatim>\<open>dup2\<close>, \<^verbatim>\<open>pipe\<close> and \<^verbatim>\<open>write\<close> succeed. The standard output of
    the shell is a terminal; into a pipe the C library is taken to write full buffers of 4096 characters (\<open>flushed\<close>).
  \<^item> A size that is no multiple of 8 puts the next header at an address that is not aligned for its type, which C leaves
    undefined; the model reads and writes it byte by byte, as the processors the program runs on do.
  \<^item> Of the printing of \<^verbatim>\<open>main.c\<close> the requests, pointers and results are kept; the fixed texts, the numbers of the
    processes and the names of the strategies are not; the lines of \<^verbatim>\<open>DumpFreeList\<close> are
    records of the printed numbers.
  \<^item> \<^verbatim>\<open>sprintf(buf, "%s...", buf)\<close> is undefined in C; it is read as an append, which is what the C library does.
  \<^item> A copy of \<^verbatim>\<open>rio_t\<close> copies a pointer into the original's buffer; a position in its own buffer is kept instead. The
    server initialises the structure again before it reads from it.
  \<^item> A child of the allocator's test makes its call of \<^verbatim>\<open>MyMalloc\<close> as one step: the mutex, which is not shared between
    processes in the code, is taken to exclude them.
  \<^item> \<^verbatim>\<open>wait(NULL)\<close> in the handler of a CGI request waits for that request's child; with several threads it may reap
    another's. \<^verbatim>\<open>atoi\<close> reads unbounded numbers. The times of \<^verbatim>\<open>output.c\<close> are exact microseconds.

  \<^bold>\<open>Not modelled.\<close> The joining of the client's threads and its progress messages; the bytes a system call
  fills in for the wrappers that nobody calls; the code of the server after its endless loop; prototypes, macros that are
  not used and inclusions of the headers. Nothing else of the C files is left out.
\<close>

end
